(* ===== verification/Prelude.thy ===== *)
theory Prelude
  imports Main
begin

text \<open>
  Shared material of the development: the fault type that every operation which can assert,
  abort, exit or touch memory out of range returns, the sequencing of such operations, the
  outcome types of system calls, and the generic facts on lists that the component theories use.
\<close>

named_theorems mem_simps \<open>facts about slices of a character array\<close>
named_theorems res_simps \<open>facts about sequencing operations that may fault\<close>

section \<open>Faults\<close>

text \<open>
  The build is a Debug build, so \<open>assert\<close> is active.  \<open>OutOfBounds\<close> is an access
  outside the memory a pointer may touch, which is undefined behaviour in the source;
  \<open>LengthError\<close> is the exception a negative vector size raises; \<open>BadFunction\<close> is
  the exception of calling an empty \<open>std::function\<close>.
\<close>

datatype fault = AssertFailure | OutOfBounds | AbortCalled | ExitCalled | LengthError
  | BadFunction | DivisionByZero | StdException

type_synonym 'a result = "fault + 'a"

definition res_bind :: "'a result \<Rightarrow> ('a \<Rightarrow> 'b result) \<Rightarrow> 'b result" where
  "res_bind r f = (case r of Inl e \<Rightarrow> Inl e | Inr x \<Rightarrow> f x)"

definition assert_then :: "bool \<Rightarrow> 'a result \<Rightarrow> 'a result" where
  "assert_then c r = (if c then r else Inl AssertFailure)"

lemma res_bind_Inr [simp, res_simps]: "res_bind (Inr x) f = f x"
  by (simp add: res_bind_def)

lemma res_bind_Inl [simp, res_simps]: "res_bind (Inl e) f = Inl e"
  by (simp add: res_bind_def)

lemma res_bind_eq_Inr [res_simps]: "res_bind r f = Inr y \<longleftrightarrow> (\<exists>x. r = Inr x \<and> f x = Inr y)"
  by (cases r) auto

lemma res_bind_split:
  "P (res_bind r f) \<longleftrightarrow> (\<forall>e. r = Inl e \<longrightarrow> P (Inl e)) \<and> (\<forall>x. r = Inr x \<longrightarrow> P (f x))"
  by (cases r) auto

lemma res_bind_assoc: "res_bind (res_bind r f) g = res_bind r (\<lambda>x. res_bind (f x) g)"
  by (cases r) auto

lemma assert_then_True [simp, res_simps]: "c \<Longrightarrow> assert_then c r = r"
  by (simp add: assert_then_def)

lemma assert_then_eq_Inr [res_simps]: "assert_then c r = Inr x \<longleftrightarrow> c \<and> r = Inr x"
  by (simp add: assert_then_def)

lemma assert_then_False: "\<not> c \<Longrightarrow> assert_then c r = Inl AssertFailure"
  by (simp add: assert_then_def)

section \<open>Arrays of characters\<close>

text \<open>
  \<open>slice xs i j\<close> is the range \<open>[i, j)\<close> of an array, as two pointers into it delimit it;
  \<open>overwrite xs i ys\<close> is the array after copying \<open>ys\<close> to position \<open>i\<close>;
  \<open>resized xs n\<close> is \<open>vector::resize\<close>.
\<close>

definition slice :: "'a list \<Rightarrow> int \<Rightarrow> int \<Rightarrow> 'a list" where
  "slice xs i j = take (nat (j - i)) (drop (nat i) xs)"

definition overwrite :: "'a list \<Rightarrow> int \<Rightarrow> 'a list \<Rightarrow> 'a list" where
  "overwrite xs i ys = take (nat i) xs @ ys @ drop (nat i + length ys) xs"

definition resized :: "char list \<Rightarrow> int \<Rightarrow> char list" where
  "resized xs n = take (nat n) xs @ replicate (nat n - length xs) (CHR 0x00)"

lemma length_slice [mem_simps]:
  "0 \<le> i \<Longrightarrow> i \<le> j \<Longrightarrow> j \<le> int (length xs) \<Longrightarrow> length (slice xs i j) = nat (j - i)"
  by (auto simp: slice_def)

lemma slice_same [simp]: "slice xs i i = []"
  by (simp add: slice_def)

lemma length_overwrite [mem_simps]:
  "0 \<le> i \<Longrightarrow> i + int (length ys) \<le> int (length xs) \<Longrightarrow> length (overwrite xs i ys) = length xs"
  by (auto simp: overwrite_def)

lemma length_resized [mem_simps]: "length (resized xs n) = nat n"
  by (simp add: resized_def)

lemma slice_resized [mem_simps]:
  assumes "0 \<le> i" "i \<le> j" "j \<le> int (length xs)" "int (length xs) \<le> n"
  shows "slice (resized xs n) i j = slice xs i j"
  using assms by (simp add: slice_def resized_def)

lemma slice_overwrite_left [mem_simps]:
  assumes "0 \<le> i" "i \<le> j" "j \<le> k" "k \<le> int (length xs)"
  shows "slice (overwrite xs k ys) i j = slice xs i j"
proof -
  have j: "nat (j - i) + nat i = nat j"
    using assms by linarith
  have "take (nat j) (overwrite xs k ys) = take (nat j) xs"
    using assms by (simp add: overwrite_def min_def nat_le_iff)
  then show ?thesis
    by (simp add: slice_def take_drop j)
qed

lemma slice_overwrite_at [mem_simps]:
  assumes "0 \<le> k" "k \<le> int (length xs)"
  shows "slice (overwrite xs k ys) k (k + int (length ys)) = ys"
  using assms by (simp add: slice_def overwrite_def)

lemma slice_append [mem_simps]:
  assumes "0 \<le> i" "i \<le> j" "j \<le> k"
  shows "slice xs i k = slice xs i j @ slice xs j k"
proof -
  have "nat (k - i) = nat (j - i) + nat (k - j)" "nat j = nat (j - i) + nat i"
    using assms by linarith+
  then show ?thesis
    by (simp add: slice_def take_add)
qed

lemma slice_drop [mem_simps]:
  assumes "0 \<le> i" "i \<le> j" "0 \<le> n" "n \<le> j - i"
  shows "drop (nat n) (slice xs i j) = slice xs (i + n) j"
proof -
  have "nat (j - i) - nat n = nat (j - (i + n))" "nat n + nat i = nat (i + n)"
    using assms by linarith+
  then show ?thesis
    by (simp add: slice_def drop_take add.commute)
qed

section \<open>The first occurrence of a character\<close>

text \<open>\<open>std::find\<close> on a range: the index of the first occurrence, or the length of the range.\<close>

definition find_char :: "char \<Rightarrow> char list \<Rightarrow> nat" where
  "find_char c xs = length (takeWhile (\<lambda>x. x \<noteq> c) xs)"

lemma find_char_le [simp]: "find_char c xs \<le> length xs"
  by (simp add: find_char_def length_takeWhile_le)

lemma find_char_notin: "c \<notin> set xs \<Longrightarrow> find_char c xs = length xs"
  by (induction xs) (auto simp: find_char_def)

lemma find_char_append: "c \<notin> set xs \<Longrightarrow> find_char c (xs @ c # ys) = length xs"
  by (induction xs) (auto simp: find_char_def)

lemma find_char_eq_length: "find_char c xs = length xs \<longleftrightarrow> c \<notin> set xs"
  by (induction xs) (auto simp: find_char_def)

section \<open>System calls\<close>

text \<open>
  A system call is an input of the model: the outcome the kernel chose, an \<open>errno\<close> or the
  value the call returned.
\<close>

datatype errno = EAGAIN | EBADF | EFAULT | EINTR | EINVAL | EIO | ENOMEM | EPIPE | ECONNRESET
  | EMFILE | EOTHER int

section \<open>Decimal numbers\<close>

text \<open>\<open>std::to_string\<close> and its inverse.\<close>

definition digit_char :: "nat \<Rightarrow> char" where
  "digit_char d = char_of (48 + d)"

fun nat_dec :: "nat \<Rightarrow> string" where
  "nat_dec n = (if n < 10 then [digit_char n] else nat_dec (n div 10) @ [digit_char (n mod 10)])"

declare nat_dec.simps [simp del]

definition int_dec :: "int \<Rightarrow> string" where
  "int_dec i = (if i < 0 then CHR ''-'' # nat_dec (nat (- i)) else nat_dec (nat i))"

definition dec_nat :: "string \<Rightarrow> nat" where
  "dec_nat s = foldl (\<lambda>a c. 10 * a + (of_char c - 48)) 0 s"

lemma of_char_digit [simp]: "d < 10 \<Longrightarrow> of_char (digit_char d) = 48 + d"
  by (simp add: digit_char_def)

lemma dec_nat_append: "dec_nat (s @ [digit_char d]) = 10 * dec_nat s + d" if "d < 10"
  using that by (simp add: dec_nat_def)

lemma dec_nat_nat_dec [simp]: "dec_nat (nat_dec n) = n"
proof (induction n rule: nat_dec.induct)
  case (1 n)
  show ?case
  proof (cases "n < 10")
    case True
    then show ?thesis
      using dec_nat_append [of n "[]"] by (simp add: nat_dec.simps [of n]) (simp add: dec_nat_def)
  next
    case False
    with 1 show ?thesis
      by (simp add: nat_dec.simps [of n] dec_nat_append)
  qed
qed

lemma nat_dec_chars: "\<forall>c \<in> set (nat_dec n). 48 \<le> (of_char c :: nat) \<and> (of_char c :: nat) < 58"
proof (induction n rule: nat_dec.induct)
  case (1 n)
  have d: "(of_char (digit_char (n mod 10)) :: nat) = 48 + n mod 10"
    by simp
  show ?case
  proof (cases "n < 10")
    case True
    then show ?thesis
      by (simp add: nat_dec.simps [of n])
  next
    case False
    then show ?thesis
      using 1 d by (simp add: nat_dec.simps [of n])
  qed
qed

lemma nat_dec_notin: "(of_char c :: nat) < 48 \<Longrightarrow> c \<notin> set (nat_dec n)"
  using nat_dec_chars [of n] by force

lemma nat_dec_length: "n < 10 ^ Suc k \<Longrightarrow> length (nat_dec n) \<le> Suc k"
proof (induction k arbitrary: n)
  case 0
  then show ?case by (simp add: nat_dec.simps [of n])
next
  case (Suc k)
  then have "n div 10 < 10 ^ Suc k"
    by (simp add: less_mult_imp_div_less mult.commute)
  with Suc.IH [of "n div 10"] show ?case
    by (simp add: nat_dec.simps [of n])
qed

end
