(* ===== verification/NetBuffer.thy ===== *)
theory NetBuffer
  imports Prelude
begin

text \<open>
  The input and output buffer of a connection, \<open>Net/buffer.h\<close> and \<open>Net/buffer.cpp\<close>:
  a vector of characters with a read and a write index.  Pointers into the vector are indices.
  The theory holds the operations, the index invariant, the effect of every operation on the
  readable bytes, and the queue interface under which the connection and the response use it.
\<close>

section \<open>State\<close>

definition kPrePendIndex :: int where "kPrePendIndex = 8"
definition kInitialSize :: int where "kInitialSize = 1024"
definition kCRLF :: string where "kCRLF = [CHR 0x0D, CHR 0x0A]"

record Buffer =
  m_buffer :: "char list"
  m_read_index :: int
  m_write_index :: int

definition Buffer_new :: "int \<Rightarrow> Buffer result" where
  "Buffer_new init_buffer_size =
     (if init_buffer_size < 0 then Inl LengthError
      else Inr \<lparr>m_buffer = replicate (nat init_buffer_size) (CHR 0x00),
                m_read_index = 0, m_write_index = 0\<rparr>)"

text \<open>The constructor with its default argument.\<close>

definition Buffer_default :: Buffer where
  "Buffer_default = \<lparr>m_buffer = replicate 1024 (CHR 0x00), m_read_index = 0, m_write_index = 0\<rparr>"

section \<open>Operations\<close>

definition readableBytes :: "Buffer \<Rightarrow> int" where
  "readableBytes b = m_write_index b - m_read_index b"

definition writeableBytes :: "Buffer \<Rightarrow> int" where
  "writeableBytes b = int (length (m_buffer b)) - m_write_index b"

definition prependableBytes :: "Buffer \<Rightarrow> int" where
  "prependableBytes b = m_read_index b"

definition curReadPtr :: "Buffer \<Rightarrow> int" where "curReadPtr b = m_read_index b"
definition curWritePtr :: "Buffer \<Rightarrow> int" where "curWritePtr b = m_write_index b"
definition peek :: "Buffer \<Rightarrow> int" where "peek b = curReadPtr b"

definition moveReadIndex :: "Buffer \<Rightarrow> int \<Rightarrow> Buffer" where
  "moveReadIndex b len = b\<lparr>m_read_index := m_read_index b + len\<rparr>"

definition moveWriteIndex :: "Buffer \<Rightarrow> int \<Rightarrow> Buffer" where
  "moveWriteIndex b len = b\<lparr>m_write_index := m_write_index b + len\<rparr>"

text \<open>
  The middle branch moves the indices to the front of the vector; the line that would move the
  bytes is commented out in the source.
\<close>

definition ensureWriteableBytes :: "Buffer \<Rightarrow> int \<Rightarrow> Buffer" where
  "ensureWriteableBytes b len =
     (if writeableBytes b \<ge> len then b
      else if writeableBytes b + prependableBytes b \<ge> len + kPrePendIndex then
        b\<lparr>m_write_index := kPrePendIndex + readableBytes b, m_read_index := kPrePendIndex\<rparr>
      else b\<lparr>m_buffer := resized (m_buffer b) (m_write_index b + len)\<rparr>)"

definition buf_append :: "Buffer \<Rightarrow> char list \<Rightarrow> Buffer result" where
  "buf_append b data =
     (let len = int (length data);
          b1 = ensureWriteableBytes b len;
          wp = curWritePtr b1
      in if 0 \<le> wp \<and> wp + len \<le> int (length (m_buffer b1))
         then Inr (moveWriteIndex (b1\<lparr>m_buffer := overwrite (m_buffer b1) wp data\<rparr>) len)
         else Inl OutOfBounds)"

text \<open>The overload on a C string appends up to the first NUL, as \<open>strlen\<close> measures it.\<close>

definition append_cstr :: "Buffer \<Rightarrow> char list \<Rightarrow> Buffer result" where
  "append_cstr b msg = buf_append b (takeWhile (\<lambda>c. c \<noteq> CHR 0x00) msg)"

definition append_string :: "Buffer \<Rightarrow> string \<Rightarrow> Buffer result" where
  "append_string b msg = buf_append b msg"

definition retrieveAll :: "Buffer \<Rightarrow> Buffer" where
  "retrieveAll b = b\<lparr>m_read_index := kPrePendIndex, m_write_index := kPrePendIndex\<rparr>"

definition retrieve :: "Buffer \<Rightarrow> int \<Rightarrow> Buffer result" where
  "retrieve b len =
     assert_then (len \<le> readableBytes b)
       (if len < readableBytes b
        then Inr (b\<lparr>m_read_index := m_read_index b + len\<rparr>)
        else Inr (retrieveAll b))"

definition retrieveUntilIndex :: "Buffer \<Rightarrow> int \<Rightarrow> Buffer result" where
  "retrieveUntilIndex b index =
     assert_then (curReadPtr b \<le> index)
       (assert_then (index \<le> curWritePtr b)
          (retrieve b (index - curReadPtr b)))"

text \<open>\<open>std::search\<close> for the two characters of \<open>kCRLF\<close>.\<close>

fun search_crlf :: "char list \<Rightarrow> nat option" where
  "search_crlf (a # b # xs) =
     (if [a, b] = kCRLF then Some 0 else map_option Suc (search_crlf (b # xs)))"
| "search_crlf _ = None"

definition findCRLF :: "Buffer \<Rightarrow> int option" where
  "findCRLF b =
     (case search_crlf (slice (m_buffer b) (curReadPtr b) (curWritePtr b)) of
        None \<Rightarrow> None
      | Some i \<Rightarrow> Some (curReadPtr b + int i))"

definition retrieveAllAsString :: "Buffer \<Rightarrow> string \<times> Buffer" where
  "retrieveAllAsString b =
     (slice (m_buffer b) (curReadPtr b) (curReadPtr b + readableBytes b), retrieveAll b)"

text \<open>
  \<open>readFd\<close>: the argument \<open>rv\<close> is what \<open>readv\<close> did, an error or the bytes it
  delivered, in order, into the writable part of the vector and then into the 64 KiB stack
  buffer.  \<open>saved_err\<close> is a parameter by value in the source, so the caller never
  sees the errno: the function returns the count and the buffer only.
\<close>

definition extrabuf_size :: int where "extrabuf_size = 64 * 1024"

definition readv_iovcnt :: "Buffer \<Rightarrow> nat" where
  "readv_iovcnt b =
     (if 0 \<le> writeableBytes b \<and> writeableBytes b < extrabuf_size then 2 else 1)"

definition readFd :: "Buffer \<Rightarrow> int \<Rightarrow> errno + char list \<Rightarrow> (int \<times> Buffer) result" where
  "readFd b saved_err rv =
     (let writeable = writeableBytes b in
      case rv of
        Inl e \<Rightarrow> Inr (-1, b)
      | Inr data \<Rightarrow>
          (let n = int (length data);
               b1 = b\<lparr>m_buffer := overwrite (m_buffer b) (curWritePtr b)
                                     (take (nat writeable) data)\<rparr>
           in if n \<le> writeable then Inr (n, b1\<lparr>m_write_index := m_write_index b1 + n\<rparr>)
              else res_bind (buf_append (b1\<lparr>m_write_index := int (length (m_buffer b1))\<rparr>)
                               (drop (nat writeable) data))
                     (\<lambda>b2. Inr (n, b2))))"

text \<open>What \<open>readv\<close> can deliver: at most the space the vector it was given describes.\<close>

definition readv_fits :: "Buffer \<Rightarrow> char list \<Rightarrow> bool" where
  "readv_fits b data \<longleftrightarrow>
     int (length data) \<le> writeableBytes b + (if readv_iovcnt b = 2 then extrabuf_size else 0)"

section \<open>Abstraction and invariant\<close>

definition readable :: "Buffer \<Rightarrow> char list" where
  "readable b = slice (m_buffer b) (m_read_index b) (m_write_index b)"

definition buf_inv :: "Buffer \<Rightarrow> bool" where
  "buf_inv b \<longleftrightarrow> 0 \<le> m_read_index b \<and> m_read_index b \<le> m_write_index b \<and>
     m_write_index b \<le> int (length (m_buffer b)) \<and> kPrePendIndex \<le> int (length (m_buffer b))"

text \<open>Whether an append of \<open>n\<close> bytes takes the branch that moves the indices.\<close>

definition compacts :: "Buffer \<Rightarrow> int \<Rightarrow> bool" where
  "compacts b n \<longleftrightarrow> writeableBytes b < n \<and>
     n + kPrePendIndex \<le> writeableBytes b + prependableBytes b"

text \<open>The states the operations can put a buffer in, from the default constructor on.\<close>

inductive buf_reach :: "Buffer \<Rightarrow> bool" where
  reach_new: "buf_reach Buffer_default"
| reach_append: "buf_reach b \<Longrightarrow> buf_append b d = Inr b' \<Longrightarrow> buf_reach b'"
| reach_retrieve: "buf_reach b \<Longrightarrow> 0 \<le> n \<Longrightarrow> retrieve b n = Inr b' \<Longrightarrow> buf_reach b'"
| reach_until: "buf_reach b \<Longrightarrow> retrieveUntilIndex b p = Inr b' \<Longrightarrow> buf_reach b'"
| reach_all: "buf_reach b \<Longrightarrow> buf_reach (retrieveAll b)"
| reach_read: "buf_reach b \<Longrightarrow> readv_fits b d \<Longrightarrow> readFd b e (Inr d) = Inr (n, b') \<Longrightarrow> buf_reach b'"

lemmas buf_defs = readableBytes_def writeableBytes_def prependableBytes_def curReadPtr_def
  curWritePtr_def moveReadIndex_def moveWriteIndex_def kPrePendIndex_def


section \<open>The queue interface\<close>

text \<open>
  What a client relies on: bytes come out in the order they went in.  \<open>fits q n\<close> is the
  condition under which an append of \<open>n\<close> bytes keeps the bytes already queued.
\<close>

locale append_queue =
  fixes content :: "'q \<Rightarrow> char list"
    and put :: "'q \<Rightarrow> char list \<Rightarrow> 'q result"
    and ok :: "'q \<Rightarrow> bool"
    and fits :: "'q \<Rightarrow> nat \<Rightarrow> bool"
  assumes put_law: "ok q \<Longrightarrow> fits q (length d) \<Longrightarrow>
      \<exists>q'. put q d = Inr q' \<and> ok q' \<and> content q' = content q @ d"
begin

lemma put_content:
  assumes "ok q" "fits q (length d)" "put q d = Inr q'"
  shows "ok q'" "content q' = content q @ d"
  using put_law [OF assms(1,2)] assms(3) by auto

end

locale byte_queue = append_queue +
  fixes discard :: "'a \<Rightarrow> int \<Rightarrow> 'a result"
  assumes discard_law: "ok q \<Longrightarrow> 0 \<le> n \<Longrightarrow> n \<le> int (length (content q)) \<Longrightarrow>
      \<exists>q'. discard q n = Inr q' \<and> ok q' \<and> content q' = drop (nat n) (content q)"
begin

lemma discard_content:
  assumes "ok q" "0 \<le> n" "n \<le> int (length (content q))" "discard q n = Inr q'"
  shows "ok q'" "content q' = drop (nat n) (content q)"
  using discard_law [OF assms(1-3)] assms(4) by auto

text \<open>The bytes a partial drain hands out, followed by what stays queued, are the old content.\<close>

lemma discard_splits:
  assumes "ok q" "0 \<le> n" "n \<le> int (length (content q))" "discard q n = Inr q'"
  shows "take (nat n) (content q) @ content q' = content q"
  using discard_content [OF assms] by simp

end

text \<open>A queue on which every append fits: a response is composed in one.\<close>

locale growing_queue = append_queue +
  assumes always_fits: "ok q \<Longrightarrow> fits q n"
begin

lemma put_total: "ok q \<Longrightarrow> \<exists>q'. put q d = Inr q' \<and> ok q' \<and> content q' = content q @ d"
  by (rule put_law) (auto intro: always_fits)

lemma put_seq:
  assumes "ok q"
  shows "\<exists>q'. foldl (\<lambda>r d. res_bind r (\<lambda>x. put x d)) (Inr q) ds = Inr q' \<and> ok q' \<and>
           content q' = content q @ concat ds"
  using assms
proof (induction ds arbitrary: q)
  case (Cons d ds)
  then obtain q1 where q1: "put q d = Inr q1" "ok q1" "content q1 = content q @ d"
    using put_total by blast
  then show ?case
    using Cons.IH [OF q1(2)] by simp
qed simp

end

section \<open>Lemmas\<close>

lemma buf_inv_default: "buf_inv Buffer_default"
  by (simp add: buf_inv_def Buffer_default_def kPrePendIndex_def)

lemma Buffer_default_new: "Buffer_new kInitialSize = Inr Buffer_default"
  by (simp add: Buffer_new_def Buffer_default_def kInitialSize_def)

lemma readable_default [simp]: "readable Buffer_default = []"
  by (simp add: readable_def Buffer_default_def)

lemma length_readable: "buf_inv b \<Longrightarrow> int (length (readable b)) = readableBytes b"
  by (simp add: buf_inv_def readable_def buf_defs mem_simps)

lemma readable_Nil: "buf_inv b \<Longrightarrow> readable b = [] \<longleftrightarrow> readableBytes b = 0"
  using length_readable [of b] by auto

lemma buf_inv_retrieveAll: "buf_inv b \<Longrightarrow> buf_inv (retrieveAll b)"
  by (simp add: buf_inv_def retrieveAll_def buf_defs)

lemma readable_retrieveAll [simp]: "readable (retrieveAll b) = []"
  by (simp add: readable_def retrieveAll_def)

lemma drained_not_compacts: "m_read_index b \<le> kPrePendIndex \<Longrightarrow> \<not> compacts b n"
  by (simp add: compacts_def buf_defs)

text \<open>
  Where the indices do not move, the room grows to at least \<open>n\<close> bytes, nothing readable
  changes and the read index stays.
\<close>

lemma ensure_keeps:
  assumes "buf_inv b" "\<not> compacts b n" "0 \<le> n"
  defines "b' \<equiv> ensureWriteableBytes b n"
  shows "buf_inv b'" "readable b' = readable b" "n \<le> writeableBytes b'"
    "m_read_index b' = m_read_index b" "m_write_index b' = m_write_index b"
  using assms unfolding b'_def
  by (auto simp: ensureWriteableBytes_def compacts_def buf_inv_def readable_def buf_defs mem_simps)

lemma write_at_end:
  assumes "buf_inv b" "int (length d) \<le> writeableBytes b"
  defines "b' \<equiv> moveWriteIndex (b\<lparr>m_buffer := overwrite (m_buffer b) (curWritePtr b) d\<rparr>)
                   (int (length d))"
  shows "buf_inv b'" "readable b' = readable b @ d" "m_read_index b' = m_read_index b"
proof -
  have len: "length (overwrite (m_buffer b) (m_write_index b) d) = length (m_buffer b)"
    using assms(1,2) by (simp add: buf_inv_def buf_defs mem_simps)
  show "buf_inv b'"
    using assms(1,2) len by (simp add: b'_def buf_inv_def buf_defs)
  show "readable b' = readable b @ d"
    using assms(1,2)
    by (simp add: b'_def buf_inv_def readable_def buf_defs slice_overwrite_left slice_overwrite_at
        slice_append [of "m_read_index b" "m_write_index b" "m_write_index b + int (length d)"])
  show "m_read_index b' = m_read_index b"
    by (simp add: b'_def buf_defs)
qed

lemma buf_append_keeps:
  assumes "buf_inv b" "\<not> compacts b (int (length d))"
  shows "\<exists>b'. buf_append b d = Inr b' \<and> buf_inv b' \<and> readable b' = readable b @ d \<and>
           m_read_index b' = m_read_index b"
proof -
  let ?b1 = "ensureWriteableBytes b (int (length d))"
  note e = ensure_keeps [OF assms, simplified]
  have "0 \<le> curWritePtr ?b1 \<and> curWritePtr ?b1 + int (length d) \<le> int (length (m_buffer ?b1))"
    using e(1,3) by (auto simp: buf_inv_def buf_defs)
  then show ?thesis
    using write_at_end [OF e(1,3)] e(2,4) by (simp add: buf_append_def Let_def)
qed

text \<open>The branch that moves the indices keeps the invariant and the number of bytes.\<close>

lemma ensure_compacts:
  assumes "buf_inv b" "compacts b n" "0 \<le> n"
  defines "b' \<equiv> ensureWriteableBytes b n"
  shows "buf_inv b'" "n \<le> writeableBytes b'" "m_buffer b' = m_buffer b"
    "m_read_index b' = kPrePendIndex" "m_write_index b' = kPrePendIndex + readableBytes b"
  using assms unfolding b'_def
  by (auto simp: ensureWriteableBytes_def compacts_def buf_inv_def buf_defs)

lemma buf_append_compacts:
  assumes "buf_inv b" "compacts b (int (length d))"
  shows "\<exists>b'. buf_append b d = Inr b' \<and> buf_inv b' \<and> m_read_index b' = kPrePendIndex \<and>
     readable b' = slice (m_buffer b) kPrePendIndex (kPrePendIndex + readableBytes b) @ d"
proof -
  let ?b1 = "ensureWriteableBytes b (int (length d))"
  note e = ensure_compacts [OF assms, simplified]
  have "0 \<le> curWritePtr ?b1 \<and> curWritePtr ?b1 + int (length d) \<le> int (length (m_buffer ?b1))"
    using e(1,2) by (auto simp: buf_inv_def buf_defs)
  moreover have "readable ?b1 = slice (m_buffer b) kPrePendIndex (kPrePendIndex + readableBytes b)"
    using e(3-5) by (simp add: readable_def)
  ultimately show ?thesis
    using write_at_end [OF e(1,2)] e(4) by (simp add: buf_append_def Let_def)
qed

lemma buf_append_total:
  assumes "buf_inv b"
  shows "\<exists>b'. buf_append b d = Inr b' \<and> buf_inv b'"
  using buf_append_keeps [OF assms] buf_append_compacts [OF assms] by blast

lemma retrieve_keeps:
  assumes "buf_inv b" "0 \<le> n" "n \<le> readableBytes b"
  shows "\<exists>b'. retrieve b n = Inr b' \<and> buf_inv b' \<and> readable b' = drop (nat n) (readable b) \<and>
           m_buffer b' = m_buffer b"
proof (cases "n < readableBytes b")
  case True
  then show ?thesis
    using assms
    by (simp add: retrieve_def readable_def buf_inv_def readableBytes_def slice_drop)
next
  case False
  then have "drop (nat n) (readable b) = []"
    using assms length_readable [OF assms(1)] by simp
  with False show ?thesis
    using assms buf_inv_retrieveAll [OF assms(1)]
    by (simp add: retrieve_def) (simp add: retrieveAll_def)
qed

interpretation bq: byte_queue readable buf_append buf_inv "\<lambda>b n. \<not> compacts b (int n)" retrieve
proof
  show "\<exists>q'. buf_append q d = Inr q' \<and> buf_inv q' \<and> readable q' = readable q @ d"
    if "buf_inv q" "\<not> compacts q (int (length d))" for q d
    using buf_append_keeps [OF that] by blast
  show "\<exists>q'. retrieve q n = Inr q' \<and> buf_inv q' \<and> readable q' = drop (nat n) (readable q)"
    if "buf_inv q" "0 \<le> n" "n \<le> int (length (readable q))" for q n
    using retrieve_keeps [of q n] that by (auto simp: length_readable)
qed

text \<open>A buffer whose read index has not passed the reserved prefix: a fresh or drained one.\<close>

definition front_inv :: "Buffer \<Rightarrow> bool" where
  "front_inv b \<longleftrightarrow> buf_inv b \<and> m_read_index b \<le> kPrePendIndex"

lemma front_inv_default: "front_inv Buffer_default"
  by (simp add: front_inv_def buf_inv_default) (simp add: Buffer_default_def kPrePendIndex_def)

lemma front_inv_retrieveAll: "buf_inv b \<Longrightarrow> front_inv (retrieveAll b)"
  by (simp add: front_inv_def buf_inv_retrieveAll) (simp add: retrieveAll_def)

lemma buf_append_front:
  assumes "front_inv b"
  shows "\<exists>b'. buf_append b d = Inr b' \<and> front_inv b' \<and> readable b' = readable b @ d"
  using assms buf_append_keeps [of b d] drained_not_compacts [of b]
  by (fastforce simp: front_inv_def)

interpretation fq: growing_queue readable buf_append front_inv "\<lambda>_ _. True"
  by unfold_locales (use buf_append_front in auto)

text \<open>Searching for a line end.\<close>

lemma search_crlf_None_iff: "search_crlf xs = None \<longleftrightarrow> (\<nexists>u v. xs = u @ kCRLF @ v)"
proof (induction xs rule: search_crlf.induct)
  case (1 a b xs)
  have "(\<exists>u v. a # b # xs = u @ kCRLF @ v) \<longleftrightarrow>
      [a, b] = kCRLF \<or> (\<exists>u v. b # xs = u @ kCRLF @ v)"
    by (auto simp: kCRLF_def Cons_eq_append_conv)
  then show ?case
    using 1 by auto
qed (auto simp: kCRLF_def Cons_eq_append_conv)

lemma search_crlf_SomeD:
  "search_crlf xs = Some i \<Longrightarrow> xs = take i xs @ kCRLF @ drop (i + 2) xs \<and> search_crlf (take i xs) = None"
proof (induction xs arbitrary: i rule: search_crlf.induct)
  case (1 a b xs)
  show ?case
  proof (cases "[a, b] = kCRLF")
    case True
    with 1 show ?thesis by (auto simp: kCRLF_def)
  next
    case False
    with 1 obtain j where j: "search_crlf (b # xs) = Some j" "i = Suc j"
      by auto
    have IH: "b # xs = take j (b # xs) @ kCRLF @ drop (j + 2) (b # xs)"
      "search_crlf (take j (b # xs)) = None"
      using "1.IH" [OF False j(1)] by auto
    have "a # b # xs = a # (take j (b # xs) @ kCRLF @ drop (j + 2) (b # xs))"
      using IH(1) by simp
    moreover have "search_crlf (a # take j (b # xs)) = None"
      using False IH(2) by (cases j) auto
    ultimately show ?thesis
      using j(2) by simp
  qed
qed auto

lemma search_crlf_length: "search_crlf xs = Some i \<Longrightarrow> i + 2 \<le> length xs"
  by (induction xs arbitrary: i rule: search_crlf.induct) (auto split: if_splits)

lemma search_crlf_line: "search_crlf l = None \<Longrightarrow> search_crlf (l @ kCRLF @ r) = Some (length l)"
  by (induction l rule: search_crlf.induct) (auto simp: kCRLF_def split: if_splits)

lemma findCRLF_None: "findCRLF b = None \<longleftrightarrow> search_crlf (readable b) = None"
  by (simp add: findCRLF_def readable_def curReadPtr_def curWritePtr_def split: option.splits)

lemma findCRLF_SomeD:
  assumes "buf_inv b" "findCRLF b = Some p"
  obtains i where "search_crlf (readable b) = Some i" "p = m_read_index b + int i"
    "p + 2 \<le> m_write_index b" "slice (m_buffer b) (m_read_index b) p = take i (readable b)"
proof -
  obtain i where i: "search_crlf (readable b) = Some i" "p = m_read_index b + int i"
    using assms(2) by (auto simp: findCRLF_def readable_def buf_defs split: option.splits)
  have len: "int i + 2 \<le> readableBytes b"
    using search_crlf_length [OF i(1)] length_readable [OF assms(1)] by linarith
  moreover have "min i (nat (m_write_index b - m_read_index b)) = i"
    using len by (simp add: readableBytes_def)
  then have "slice (m_buffer b) (m_read_index b) p = take i (readable b)"
    using i(2) by (simp add: readable_def slice_def)
  ultimately show thesis
    using that i by (simp add: readableBytes_def)
qed

lemma retrieveUntilIndex_keeps:
  assumes "buf_inv b" "m_read_index b \<le> p" "p \<le> m_write_index b"
  shows "\<exists>b'. retrieveUntilIndex b p = Inr b' \<and> buf_inv b' \<and> m_buffer b' = m_buffer b \<and>
           readable b' = drop (nat (p - m_read_index b)) (readable b)"
  using retrieve_keeps [of b "p - m_read_index b"] assms
  by (auto simp: retrieveUntilIndex_def buf_defs)

text \<open>One read call.\<close>

lemma readFd_within:
  assumes "buf_inv b" "int (length d) \<le> writeableBytes b"
  shows "\<exists>b'. readFd b e (Inr d) = Inr (int (length d), b') \<and> buf_inv b' \<and>
           readable b' = readable b @ d \<and> m_read_index b' = m_read_index b"
  using write_at_end [OF assms] assms
  by (simp add: readFd_def Let_def moveWriteIndex_def)

lemma readFd_beyond:
  assumes "buf_inv b" "writeableBytes b < int (length d)"
    and "m_read_index b < int (length d) - writeableBytes b + kPrePendIndex"
  shows "\<exists>b'. readFd b e (Inr d) = Inr (int (length d), b') \<and> buf_inv b' \<and>
           readable b' = readable b @ d \<and> m_read_index b' = m_read_index b"
proof -
  let ?n = "nat (writeableBytes b)"
  let ?b1 = "b\<lparr>m_buffer := overwrite (m_buffer b) (curWritePtr b) (take ?n d)\<rparr>"
  let ?b2 = "?b1\<lparr>m_write_index := int (length (m_buffer ?b1))\<rparr>"
  have w: "0 \<le> writeableBytes b"
    using assms(1) by (simp add: buf_inv_def buf_defs)
  then have len: "int (length (take ?n d)) = writeableBytes b"
    using assms(2) by simp
  have b2: "?b2 = moveWriteIndex ?b1 (int (length (take ?n d)))"
    using assms(1) len by (simp add: moveWriteIndex_def buf_inv_def buf_defs mem_simps)
  have at_end: "buf_inv ?b2" "readable ?b2 = readable b @ take ?n d"
    "m_read_index ?b2 = m_read_index b"
    using write_at_end [OF assms(1), of "take ?n d"] len unfolding b2 by auto
  have "\<not> compacts ?b2 (int (length (drop ?n d)))"
    using assms(2,3) w by (simp add: compacts_def buf_defs)
  then obtain b' where "buf_append ?b2 (drop ?n d) = Inr b'" "buf_inv b'"
    "readable b' = readable ?b2 @ drop ?n d" "m_read_index b' = m_read_index ?b2"
    using buf_append_keeps [OF at_end(1)] by blast
  then show ?thesis
    using at_end assms(2) by (simp add: readFd_def Let_def)
qed

text \<open>
  Whichever branch an append takes, it adds its length to the byte count and the read index
  stays or goes to the reserved prefix.
\<close>

lemma append_effect:
  assumes "buf_inv b" "buf_append b d = Inr b'"
  shows "buf_inv b'" "readableBytes b' = readableBytes b + int (length d)"
    "m_read_index b' = m_read_index b \<or> m_read_index b' = kPrePendIndex"
proof -
  show inv: "buf_inv b'"
    using buf_append_total [OF assms(1), of d] assms(2) by auto
  have "int (length (readable b')) = readableBytes b + int (length d)"
  proof (cases "compacts b (int (length d))")
    case True
    then have "kPrePendIndex + readableBytes b \<le> int (length (m_buffer b))"
      by (auto simp: compacts_def buf_defs)
    moreover have "0 \<le> readableBytes b"
      using assms(1) by (simp add: buf_inv_def buf_defs)
    ultimately show ?thesis
      using buf_append_compacts [OF assms(1) True] assms(2)
      by (auto simp: length_slice kPrePendIndex_def)
  next
    case False
    then show ?thesis
      using buf_append_keeps [OF assms(1) False] assms by (auto simp: length_readable)
  qed
  then show "readableBytes b' = readableBytes b + int (length d)"
    using length_readable [OF inv] by simp
  show "m_read_index b' = m_read_index b \<or> m_read_index b' = kPrePendIndex"
    using assms buf_append_keeps [of b d] buf_append_compacts [of b d] by force
qed

lemma readFd_effect:
  assumes "buf_inv b" "readFd b e (Inr d) = Inr (n, b')"
  shows "n = int (length d)" "buf_inv b'" "readableBytes b' = readableBytes b + int (length d)"
    "m_read_index b' = m_read_index b \<or> m_read_index b' = kPrePendIndex"
proof -
  let ?d = "take (nat (writeableBytes b)) d"
  let ?b1 = "b\<lparr>m_buffer := overwrite (m_buffer b) (curWritePtr b) ?d\<rparr>"
  have "n = int (length d) \<and> buf_inv b' \<and> readableBytes b' = readableBytes b + int (length d) \<and>
    (m_read_index b' = m_read_index b \<or> m_read_index b' = kPrePendIndex)"
  proof (cases "int (length d) \<le> writeableBytes b")
    case True
    then show ?thesis
      using readFd_within [OF assms(1) True, of e] assms length_readable [of b]
        length_readable [of b'] by auto
  next
    case False
    let ?b2 = "?b1\<lparr>m_write_index := int (length (m_buffer ?b1))\<rparr>"
    have len: "int (length ?d) = writeableBytes b"
      using assms(1) False by (simp add: buf_inv_def buf_defs)
    have b2: "buf_inv ?b2" "readableBytes ?b2 = readableBytes b + writeableBytes b"
      using assms(1) len by (simp_all add: buf_inv_def buf_defs mem_simps)
    have app: "buf_append ?b2 (drop (nat (writeableBytes b)) d) = Inr b'" "n = int (length d)"
      using assms(2) False by (auto simp: readFd_def Let_def res_bind_eq_Inr)
    have "0 \<le> writeableBytes b"
      using assms(1) by (simp add: buf_inv_def buf_defs)
    then show ?thesis
      using append_effect [OF b2(1) app(1)] b2(2) False app(2) by simp
  qed
  then show "n = int (length d)" "buf_inv b'"
    "readableBytes b' = readableBytes b + int (length d)"
    "m_read_index b' = m_read_index b \<or> m_read_index b' = kPrePendIndex"
    by auto
qed

text \<open>In a reachable state the indices are ordered, and an empty buffer has been drained.\<close>

definition reach_inv :: "Buffer \<Rightarrow> bool" where
  "reach_inv b \<longleftrightarrow> buf_inv b \<and> (readableBytes b = 0 \<longrightarrow> m_read_index b \<le> kPrePendIndex)"

lemma reach_inv_grow:
  assumes "reach_inv b" "buf_inv b'" "readableBytes b' = readableBytes b + int k"
    "m_read_index b' = m_read_index b \<or> m_read_index b' = kPrePendIndex"
  shows "reach_inv b'"
  using assms by (auto simp: reach_inv_def buf_inv_def readableBytes_def)

lemma reach_inv_retrieve:
  assumes "reach_inv b" "0 \<le> n" "retrieve b n = Inr b'"
  shows "reach_inv b'"
  using assms
  by (auto simp: reach_inv_def buf_inv_def retrieve_def retrieveAll_def buf_defs assert_then_def
      split: if_splits)

lemma buf_reach_inv: "buf_reach b \<Longrightarrow> reach_inv b"
proof (induction rule: buf_reach.induct)
  case reach_new
  then show ?case
    using front_inv_default by (simp add: reach_inv_def front_inv_def)
next
  case (reach_append b d b')
  then show ?case
    using append_effect [of b d b'] reach_inv_grow [of b b'] by (simp add: reach_inv_def)
next
  case (reach_retrieve b n b')
  then show ?case
    by (blast intro: reach_inv_retrieve)
next
  case (reach_until b p b')
  then show ?case
    using reach_inv_retrieve [of b "p - curReadPtr b" b']
    by (auto simp: retrieveUntilIndex_def assert_then_eq_Inr)
next
  case (reach_all b)
  then show ?case
    using front_inv_retrieveAll [of b] by (simp add: reach_inv_def front_inv_def)
next
  case (reach_read b d e n b')
  then show ?case
    using readFd_effect [of b e d n b'] reach_inv_grow [of b b'] by (simp add: reach_inv_def)
qed

section \<open>Properties\<close>



text \<open>C37: in every state the operations can reach, the index-moving branch of an append only
  runs while bytes are unread, and since the source moves the indices without moving the bytes,
  the queue then holds the stale bytes at the front of the vector in place of the unread ones:
  they survive exactly when the two happen to be equal.\<close>

theorem append_compaction_effect:
  assumes "buf_reach b" and "compacts b (int (length d))"
  shows "readable b \<noteq> [] \<and>
    (\<exists>b'. buf_append b d = Inr b' \<and> buf_inv b' \<and>
       readable b' = slice (m_buffer b) kPrePendIndex (kPrePendIndex + readableBytes b) @ d \<and>
       (readable b' = readable b @ d \<longleftrightarrow>
          slice (m_buffer b) kPrePendIndex (kPrePendIndex + readableBytes b) = readable b))"
proof -
  have inv: "buf_inv b" and front: "readableBytes b = 0 \<Longrightarrow> m_read_index b \<le> kPrePendIndex"
    using buf_reach_inv [OF assms(1)] by (auto simp: reach_inv_def)
  have "readable b \<noteq> []"
    using front drained_not_compacts assms(2) readable_Nil [OF inv] by blast
  then show ?thesis
    using buf_append_compacts [OF inv assms(2)] by auto
qed

text \<open>A connection that queued 1016 bytes, sent 1012 of them and queues four more: the client
  receives the first four bytes again instead of the four still unsent.\<close>

definition lossy_buffer :: Buffer where
  "lossy_buffer = \<lparr>m_buffer = replicate 8 (CHR 0x00) @ ''AAAA'' @ replicate 1008 CHR ''B'' @ ''CCCC'',
     m_read_index = 1020, m_write_index = 1024\<rparr>"

lemma lossy_buffer_reach: "buf_reach lossy_buffer"
proof -
  let ?d = "''AAAA'' @ replicate 1008 CHR ''B'' @ ''CCCC''"
  let ?b = "retrieveAll Buffer_default"
  have app: "buf_append ?b ?d = Inr \<lparr>m_buffer = replicate 8 (CHR 0x00) @ ?d,
      m_read_index = 8, m_write_index = 1024\<rparr>" (is "_ = Inr ?c")
    by (simp add: buf_append_def Let_def ensureWriteableBytes_def buf_defs retrieveAll_def
        Buffer_default_def overwrite_def)
  have ret: "retrieve ?c 1012 = Inr lossy_buffer"
    by (simp add: retrieve_def lossy_buffer_def readableBytes_def)
  show ?thesis
    by (rule reach_retrieve [OF reach_append [OF reach_all [OF reach_new] app] _ ret]) simp
qed

theorem append_compaction_effect_witness:
  "buf_reach lossy_buffer \<and> compacts lossy_buffer (int (length ''DDDD'')) \<and>
   readable lossy_buffer = ''CCCC'' \<and>
   (\<exists>b'. buf_append lossy_buffer ''DDDD'' = Inr b' \<and> readable b' = ''AAAADDDD'')"
proof -
  have c: "compacts lossy_buffer (int (length ''DDDD''))"
    by (simp add: compacts_def lossy_buffer_def buf_defs)
  have r: "readable lossy_buffer = ''CCCC''"
    by (simp add: readable_def lossy_buffer_def slice_def)
  have "slice (m_buffer lossy_buffer) kPrePendIndex
      (kPrePendIndex + readableBytes lossy_buffer) = ''AAAA''"
    by (simp add: lossy_buffer_def slice_def kPrePendIndex_def readableBytes_def)
  then show ?thesis
    using append_compaction_effect [OF lossy_buffer_reach c] lossy_buffer_reach c r by auto
qed

text \<open>A read call queues exactly the bytes the kernel delivered, in order, across the vector
  and the stack buffer, whenever the overflow does not fit in front of the read index; in
  particular on every drained buffer.\<close>

theorem readFd_delivers:
  assumes "buf_inv b"
    and "int (length d) \<le> writeableBytes b \<or>
         m_read_index b < int (length d) - writeableBytes b + kPrePendIndex"
  shows "\<exists>b'. readFd b e (Inr d) = Inr (int (length d), b') \<and> buf_inv b' \<and>
           readable b' = readable b @ d \<and> m_read_index b' = m_read_index b"
  using assms readFd_within [of b d e] readFd_beyond [of b d e]
  by (cases "int (length d) \<le> writeableBytes b") auto

theorem readFd_delivers_witness:
  "\<exists>b'. readFd Buffer_default 0 (Inr (replicate 3000 CHR ''x'')) = Inr (3000, b') \<and>
     readable b' = replicate 3000 CHR ''x''"
  using readFd_delivers [OF buf_inv_default, of "replicate 3000 CHR ''x''" 0]
  by (auto simp: buf_defs Buffer_default_def readable_def)

text \<open>Draining \<open>n\<close> bytes fails its assertion exactly when more bytes are asked for than
  are readable; otherwise it removes exactly the first \<open>n\<close> readable bytes, and the
  search for a line end returns the first CRLF among the readable bytes, inside them.\<close>

theorem retrieve_and_search:
  assumes "buf_inv b" and "0 \<le> n"
  shows "(retrieve b n = Inl AssertFailure \<longleftrightarrow> n > int (length (readable b))) \<and>
    (n \<le> int (length (readable b)) \<longrightarrow>
      (\<exists>b'. retrieve b n = Inr b' \<and> buf_inv b' \<and> readable b' = drop (nat n) (readable b))) \<and>
    (findCRLF b = None \<longleftrightarrow> (\<nexists>u v. readable b = u @ kCRLF @ v)) \<and>
    (\<forall>p. findCRLF b = Some p \<longrightarrow>
      (\<exists>u v. readable b = u @ kCRLF @ v \<and> (\<nexists>x y. u = x @ kCRLF @ y) \<and>
         p = m_read_index b + int (length u)))"
proof (intro conjI allI impI)
  show "retrieve b n = Inl AssertFailure \<longleftrightarrow> n > int (length (readable b))"
    using length_readable [OF assms(1)] by (auto simp: retrieve_def assert_then_def)
  show "\<exists>b'. retrieve b n = Inr b' \<and> buf_inv b' \<and> readable b' = drop (nat n) (readable b)"
    if "n \<le> int (length (readable b))"
    using bq.discard_law [OF assms that] .
  show "findCRLF b = None \<longleftrightarrow> (\<nexists>u v. readable b = u @ kCRLF @ v)"
    by (simp only: findCRLF_None search_crlf_None_iff)
  show "\<exists>u v. readable b = u @ kCRLF @ v \<and> (\<nexists>x y. u = x @ kCRLF @ y) \<and>
         p = m_read_index b + int (length u)" if p: "findCRLF b = Some p" for p
  proof -
    obtain i where i: "search_crlf (readable b) = Some i" "p = m_read_index b + int i"
      using findCRLF_SomeD [OF assms(1) p] .
    have "length (take i (readable b)) = i"
      using search_crlf_length [OF i(1)] by simp
    then show ?thesis
      using search_crlf_SomeD [OF i(1)] i(2) by (metis search_crlf_None_iff)
  qed
qed

theorem retrieve_and_search_witness:
  "retrieve Buffer_default 1 = Inl AssertFailure \<and> findCRLF Buffer_default = None"
  using retrieve_and_search [OF buf_inv_default, of 1] by (auto simp: kCRLF_def)

end
