(* ===== verification/HttpRequests.thy ===== *)
theory HttpRequests
  imports Prelude
begin

text \<open>
  The request value and its line parsers, \<open>Http/httprequest.h\<close> and
  \<open>Http/httprequest.cpp\<close>.  A pair of pointers \<open>start, end\<close> is the string between
  them.  The parsers update the request as they go, also when they fail later, so each returns
  its verdict together with the request it leaves behind.
\<close>

section \<open>The request\<close>

datatype Method = kGet | kPost | kHead | kPut | kDelete | kTrace | kOptions | kConnect | kPatch
  | kInvalidMethod

datatype Version = kHttp10 | kHttp11 | kInvalidVersion

record HttpRequest =
  m_method :: Method
  m_version :: Version
  m_path :: string
  m_query :: string
  m_headers :: "string \<rightharpoonup> string"
  m_post :: "string \<rightharpoonup> string"

definition HttpRequest_new :: HttpRequest where
  "HttpRequest_new = \<lparr>m_method = kInvalidMethod, m_version = kInvalidVersion, m_path = '''',
     m_query = '''', m_headers = Map.empty, m_post = Map.empty\<rparr>"

text \<open>
  \<open>header\<close> returns a reference: to the stored value, or to a local variable that is gone
  when the caller reads it.  \<open>None\<close> is that dangling reference.
\<close>

definition header :: "HttpRequest \<Rightarrow> string \<Rightarrow> string option" where
  "header r field = m_headers r field"

text \<open>\<open>swap\<close> exchanges every field but \<open>m_post\<close>.\<close>

definition request_swap :: "HttpRequest \<Rightarrow> HttpRequest \<Rightarrow> HttpRequest \<times> HttpRequest" where
  "request_swap a b =
     (a\<lparr>m_method := m_method b, m_version := m_version b, m_path := m_path b,
        m_query := m_query b, m_headers := m_headers b\<rparr>,
      b\<lparr>m_method := m_method a, m_version := m_version a, m_path := m_path a,
        m_query := m_query a, m_headers := m_headers a\<rparr>)"

section \<open>The request line\<close>

definition stringToMethod :: "string \<Rightarrow> Method" where
  "stringToMethod s =
     (if s = ''GET'' then kGet
      else if s = ''POST'' then kPost
      else if s = ''HEAD'' then kHead
      else if s = ''PUT'' then kPut
      else if s = ''DELETE'' then kDelete
      else if s = ''TRACE'' then kTrace
      else if s = ''OPTIONS'' then kOptions
      else if s = ''CONNECT'' then kConnect
      else if s = ''PATCH'' then kPatch
      else kInvalidMethod)"

definition setMethod :: "HttpRequest \<Rightarrow> string \<Rightarrow> bool \<times> HttpRequest" where
  "setMethod r s =
     (let r' = r\<lparr>m_method := stringToMethod s\<rparr> in (m_method r' \<noteq> kInvalidMethod, r'))"

definition setVersion :: "HttpRequest \<Rightarrow> Version \<Rightarrow> HttpRequest" where
  "setVersion r v = r\<lparr>m_version := v\<rparr>"

definition setPath :: "HttpRequest \<Rightarrow> string \<Rightarrow> HttpRequest" where
  "setPath r s = r\<lparr>m_path := s\<rparr>"

definition setQuery :: "HttpRequest \<Rightarrow> string \<Rightarrow> HttpRequest" where
  "setQuery r s = r\<lparr>m_query := s\<rparr>"

definition to_lower :: "char \<Rightarrow> char" where
  "to_lower c = (let n = of_char c :: nat in if 65 \<le> n \<and> n \<le> 90 then char_of (n + 32) else c)"

text \<open>\<open>strncasecmp (s, t, 8) == 0\<close> for a \<open>t\<close> of eight characters.\<close>

definition eq_nocase8 :: "string \<Rightarrow> string \<Rightarrow> bool" where
  "eq_nocase8 s t \<longleftrightarrow> map to_lower (take 8 s) = map to_lower (take 8 t)"

definition parseRequestLine :: "HttpRequest \<Rightarrow> string \<Rightarrow> bool \<times> HttpRequest" where
  "parseRequestLine r line =
     (let space = find_char CHR '' '' line in
      if space = length line then (False, r) else
      let r1 = snd (setMethod r (take space line)) in
      if m_method r1 = kInvalidMethod then (False, r1) else
      let rest = drop (space + 1) line;
          space2 = find_char CHR '' '' rest in
      if space2 = length rest then (False, r1) else
      let target = take space2 rest;
          r2 = setPath r1 target;
          query_start = find_char CHR ''?'' target;
          r3 = (if query_start \<noteq> length target
                then setQuery (setPath r2 (take query_start target)) (drop (query_start + 1) target)
                else setPath r2 target);
          version = drop (space2 + 1) rest in
      if length version \<noteq> 8 then (False, r3)
      else if eq_nocase8 version ''HTTP/1.1'' then (True, setVersion r3 kHttp11)
      else if eq_nocase8 version ''HTTP/1.0'' then (True, setVersion r3 kHttp10)
      else (False, r3))"

section \<open>Headers\<close>

text \<open>\<open>isspace\<close> in the C locale.\<close>

definition is_space :: "char \<Rightarrow> bool" where
  "is_space c \<longleftrightarrow> c \<in> {CHR 0x20, CHR 0x09, CHR 0x0A, CHR 0x0B, CHR 0x0C, CHR 0x0D}"

definition trim_end :: "string \<Rightarrow> string" where
  "trim_end v = rev (dropWhile is_space (rev v))"

text \<open>\<open>colon\<close> is the position of the colon in the line.\<close>

definition addHeader :: "HttpRequest \<Rightarrow> string \<Rightarrow> nat \<Rightarrow> HttpRequest" where
  "addHeader r line colon =
     (let field = take colon line;
          value = trim_end (dropWhile is_space (drop (colon + 1) line))
      in r\<lparr>m_headers := (m_headers r)(field \<mapsto> value)\<rparr>)"

section \<open>The body of a POST\<close>

text \<open>
  \<open>regex_search\<close> with the pattern \<open>([^=&]*)=([^=&]*)\<close>: at each start position, from
  the left, the greedy run of other characters must be followed by an equals sign.  The result
  is the two groups and the suffix.
\<close>

definition plain :: "char \<Rightarrow> bool" where
  "plain c \<longleftrightarrow> c \<noteq> CHR ''='' \<and> c \<noteq> CHR 0x26"

fun regex_search :: "string \<Rightarrow> (string \<times> string \<times> string) option" where
  "regex_search body =
     (let k = takeWhile plain body; rest = dropWhile plain body in
      if rest \<noteq> [] \<and> hd rest = CHR ''=''
      then Some (k, takeWhile plain (tl rest), dropWhile plain (tl rest))
      else case body of [] \<Rightarrow> None | c # cs \<Rightarrow> regex_search cs)"

declare regex_search.simps [simp del]

lemma regex_search_shrinks:
  "regex_search body = Some (k, v, suffix) \<Longrightarrow> length suffix < length body"
proof (induction body rule: regex_search.induct)
  case (1 body)
  show ?case
  proof (cases "dropWhile plain body \<noteq> [] \<and> hd (dropWhile plain body) = CHR ''=''")
    case True
    then have "suffix = dropWhile plain (tl (dropWhile plain body))"
      using "1.prems" by (subst (asm) regex_search.simps) (simp add: Let_def)
    then have "length suffix \<le> length (tl (dropWhile plain body))"
      by (simp only: length_dropWhile_le)
    moreover have "length (tl (dropWhile plain body)) < length (dropWhile plain body)"
      using True by simp
    ultimately show ?thesis
      using length_dropWhile_le [of plain body] by linarith
  next
    case False
    with "1.prems" obtain c cs where "body = c # cs" "regex_search cs = Some (k, v, suffix)"
      by (subst (asm) regex_search.simps) (auto simp: Let_def split: list.splits)
    with "1.IH" False show ?thesis by fastforce
  qed
qed

function parsePost_loop :: "(string \<rightharpoonup> string) \<Rightarrow> string \<Rightarrow> (string \<rightharpoonup> string)" where
  "parsePost_loop post body =
     (case regex_search body of
        None \<Rightarrow> post
      | Some (k, v, suffix) \<Rightarrow> parsePost_loop (post(k \<mapsto> v)) suffix)"
  by pat_completeness auto
termination
  by (relation "measure (\<lambda>(post, body). length body)") (auto dest: regex_search_shrinks)

declare parsePost_loop.simps [simp del]

definition parsePost :: "HttpRequest \<Rightarrow> string \<Rightarrow> bool \<times> HttpRequest" where
  "parsePost r body = (True, r\<lparr>m_post := parsePost_loop (m_post r) body\<rparr>)"

definition parseRequestBody :: "HttpRequest \<Rightarrow> string \<Rightarrow> bool \<times> HttpRequest" where
  "parseRequestBody r body =
     (if m_method r = kPost then parsePost r body else (True, r))"

section \<open>Specifications\<close>

text \<open>What the eight characters after the second space mean.\<close>

definition version_of :: "string \<Rightarrow> Version" where
  "version_of v =
     (if length v \<noteq> 8 then kInvalidVersion
      else if map to_lower v = ''http/1.1'' then kHttp11
      else if map to_lower v = ''http/1.0'' then kHttp10
      else kInvalidVersion)"

text \<open>The path and the query of a request target.\<close>

definition path_of :: "string \<Rightarrow> string" where
  "path_of t = takeWhile (\<lambda>c. c \<noteq> CHR ''?'') t"

definition query_of :: "string \<Rightarrow> string option" where
  "query_of t = (if CHR ''?'' \<in> set t then Some (tl (dropWhile (\<lambda>c. c \<noteq> CHR ''?'') t)) else None)"

text \<open>A form body: the pairs joined by ampersands.\<close>

fun form_body :: "(string \<times> string) list \<Rightarrow> string" where
  "form_body [] = ''''"
| "form_body [(k, v)] = k @ CHR ''='' # v"
| "form_body ((k, v) # p # ps) = k @ CHR ''='' # v @ CHR 0x26 # form_body (p # ps)"

section \<open>Lemmas\<close>

lemma lower_http: "map to_lower ''HTTP/1.1'' = ''http/1.1''" "map to_lower ''HTTP/1.0'' = ''http/1.0''"
  by code_simp+

lemma snd_setMethod: "snd (setMethod r m) = r\<lparr>m_method := stringToMethod m\<rparr>"
  by (simp add: setMethod_def)

lemma nocase8_version:
  "length v = 8 \<Longrightarrow> eq_nocase8 v ''HTTP/1.1'' \<longleftrightarrow> map to_lower v = ''http/1.1''"
  "length v = 8 \<Longrightarrow> eq_nocase8 v ''HTTP/1.0'' \<longleftrightarrow> map to_lower v = ''http/1.0''"
  using lower_http by (simp_all add: eq_nocase8_def)

lemma take_find_char: "take (find_char c xs) xs = takeWhile (\<lambda>x. x \<noteq> c) xs"
  by (simp add: find_char_def takeWhile_eq_take [symmetric])

lemma drop_find_char: "drop (find_char c xs) xs = dropWhile (\<lambda>x. x \<noteq> c) xs"
  by (simp add: find_char_def dropWhile_eq_drop [symmetric])

lemma drop_Suc_find_char: "drop (Suc (find_char c xs)) xs = tl (dropWhile (\<lambda>x. x \<noteq> c) xs)"
  by (metis drop_Suc drop_find_char tl_drop)

lemma request_line_spaces:
  fixes m t v :: string
  assumes "CHR '' '' \<notin> set m" "CHR '' '' \<notin> set t"
  defines "line \<equiv> m @ CHR '' '' # t @ CHR '' '' # v"
  shows "find_char CHR '' '' line = length m" "length m \<noteq> length line"
    "take (length m) line = m" "drop (length m + 1) line = t @ CHR '' '' # v"
    "find_char CHR '' '' (t @ CHR '' '' # v) = length t" "length t \<noteq> length (t @ CHR '' '' # v)"
    "take (length t) (t @ CHR '' '' # v) = t" "drop (length t + 1) (t @ CHR '' '' # v) = v"
  using assms by (simp_all add: find_char_append)

lemma target_fields:
  fixes r :: HttpRequest and t :: string
  defines "q \<equiv> find_char CHR ''?'' t"
  shows "(if q \<noteq> length t then setQuery (setPath (setPath r t) (take q t)) (drop (q + 1) t)
          else setPath (setPath r t) t) =
     r\<lparr>m_path := path_of t, m_query := (case query_of t of None \<Rightarrow> m_query r | Some u \<Rightarrow> u)\<rparr>"
proof (cases "CHR ''?'' \<in> set t")
  case True
  then show ?thesis
    by (simp add: q_def find_char_eq_length setQuery_def setPath_def path_of_def query_of_def
        take_find_char drop_Suc_find_char)
next
  case False
  then have "path_of t = t"
    by (auto simp: path_of_def takeWhile_eq_all_conv)
  with False show ?thesis
    by (simp add: q_def find_char_eq_length setPath_def query_of_def)
qed

lemma parseRequestLine_two_spaces:
  assumes "CHR '' '' \<notin> set m" "CHR '' '' \<notin> set t"
  shows "parseRequestLine r (m @ CHR '' '' # t @ CHR '' '' # v) =
     (if stringToMethod m = kInvalidMethod then (False, r\<lparr>m_method := kInvalidMethod\<rparr>)
      else (version_of v \<noteq> kInvalidVersion,
        r\<lparr>m_method := stringToMethod m, m_path := path_of t,
          m_query := (case query_of t of None \<Rightarrow> m_query r | Some u \<Rightarrow> u),
          m_version := (if version_of v = kInvalidVersion then m_version r else version_of v)\<rparr>))"
  unfolding parseRequestLine_def Let_def request_line_spaces [OF assms, of v] target_fields
    snd_setMethod
  by (simp add: setVersion_def nocase8_version version_of_def split: option.split)

lemma parseRequestLine_no_space:
  "CHR '' '' \<notin> set line \<Longrightarrow> parseRequestLine r line = (False, r)"
  by (simp add: parseRequestLine_def find_char_notin)

lemma parseRequestLine_one_space:
  assumes "CHR '' '' \<notin> set m" "CHR '' '' \<notin> set t"
  shows "parseRequestLine r (m @ CHR '' '' # t) = (False, r\<lparr>m_method := stringToMethod m\<rparr>)"
  using assms
  by (simp add: parseRequestLine_def Let_def find_char_append find_char_notin setMethod_def)

lemma spaces_cases:
  obtains (none) "c \<notin> set line"
    | (one) m t where "line = m @ c # t" "c \<notin> set m" "c \<notin> set t"
    | (two) m t v where "line = m @ c # t @ c # v" "c \<notin> set m" "c \<notin> set t"
proof (cases "c \<in> set line")
  case True
  then obtain m rest where m: "line = m @ c # rest" "c \<notin> set m"
    by (meson split_list_first)
  show thesis
  proof (cases "c \<in> set rest")
    case True
    then show thesis
      using m two by (metis split_list_first)
  next
    case False
    then show thesis
      using m one by blast
  qed
qed (rule none)

text \<open>Form bodies.\<close>

lemma dropWhile_plain_run:
  "list_all plain k \<Longrightarrow> \<not> plain c \<Longrightarrow> dropWhile plain (k @ c # rest) = c # rest"
  "list_all plain k \<Longrightarrow> \<not> plain c \<Longrightarrow> takeWhile plain (k @ c # rest) = k"
  "list_all plain k \<Longrightarrow> takeWhile plain k = k" "list_all plain k \<Longrightarrow> dropWhile plain k = []"
  by (induction k) auto

lemma regex_search_pair:
  assumes "list_all plain k"
  shows "regex_search (k @ CHR ''='' # rest) =
           Some (k, takeWhile plain rest, dropWhile plain rest)"
proof -
  have "\<not> plain CHR ''=''"
    by (simp add: plain_def)
  then show ?thesis
    using assms by (subst regex_search.simps) (simp add: Let_def dropWhile_plain_run)
qed

lemma regex_search_ampersand: "regex_search (CHR 0x26 # body) = regex_search body"
  by (subst regex_search.simps) (simp add: plain_def)

lemma regex_search_Nil: "regex_search [] = None"
  by (subst regex_search.simps) simp

lemma parsePost_loop_skip: "parsePost_loop post (CHR 0x26 # body) = parsePost_loop post body"
  by (simp add: parsePost_loop.simps [of post "CHR 0x26 # body"] parsePost_loop.simps [of post body]
      regex_search_ampersand)

lemma parsePost_loop_Nil: "parsePost_loop post [] = post"
  by (simp add: parsePost_loop.simps [of post "[]"] regex_search_Nil)

lemma parsePost_loop_pair:
  "list_all plain k \<Longrightarrow> parsePost_loop post (k @ CHR ''='' # rest) =
     parsePost_loop (post(k \<mapsto> takeWhile plain rest)) (dropWhile plain rest)"
  by (simp add: parsePost_loop.simps [of post "k @ CHR ''='' # rest"] regex_search_pair)

lemma parsePost_loop_form:
  assumes "list_all (\<lambda>(k, v). list_all plain k \<and> list_all plain v) kvs"
  shows "parsePost_loop post (form_body kvs) = post ++ map_of (rev kvs)"
  using assms
proof (induction kvs arbitrary: post rule: form_body.induct)
  case (3 k v p ps)
  have "\<not> plain CHR 0x26"
    by (simp add: plain_def)
  then have "parsePost_loop post (form_body ((k, v) # p # ps)) =
      parsePost_loop (post(k \<mapsto> v)) (CHR 0x26 # form_body (p # ps))"
    using "3.prems" by (simp add: parsePost_loop_pair dropWhile_plain_run)
  also have "\<dots> = post(k \<mapsto> v) ++ map_of (rev (p # ps))"
    using 3 by (simp only: parsePost_loop_skip) simp
  finally show ?case by (simp add: map_add_assoc [symmetric])
qed (simp_all add: parsePost_loop_Nil parsePost_loop_pair dropWhile_plain_run)

section \<open>Properties\<close>

text \<open>The request line parser accepts exactly the lines made of a known method, a space, a
  target without spaces, a space and eight characters that spell HTTP/1.0 or HTTP/1.1 in any
  case; it then stores the method, the target up to the first question mark as path, what
  follows the question mark as query (the old query stays if there is none) and the version.\<close>

theorem request_line_exact:
  "parseRequestLine r line = (True, r') \<longleftrightarrow>
     (\<exists>m t v. line = m @ CHR '' '' # t @ CHR '' '' # v \<and>
        CHR '' '' \<notin> set m \<and> CHR '' '' \<notin> set t \<and>
        stringToMethod m \<noteq> kInvalidMethod \<and> version_of v \<noteq> kInvalidVersion \<and>
        r' = r\<lparr>m_method := stringToMethod m, m_path := path_of t,
               m_query := (case query_of t of None \<Rightarrow> m_query r | Some u \<Rightarrow> u),
               m_version := version_of v\<rparr>)" (is "?P \<longleftrightarrow> ?Q")
proof
  assume p: ?P
  show ?Q
  proof (cases line rule: spaces_cases [of "CHR '' ''"])
    case (two m t v)
    then show ?thesis
      using p parseRequestLine_two_spaces [of m t r v] by (auto split: if_splits)
  qed (use p parseRequestLine_no_space parseRequestLine_one_space in auto)
next
  assume ?Q
  then show ?P
    by (auto simp: parseRequestLine_two_spaces)
qed

text \<open>Parsing the body of a form, pairs joined by ampersands and free of the two separators,
  stores every pair, the last one winning where a key is repeated, and always succeeds.\<close>

theorem form_roundtrip:
  assumes "list_all (\<lambda>(k, v). list_all plain k \<and> list_all plain v) kvs"
  shows "parsePost r (form_body kvs) = (True, r\<lparr>m_post := m_post r ++ map_of (rev kvs)\<rparr>)"
  using parsePost_loop_form [OF assms] by (simp add: parsePost_def)

theorem form_roundtrip_witness:
  "list_all (\<lambda>(k, v). list_all plain k \<and> list_all plain v) [(''a'', ''1''), (''b'', ''''), (''a'', ''2'')] \<and>
   m_post (snd (parsePost HttpRequest_new (form_body [(''a'', ''1''), (''b'', ''''), (''a'', ''2'')]))) ''a'' =
     Some ''2''"
proof -
  have p: "list_all (\<lambda>(k, v). list_all plain k \<and> list_all plain v)
      [(''a'', ''1''), (''b'', ''''), (''a'', ''2'')]"
    by (simp add: plain_def)
  show ?thesis
    using form_roundtrip [OF p, of HttpRequest_new] p by simp
qed

end
