(* ===== verification/HttpParser.thy ===== *)
theory HttpParser
  imports NetBuffer HttpRequests
begin

text \<open>
  The incremental request parser of a connection, \<open>Http/httprequestparser.h\<close> and
  \<open>Http/httprequestparser.cpp\<close>: one state machine step per CRLF-terminated line, in a loop
  over the input buffer.  The theory relates the loop to a fold over the complete lines of the
  readable bytes and proves what a whole request, a second request and a body make of it.
\<close>

section \<open>State\<close>

datatype HttpRequestParseState = kParseRequestLine | kParseHeader | kParseBody
  | kParseGotCompleteRequest | kParseErrno

record HttpRequestParser =
  m_request :: HttpRequest
  m_parse_state :: HttpRequestParseState

definition HttpRequestParser_new :: HttpRequestParser where
  "HttpRequestParser_new = \<lparr>m_request = HttpRequest_new, m_parse_state = kParseRequestLine\<rparr>"

definition gotAll :: "HttpRequestParser \<Rightarrow> bool" where
  "gotAll p \<longleftrightarrow> m_parse_state p = kParseGotCompleteRequest"

definition getRequest :: "HttpRequestParser \<Rightarrow> HttpRequest" where
  "getRequest p = m_request p"

definition parser_reset :: "HttpRequestParser \<Rightarrow> HttpRequestParser" where
  "parser_reset p =
     (let (tmp, req) = request_swap HttpRequest_new (m_request p)
      in p\<lparr>m_request := req, m_parse_state := kParseRequestLine\<rparr>)"

section \<open>One line\<close>

text \<open>
  The \<open>switch\<close> of the loop body: whether it returns from the function, and the parser it
  leaves.
\<close>

definition parse_line :: "HttpRequestParser \<Rightarrow> string \<Rightarrow> bool \<times> HttpRequestParser" where
  "parse_line p line =
     (case m_parse_state p of
        kParseRequestLine \<Rightarrow>
          (case parseRequestLine (m_request p) line of
             (True, r) \<Rightarrow> (False, p\<lparr>m_request := r, m_parse_state := kParseHeader\<rparr>)
           | (False, r) \<Rightarrow> (True, p\<lparr>m_request := r, m_parse_state := kParseErrno\<rparr>))
      | kParseHeader \<Rightarrow>
          (let colon = find_char CHR '':'' line in
           if line = [] then (False, p\<lparr>m_parse_state := kParseGotCompleteRequest\<rparr>)
           else if colon \<noteq> length line
             then (False, p\<lparr>m_request := addHeader (m_request p) line colon\<rparr>)
           else (True, p\<lparr>m_parse_state := kParseErrno\<rparr>))
      | kParseBody \<Rightarrow>
          (if line = [] then (True, p\<lparr>m_parse_state := kParseGotCompleteRequest\<rparr>)
           else case parseRequestBody (m_request p) line of
             (True, r) \<Rightarrow> (True, p\<lparr>m_request := r, m_parse_state := kParseGotCompleteRequest\<rparr>)
           | (False, r) \<Rightarrow> (True, p\<lparr>m_request := r, m_parse_state := kParseErrno\<rparr>))
      | _ \<Rightarrow> (True, p\<lparr>m_parse_state := kParseErrno\<rparr>))"

section \<open>The loop\<close>

lemma findCRLF_decreases:
  assumes "findCRLF b = Some crlf" "retrieveUntilIndex b (crlf + 2) = Inr b'"
  shows "0 \<le> readableBytes b' \<and> readableBytes b' < readableBytes b"
proof -
  have "curReadPtr b \<le> crlf"
    using assms(1) by (auto simp: findCRLF_def split: option.splits)
  then show ?thesis
    using assms(2)
    by (auto simp: retrieveUntilIndex_def retrieve_def assert_then_def retrieveAll_def buf_defs
        split: if_splits)
qed

function parseContent ::
  "HttpRequestParser \<Rightarrow> Buffer \<Rightarrow> (HttpRequestParseState \<times> HttpRequestParser \<times> Buffer) result"
where
  "parseContent p b =
     (if readableBytes b > 0 then
        (case findCRLF b of
           None \<Rightarrow> Inr (m_parse_state p, p, b)
         | Some crlf \<Rightarrow>
             (case retrieveUntilIndex b (crlf + 2) of
                Inl e \<Rightarrow> Inl e
              | Inr b1 \<Rightarrow>
                  (case parse_line p (slice (m_buffer b1) (curReadPtr b) crlf) of
                     (True, p1) \<Rightarrow> Inr (m_parse_state p1, p1, b1)
                   | (False, p1) \<Rightarrow>
                       parseContent
                         (if readableBytes b1 = 0 \<and> m_parse_state p1 = kParseBody
                          then p1\<lparr>m_parse_state := kParseGotCompleteRequest\<rparr> else p1) b1)))
      else Inr (m_parse_state p, p, b))"
  by pat_completeness auto
termination
  by (relation "measure (\<lambda>(p, b). nat (readableBytes b))") (auto dest!: findCRLF_decreases)

declare parseContent.simps [simp del]

section \<open>Specification: lines\<close>

text \<open>The complete lines of a byte string, and the rest behind the last line end.\<close>

function split_lines :: "string \<Rightarrow> string list \<times> string" where
  "split_lines xs =
     (case search_crlf xs of
        None \<Rightarrow> ([], xs)
      | Some i \<Rightarrow> (let (ls, r) = split_lines (drop (i + 2) xs) in (take i xs # ls, r)))"
  by pat_completeness auto
termination
  by (relation "measure length") (auto dest: search_crlf_length)

declare split_lines.simps [simp del]

definition lines_of :: "string \<Rightarrow> string list" where "lines_of xs = fst (split_lines xs)"
definition rest_of :: "string \<Rightarrow> string" where "rest_of xs = snd (split_lines xs)"

text \<open>The parser after a list of lines, and whether it returned before the end of the list.\<close>

fun run_lines :: "HttpRequestParser \<Rightarrow> string list \<Rightarrow> bool \<times> HttpRequestParser" where
  "run_lines p [] = (False, p)"
| "run_lines p (l # ls) =
     (case parse_line p l of (True, p1) \<Rightarrow> (True, p1) | (False, p1) \<Rightarrow> run_lines p1 ls)"

text \<open>A request as a client writes it.\<close>

fun header_lines :: "(string \<times> string) list \<Rightarrow> string list" where
  "header_lines [] = []"
| "header_lines ((f, v) # hs) = (f @ '': '' @ v) # header_lines hs"

definition request_lines :: "string \<Rightarrow> string \<Rightarrow> string \<Rightarrow> (string \<times> string) list \<Rightarrow> string list" where
  "request_lines m t v hs = (m @ CHR '' '' # t @ CHR '' '' # v) # header_lines hs @ ['''']"

definition unlines_crlf :: "string list \<Rightarrow> string" where
  "unlines_crlf ls = concat (map (\<lambda>l. l @ kCRLF) ls)"

definition request_text :: "string \<Rightarrow> string \<Rightarrow> string \<Rightarrow> (string \<times> string) list \<Rightarrow> string" where
  "request_text m t v hs = unlines_crlf (request_lines m t v hs)"

text \<open>What can be written on one header line and read back unchanged.\<close>

definition header_ok :: "string \<times> string \<Rightarrow> bool" where
  "header_ok h = (case h of (f, v) \<Rightarrow>
     CHR '':'' \<notin> set f \<and> search_crlf (f @ '': '' @ v) = None \<and>
     (v = [] \<or> \<not> is_space (hd v) \<and> \<not> is_space (last v)))"

definition request_ok :: "string \<Rightarrow> string \<Rightarrow> string \<Rightarrow> (string \<times> string) list \<Rightarrow> bool" where
  "request_ok m t v hs \<longleftrightarrow>
     CHR '' '' \<notin> set t \<and> CHR 0x0A \<notin> set t \<and>
     stringToMethod m \<noteq> kInvalidMethod \<and> version_of v \<noteq> kInvalidVersion \<and> list_all header_ok hs"

section \<open>Lemmas\<close>

text \<open>Lines.\<close>

lemma split_lines_None: "search_crlf xs = None \<Longrightarrow> split_lines xs = ([], xs)"
  by (simp add: split_lines.simps [of xs])

lemma lines_of_None [simp]: "search_crlf xs = None \<Longrightarrow> lines_of xs = []"
  "search_crlf xs = None \<Longrightarrow> rest_of xs = xs"
  by (simp_all add: lines_of_def rest_of_def split_lines_None)

lemma lines_of_Some:
  assumes "search_crlf xs = Some i"
  shows "lines_of xs = take i xs # lines_of (drop (i + 2) xs)"
    "rest_of xs = rest_of (drop (i + 2) xs)"
  using assms by (simp_all add: lines_of_def rest_of_def split_lines.simps [of xs] split_beta)

lemma lines_of_line:
  assumes "search_crlf l = None"
  shows "lines_of (l @ kCRLF @ xs) = l # lines_of xs" "rest_of (l @ kCRLF @ xs) = rest_of xs"
  using lines_of_Some [OF search_crlf_line [OF assms, of xs]] by (simp_all add: kCRLF_def)

lemma search_crlf_append:
  "search_crlf xs = Some i \<Longrightarrow> search_crlf (xs @ ys) = Some i"
  by (induction xs arbitrary: i rule: search_crlf.induct) (auto split: if_splits)

text \<open>Splitting a stream at any point: the rest of the first part is kept in front of the second.\<close>

lemma lines_of_append:
  "lines_of (xs @ ys) = lines_of xs @ lines_of (rest_of xs @ ys) \<and>
   rest_of (xs @ ys) = rest_of (rest_of xs @ ys)"
proof (induction xs rule: split_lines.induct)
  case (1 xs)
  show ?case
  proof (cases "search_crlf xs")
    case None
    then show ?thesis by simp
  next
    case (Some i)
    have len: "i + 2 \<le> length xs"
      using search_crlf_length [OF Some] .
    then have "drop (i + 2) (xs @ ys) = drop (i + 2) xs @ ys" "take i (xs @ ys) = take i xs"
      by simp_all
    then show ?thesis
      using "1.IH" [OF Some] lines_of_Some [OF Some]
        lines_of_Some [OF search_crlf_append [OF Some, of ys]] by simp
  qed
qed

lemma rest_of_no_line: "search_crlf (rest_of xs) = None"
proof (induction xs rule: split_lines.induct)
  case (1 xs)
  then show ?case
    by (cases "search_crlf xs") (auto simp: lines_of_Some)
qed

lemma lines_of_unlines:
  "list_all (\<lambda>l. search_crlf l = None) ls \<Longrightarrow> search_crlf xs = None \<Longrightarrow>
     lines_of (unlines_crlf ls @ xs) = ls \<and> rest_of (unlines_crlf ls @ xs) = xs"
  by (induction ls) (simp_all add: unlines_crlf_def lines_of_line)

lemma run_lines_append:
  "run_lines p (ls @ ks) =
     (case run_lines p ls of (True, p1) \<Rightarrow> (True, p1) | (False, p1) \<Rightarrow> run_lines p1 ks)"
  by (induction ls arbitrary: p) (auto split: prod.splits bool.splits)

text \<open>The loop as a fold over lines.\<close>

lemma parse_line_not_body:
  "parse_line p l = (False, p1) \<Longrightarrow> m_parse_state p1 \<noteq> kParseBody"
  by (auto simp: parse_line_def Let_def split: HttpRequestParseState.splits prod.splits
      bool.splits if_splits)

lemma first_line:
  assumes "buf_inv b" "search_crlf (readable b) = Some i"
  shows "\<exists>crlf b1. findCRLF b = Some crlf \<and> retrieveUntilIndex b (crlf + 2) = Inr b1 \<and>
     buf_inv b1 \<and> readable b1 = drop (i + 2) (readable b) \<and>
     slice (m_buffer b1) (curReadPtr b) crlf = take i (readable b)"
proof -
  obtain crlf where crlf: "findCRLF b = Some crlf"
    using assms(2) findCRLF_None [of b] by (cases "findCRLF b") auto
  then have c: "crlf = m_read_index b + int i" "crlf + 2 \<le> m_write_index b"
    "slice (m_buffer b) (m_read_index b) crlf = take i (readable b)"
    using findCRLF_SomeD [OF assms(1) crlf] assms(2) by auto
  moreover have "nat (crlf + 2 - m_read_index b) = i + 2"
    using c(1) by simp
  ultimately show ?thesis
    using retrieveUntilIndex_keeps [of b "crlf + 2"] assms(1) crlf by (auto simp: curReadPtr_def)
qed

lemma parseContent_line:
  assumes "buf_inv b" "search_crlf (readable b) = Some i"
  shows "\<exists>b1. buf_inv b1 \<and> readable b1 = drop (i + 2) (readable b) \<and>
     parseContent p b =
       (case parse_line p (take i (readable b)) of
          (True, p1) \<Rightarrow> Inr (m_parse_state p1, p1, b1)
        | (False, p1) \<Rightarrow> parseContent p1 b1)"
proof -
  obtain crlf b1 where b1: "findCRLF b = Some crlf" "retrieveUntilIndex b (crlf + 2) = Inr b1"
    "buf_inv b1" "readable b1 = drop (i + 2) (readable b)"
    "slice (m_buffer b1) (curReadPtr b) crlf = take i (readable b)"
    using first_line [OF assms] by blast
  have "0 < readableBytes b"
    using search_crlf_length [OF assms(2)] length_readable [OF assms(1)] by linarith
  then have "parseContent p b =
       (case parse_line p (take i (readable b)) of
          (True, p1) \<Rightarrow> Inr (m_parse_state p1, p1, b1)
        | (False, p1) \<Rightarrow> parseContent p1 b1)"
    using b1 parse_line_not_body [of p "take i (readable b)"]
    by (subst parseContent.simps) (auto split: prod.splits bool.splits)
  with b1 show ?thesis by blast
qed

lemma parseContent_no_line:
  "search_crlf (readable b) = None \<Longrightarrow> parseContent p b = Inr (m_parse_state p, p, b)"
  by (subst parseContent.simps) (auto simp: findCRLF_None [symmetric])

lemma parseContent_run:
  assumes "buf_inv b"
  shows "\<exists>b'. parseContent p b =
     Inr (m_parse_state (snd (run_lines p (lines_of (readable b)))),
          snd (run_lines p (lines_of (readable b))), b') \<and> buf_inv b' \<and>
     (\<not> fst (run_lines p (lines_of (readable b))) \<longrightarrow> readable b' = rest_of (readable b))"
  using assms
proof (induction "length (readable b)" arbitrary: p b rule: less_induct)
  case less
  show ?case
  proof (cases "search_crlf (readable b)")
    case None
    then show ?thesis
      using less.prems by (simp add: parseContent_no_line)
  next
    case (Some i)
    obtain b1 where b1: "buf_inv b1" "readable b1 = drop (i + 2) (readable b)"
      "parseContent p b =
       (case parse_line p (take i (readable b)) of
          (True, p1) \<Rightarrow> Inr (m_parse_state p1, p1, b1)
        | (False, p1) \<Rightarrow> parseContent p1 b1)"
      using parseContent_line [OF less.prems Some, of p] by blast
    have "length (readable b1) < length (readable b)"
      using search_crlf_length [OF Some] b1(2) by simp
    note IH = less.hyps [OF this b1(1)]
    obtain s p1 where sp: "parse_line p (take i (readable b)) = (s, p1)"
      by fastforce
    show ?thesis
      using b1 sp IH [of p1] lines_of_Some [OF Some] by (cases s) auto
  qed
qed

text \<open>Reading back a request.\<close>

lemma no_LF_no_crlf: "CHR 0x0A \<notin> set xs \<Longrightarrow> search_crlf xs = None"
  by (auto simp: search_crlf_None_iff kCRLF_def)

lemma known_method_chars:
  "stringToMethod m \<noteq> kInvalidMethod \<Longrightarrow> CHR '' '' \<notin> set m \<and> CHR 0x0A \<notin> set m"
  by (auto simp: stringToMethod_def split: if_splits)

lemma known_version_chars:
  assumes "version_of v \<noteq> kInvalidVersion"
  shows "CHR 0x0A \<notin> set v"
proof
  assume "CHR 0x0A \<in> set v"
  then have "to_lower (CHR 0x0A) \<in> set (map to_lower v)"
    by simp
  moreover have "to_lower (CHR 0x0A) = CHR 0x0A"
    by code_simp
  ultimately show False
    using assms by (auto simp: version_of_def split: if_splits)
qed

lemma dropWhile_hd: "xs = [] \<or> \<not> P (hd xs) \<Longrightarrow> dropWhile P xs = xs"
  by (cases xs) auto

lemma trim_value:
  assumes "v = [] \<or> \<not> is_space (hd v) \<and> \<not> is_space (last v)"
  shows "trim_end (dropWhile is_space (CHR '' '' # v)) = v"
proof -
  have "dropWhile is_space v = v" "dropWhile is_space (rev v) = rev v"
    using assms by (auto intro!: dropWhile_hd simp: hd_rev)
  then show ?thesis
    by (simp add: trim_end_def is_space_def)
qed

lemma parse_header_line:
  assumes "header_ok (f, v)" "m_parse_state p = kParseHeader"
  shows "parse_line p (f @ '': '' @ v) =
    (False, p\<lparr>m_request := (m_request p)\<lparr>m_headers := (m_headers (m_request p))(f \<mapsto> v)\<rparr>\<rparr>)"
proof -
  have "find_char CHR '':'' (f @ '': '' @ v) = length f"
    using assms(1) find_char_append [of "CHR '':''" f "CHR '' '' # v"] by (simp add: header_ok_def)
  moreover have "trim_end (dropWhile is_space (CHR '' '' # v)) = v"
    using assms(1) by (intro trim_value) (simp add: header_ok_def)
  ultimately show ?thesis
    using assms(2) by (simp add: parse_line_def Let_def addHeader_def)
qed

lemma run_header_lines:
  assumes "list_all header_ok hs" "m_parse_state p = kParseHeader"
  shows "run_lines p (header_lines hs) =
    (False, p\<lparr>m_request := (m_request p)\<lparr>m_headers := m_headers (m_request p) ++ map_of (rev hs)\<rparr>\<rparr>)"
  using assms
proof (induction hs arbitrary: p rule: header_lines.induct)
  case (2 f v hs)
  then show ?case
    using parse_header_line [of f v p]
    by (simp add: map_add_assoc [symmetric])
qed simp

definition parsed_request ::
  "HttpRequest \<Rightarrow> string \<Rightarrow> string \<Rightarrow> string \<Rightarrow> (string \<times> string) list \<Rightarrow> HttpRequest" where
  "parsed_request r m t v hs =
     r\<lparr>m_method := stringToMethod m, m_path := path_of t,
       m_query := (case query_of t of None \<Rightarrow> m_query r | Some u \<Rightarrow> u),
       m_version := version_of v, m_headers := m_headers r ++ map_of (rev hs)\<rparr>"

lemma run_request_lines:
  assumes "request_ok m t v hs" "m_parse_state p = kParseRequestLine"
  shows "run_lines p (request_lines m t v hs) =
    (False, p\<lparr>m_request := parsed_request (m_request p) m t v hs,
              m_parse_state := kParseGotCompleteRequest\<rparr>)"
proof -
  have "parseRequestLine (m_request p) (m @ CHR '' '' # t @ CHR '' '' # v) =
      (True, (m_request p)\<lparr>m_method := stringToMethod m, m_path := path_of t,
          m_query := (case query_of t of None \<Rightarrow> m_query (m_request p) | Some u \<Rightarrow> u),
          m_version := version_of v\<rparr>)"
    using assms(1) known_method_chars [of m]
    by (simp add: request_ok_def parseRequestLine_two_spaces)
  then show ?thesis
    using assms
    by (simp add: request_lines_def run_lines_append parse_line_def run_header_lines
        request_ok_def parsed_request_def)
qed

lemma header_lines_crlf_free:
  "list_all header_ok hs \<Longrightarrow> list_all (\<lambda>l. search_crlf l = None) (header_lines hs)"
  by (induction hs rule: header_lines.induct) (auto simp: header_ok_def)

lemma request_lines_crlf_free:
  assumes "request_ok m t v hs"
  shows "list_all (\<lambda>l. search_crlf l = None) (request_lines m t v hs)"
proof -
  have "CHR 0x0A \<notin> set (m @ CHR '' '' # t @ CHR '' '' # v)"
    using assms known_method_chars [of m] known_version_chars [of v] by (simp add: request_ok_def)
  then show ?thesis
    using assms header_lines_crlf_free [of hs]
    by (simp add: request_lines_def request_ok_def no_LF_no_crlf)
qed

lemma lines_of_request:
  assumes "request_ok m t v hs" "search_crlf xs = None"
  shows "lines_of (request_text m t v hs @ xs) = request_lines m t v hs"
    "rest_of (request_text m t v hs @ xs) = xs"
  using lines_of_unlines [OF request_lines_crlf_free [OF assms(1)] assms(2)]
  by (simp_all add: request_text_def)

section \<open>Reachable parsers\<close>

text \<open>The states a connection's parser can be in.\<close>

inductive parser_reach :: "HttpRequestParser \<Rightarrow> bool" where
  reach_new: "parser_reach HttpRequestParser_new"
| reach_parse: "parser_reach p \<Longrightarrow> buf_inv b \<Longrightarrow> parseContent p b = Inr (s, p', b') \<Longrightarrow> parser_reach p'"
| reach_reset: "parser_reach p \<Longrightarrow> parser_reach (parser_reset p)"

lemma parse_line_keeps_out_of_body:
  "m_parse_state p \<noteq> kParseBody \<Longrightarrow> m_parse_state (snd (parse_line p l)) \<noteq> kParseBody"
  by (auto simp: parse_line_def Let_def split: HttpRequestParseState.splits prod.splits
      bool.splits if_splits)

lemma run_lines_keeps_out_of_body:
  "m_parse_state p \<noteq> kParseBody \<Longrightarrow> m_parse_state (snd (run_lines p ls)) \<noteq> kParseBody"
proof (induction ls arbitrary: p)
  case (Cons l ls)
  obtain s p1 where "parse_line p l = (s, p1)"
    by fastforce
  then show ?case
    using parse_line_keeps_out_of_body [OF Cons.prems, of l] Cons.IH [of p1] by (cases s) auto
qed simp

lemma parser_reach_no_body: "parser_reach p \<Longrightarrow> m_parse_state p \<noteq> kParseBody"
proof (induction rule: parser_reach.induct)
  case (reach_parse p b s p' b')
  then show ?case
    using parseContent_run [of b p] run_lines_keeps_out_of_body [of p "lines_of (readable b)"]
    by auto
qed (simp_all add: HttpRequestParser_new_def parser_reset_def split_beta)

lemma run_lines_after_complete:
  "m_parse_state p = kParseGotCompleteRequest \<Longrightarrow> ls \<noteq> [] \<Longrightarrow>
     run_lines p ls = (True, p\<lparr>m_parse_state := kParseErrno\<rparr>)"
  by (cases ls) (simp_all add: parse_line_def)

lemma stopped_is_error:
  "m_parse_state p \<noteq> kParseBody \<Longrightarrow> fst (run_lines p ls) \<Longrightarrow>
     m_parse_state (snd (run_lines p ls)) = kParseErrno"
proof (induction ls arbitrary: p)
  case (Cons l ls)
  obtain s p1 where sp: "parse_line p l = (s, p1)"
    by fastforce
  show ?case
  proof (cases s)
    case True
    then show ?thesis
      using sp Cons.prems(1)
      by (auto simp: parse_line_def Let_def split: HttpRequestParseState.splits prod.splits
          bool.splits if_splits)
  next
    case False
    then show ?thesis
      using sp Cons parse_line_not_body [of p l p1] by simp
  qed
qed simp

text \<open>A buffer that holds just the given bytes.\<close>

definition buffer_of :: "string \<Rightarrow> Buffer" where
  "buffer_of s = \<lparr>m_buffer = s @ replicate 8 (CHR 0x00), m_read_index = 0,
     m_write_index = int (length s)\<rparr>"

lemma buffer_of: "buf_inv (buffer_of s)" "readable (buffer_of s) = s"
  by (simp_all add: buffer_of_def buf_inv_def kPrePendIndex_def readable_def slice_def)

section \<open>Properties\<close>

text \<open>C18: parsing a buffer never fails an assertion and ends; it does to the parser what one step
  per complete line of the readable bytes does, in order, up to the first line that makes it
  return, returns the state it reached, and, if no line made it return, leaves exactly the bytes
  behind the last line end in the buffer.\<close>

theorem parse_refines_lines:
  assumes "buf_inv b"
  shows "\<exists>b'. parseContent p b =
     Inr (m_parse_state (snd (run_lines p (lines_of (readable b)))),
          snd (run_lines p (lines_of (readable b))), b') \<and> buf_inv b' \<and>
     (\<not> fst (run_lines p (lines_of (readable b))) \<longrightarrow> readable b' = rest_of (readable b))"
  using assms by (rule parseContent_run)

theorem parse_refines_lines_witness:
  "\<exists>b'. parseContent HttpRequestParser_new Buffer_default =
     Inr (kParseRequestLine, HttpRequestParser_new, b') \<and> readable b' = []"
  using parse_refines_lines [OF buf_inv_default, of HttpRequestParser_new]
  by (auto simp: HttpRequestParser_new_def)

text \<open>C8: a well-formed request, a request line, headers and an empty line, followed by any bytes
  without a line end, is parsed in one call into exactly the request it was written from, with
  state complete, and the trailing bytes stay in the buffer.\<close>

theorem request_roundtrip:
  assumes "buf_inv b" and "readable b = request_text m t v hs @ xs"
    and "request_ok m t v hs" and "search_crlf xs = None"
    and "m_parse_state p = kParseRequestLine"
  shows "\<exists>b'. parseContent p b = Inr (kParseGotCompleteRequest,
      p\<lparr>m_request := parsed_request (m_request p) m t v hs,
        m_parse_state := kParseGotCompleteRequest\<rparr>, b') \<and> readable b' = xs"
  using parseContent_run [OF assms(1), of p] lines_of_request [OF assms(3,4)]
    run_request_lines [OF assms(3,5)] assms(2) by auto

definition sample_headers :: "(string \<times> string) list" where
  "sample_headers = [(''Host'', ''a.b''), (''Connection'', ''Keep-Alive'')]"

lemma sample_ok: "request_ok ''GET'' ''/hello?x=1'' ''HTTP/1.1'' sample_headers"
  by code_simp

theorem request_roundtrip_witness:
  "\<exists>p' b'. parseContent HttpRequestParser_new
       (buffer_of (request_text ''GET'' ''/hello?x=1'' ''HTTP/1.1'' sample_headers @ ''abc'')) =
     Inr (kParseGotCompleteRequest, p', b') \<and> m_path (m_request p') = ''/hello'' \<and>
     m_query (m_request p') = ''x=1'' \<and> m_version (m_request p') = kHttp11 \<and>
     header (m_request p') ''Connection'' = Some ''Keep-Alive'' \<and> readable b' = ''abc''"
proof -
  have s: "search_crlf ''abc'' = None" "m_parse_state HttpRequestParser_new = kParseRequestLine"
    by (simp_all add: kCRLF_def HttpRequestParser_new_def)
  have v: "version_of ''HTTP/1.1'' = kHttp11"
    by code_simp
  show ?thesis
    using request_roundtrip [OF buffer_of sample_ok s] v
    by (auto simp: parsed_request_def path_of_def query_of_def header_def sample_headers_def)
qed

text \<open>C30: the parser is incremental: as long as the bytes behind the last line end are kept,
  parsing a stream in two parts, split anywhere, reaches the same parser and state as parsing it
  at once, unless the first part is already an error.\<close>

theorem chunk_independent:
  assumes "parser_reach p" and "buf_inv b1" and "parseContent p b1 = Inr (s1, p1, b1')"
    and "s1 \<noteq> kParseErrno"
    and "buf_inv b2" and "readable b2 = readable b1' @ ys"
    and "buf_inv b" and "readable b = readable b1 @ ys"
  shows "\<exists>s p' b2' b'. parseContent p1 b2 = Inr (s, p', b2') \<and> parseContent p b = Inr (s, p', b')"
proof -
  let ?ls = "lines_of (readable b1)"
  have p1: "snd (run_lines p ?ls) = p1" "\<not> fst (run_lines p ?ls)" "readable b1' = rest_of (readable b1)"
    using parseContent_run [OF assms(2), of p] assms(3,4)
      stopped_is_error [OF parser_reach_no_body [OF assms(1)], of ?ls] by auto
  have "run_lines p (lines_of (readable b)) = run_lines p1 (lines_of (readable b2))"
    using p1 lines_of_append [of "readable b1" ys] assms(6,8)
    by (auto simp: run_lines_append split: prod.splits bool.splits)
  then show ?thesis
    using parseContent_run [OF assms(5), of p1] parseContent_run [OF assms(7), of p] by auto
qed

theorem chunk_independent_witness:
  "\<exists>s p' b2' b' p1 b1'.
     parseContent HttpRequestParser_new (buffer_of ''GET / HT'') = Inr (kParseRequestLine, p1, b1') \<and>
     parseContent p1 (buffer_of (readable b1' @ ''TP/1.1'' @ kCRLF)) = Inr (s, p', b2') \<and>
     parseContent HttpRequestParser_new (buffer_of (''GET / HT'' @ ''TP/1.1'' @ kCRLF)) = Inr (s, p', b')"
proof -
  have first: "parseContent HttpRequestParser_new (buffer_of ''GET / HT'') =
      Inr (kParseRequestLine, HttpRequestParser_new, buffer_of ''GET / HT'')"
    by (subst parseContent_no_line)
      (simp_all add: buffer_of kCRLF_def HttpRequestParser_new_def)
  have "kParseRequestLine \<noteq> kParseErrno"
    by simp
  note chunk_independent [OF parser_reach.reach_new buffer_of(1) first this buffer_of buffer_of,
      of "''TP/1.1'' @ kCRLF"]
  with first show ?thesis
    by (metis buffer_of(2))
qed



end
