(* ===== verification/Timestamps.thy ===== *)
theory Timestamps
  imports Complex_Main Prelude "HOL-Library.Log_Nat"
begin

text \<open>
  \<open>Timer/timestamp.h\<close>: points of the steady clock, in nanoseconds, with the truncating
  conversions of \<open>std::chrono\<close>.  The 64-bit tick count covers 292 years from boot and is an
  unbounded integer here.  A \<open>double\<close> is the rational number it denotes; the only
  arithmetic the source does on one, the conversion of seconds to microseconds, is rounded to
  53 significant bits as the hardware does.
\<close>

section \<open>Integer division and floating-point rounding\<close>

definition div_trunc :: "int \<Rightarrow> int \<Rightarrow> int" where
  "div_trunc a b = sgn a * sgn b * (\<bar>a\<bar> div \<bar>b\<bar>)"

definition mod_trunc :: "int \<Rightarrow> int \<Rightarrow> int" where
  "mod_trunc a b = a - b * div_trunc a b"

text \<open>
  \<open>msb_exp x\<close> is the exponent of the leading bit of a positive rational; \<open>fl x\<close> is the
  nearest number with 53 significant bits, ties going to the even one.
\<close>

definition two_to :: "int \<Rightarrow> rat" where
  "two_to e = (if 0 \<le> e then 2 ^ nat e else 1 / 2 ^ nat (- e))"

definition msb_exp :: "rat \<Rightarrow> int" where
  "msb_exp x =
     (let (p, q) = quotient_of x;
          k = bitlen p - bitlen q
      in if x < two_to k then k - 1 else k)"

definition round_even :: "rat \<Rightarrow> int" where
  "round_even x =
     (let n = \<lfloor>x\<rfloor>; d = x - of_int n
      in if d < 1 / 2 then n else if 1 / 2 < d then n + 1 else if even n then n else n + 1)"

definition fl :: "rat \<Rightarrow> rat" where
  "fl x =
     (if x = 0 then 0
      else let e = msb_exp \<bar>x\<bar> - 52
           in sgn x * of_int (round_even (\<bar>x\<bar> / two_to e)) * two_to e)"

definition trunc_rat :: "rat \<Rightarrow> int" where
  "trunc_rat x = (if 0 \<le> x then \<lfloor>x\<rfloor> else \<lceil>x\<rceil>)"

section \<open>Timestamps\<close>

record Timestamp =
  m_time_point :: int

definition Timestamp_default :: Timestamp where
  "Timestamp_default = \<lparr>m_time_point = 0\<rparr>"

definition Timestamp_at :: "int \<Rightarrow> Timestamp" where
  "Timestamp_at t = \<lparr>m_time_point = t\<rparr>"

definition ts_greater :: "Timestamp \<Rightarrow> Timestamp \<Rightarrow> bool" where
  "ts_greater a b \<longleftrightarrow> m_time_point a > m_time_point b"

definition ts_less :: "Timestamp \<Rightarrow> Timestamp \<Rightarrow> bool" where
  "ts_less a b \<longleftrightarrow> m_time_point a < m_time_point b"

definition ts_equal :: "Timestamp \<Rightarrow> Timestamp \<Rightarrow> bool" where
  "ts_equal a b \<longleftrightarrow> m_time_point a = m_time_point b"

definition kMicroSecondsPerSecond :: int where
  "kMicroSecondsPerSecond = 1000 * 1000"

definition microseconds_of :: "rat \<Rightarrow> int" where
  "microseconds_of seconds = trunc_rat (fl (seconds * 1000000))"

definition addTime :: "Timestamp \<Rightarrow> rat \<Rightarrow> Timestamp" where
  "addTime ts seconds = Timestamp_at (m_time_point ts + microseconds_of seconds * 1000)"

definition secondsSinceEpoch :: "Timestamp \<Rightarrow> int" where
  "secondsSinceEpoch ts = div_trunc (m_time_point ts) 1000000000"

definition microsecondsSinceEpoch :: "Timestamp \<Rightarrow> int" where
  "microsecondsSinceEpoch ts = div_trunc (m_time_point ts) 1000"

definition timeDifference :: "Timestamp \<Rightarrow> Timestamp \<Rightarrow> int" where
  "timeDifference high low = div_trunc (m_time_point high - m_time_point low) 1000"

section \<open>Lemmas\<close>

lemma div_trunc_nonneg [simp]: "0 \<le> a \<Longrightarrow> 0 < b \<Longrightarrow> div_trunc a b = a div b"
  by (cases "a = 0") (simp_all add: div_trunc_def)

lemma div_trunc_neg: "a < 0 \<Longrightarrow> 0 < b \<Longrightarrow> div_trunc a b = - ((- a) div b)"
  by (simp add: div_trunc_def)

lemma mod_trunc_nonneg [simp]: "0 \<le> a \<Longrightarrow> 0 < b \<Longrightarrow> mod_trunc a b = a mod b"
  by (simp add: mod_trunc_def minus_mult_div_eq_mod)

lemma mod_trunc_neg: "a < 0 \<Longrightarrow> 0 < b \<Longrightarrow> mod_trunc a b = - ((- a) mod b)"
  by (simp add: mod_trunc_def div_trunc_neg minus_mult_div_eq_mod [symmetric])

lemma two_to_pos [simp]: "0 < two_to e"
  by (simp add: two_to_def)

lemma round_even_nonneg: "0 \<le> x \<Longrightarrow> 0 \<le> round_even x"
  by (auto simp: round_even_def Let_def)

lemma fl_nonneg: "0 \<le> x \<Longrightarrow> 0 \<le> fl x"
  by (auto simp: fl_def Let_def round_even_nonneg less_imp_le [OF two_to_pos])

lemma microseconds_of_nonneg: "0 \<le> s \<Longrightarrow> 0 \<le> microseconds_of s"
  using fl_nonneg [of "s * 1000000"] by (simp add: microseconds_of_def trunc_rat_def)

lemma addTime_mono: "0 \<le> s \<Longrightarrow> m_time_point ts \<le> m_time_point (addTime ts s)"
  using microseconds_of_nonneg [of s] by (simp add: addTime_def Timestamp_at_def)

text \<open>A product that fits in 53 bits is not rounded, so whole seconds are exact.\<close>

lemma round_even_int [simp]: "round_even (of_int n) = n"
  by (simp add: round_even_def)

lemma two_to_nonneg: "0 \<le> e \<Longrightarrow> two_to e = of_int (2 ^ nat e)"
  by (simp add: two_to_def)

lemma msb_exp_int:
  assumes "0 < n"
  shows "msb_exp (of_int n) = bitlen n - 1"
proof -
  have "bitlen n \<ge> 1" using assms by (simp add: bitlen_ge_iff_power)
  moreover have "2 ^ nat (bitlen n - 1) \<le> n" using bitlen_bounds [OF assms] by simp
  then have "(of_int (2 ^ nat (bitlen n - 1)) :: rat) \<le> of_int n" unfolding of_int_le_iff .
  then have "two_to (bitlen n - 1) \<le> of_int n" using \<open>bitlen n \<ge> 1\<close> by (simp add: two_to_nonneg)
  moreover have "bitlen 1 = 1" by (simp add: bitlen_def floorlog_def)
  ultimately show ?thesis by (simp add: msb_exp_def Let_def)
qed

lemma fl_int:
  assumes "0 \<le> n" "n < 2 ^ 53"
  shows "fl (of_int n) = of_int n"
proof (cases "n = 0")
  case False
  let ?k = "53 - bitlen n"
  have k: "0 \<le> ?k" using assms by (simp add: bitlen_le_iff_power)
  have e: "msb_exp \<bar>of_int n\<bar> - 52 = - ?k" using msb_exp_int [of n] assms False by simp
  have two: "two_to (- ?k) = 1 / of_int (2 ^ nat ?k)"
    using k by (cases "?k = 0") (simp_all add: two_to_def)
  have quot: "\<bar>of_int n\<bar> / two_to (- ?k) = (of_int (n * 2 ^ nat ?k) :: rat)"
    using assms by (subst two) simp
  have "fl (of_int n) = sgn (of_int n) * of_int (n * 2 ^ nat ?k) * two_to (- ?k)"
    using False by (simp only: fl_def Let_def e quot round_even_int of_int_eq_0_iff if_False)
  also have "\<dots> = of_int n" using assms False by (subst two) simp
  finally show ?thesis .
qed (simp add: fl_def)

lemma microseconds_of_int:
  "0 \<le> s \<Longrightarrow> s < 2 ^ 33 \<Longrightarrow> microseconds_of (of_int s) = s * 1000000"
  using fl_int [of "s * 1000000"] floor_of_int [of "s * 1000000", where 'a = rat]
  by (simp add: microseconds_of_def trunc_rat_def)

section \<open>Calendar strings\<close>

text \<open>
  \<open>gmtime\<close> for a time that is not negative: the year by taking whole years off the day
  count, the month by taking whole months off the day of the year.
\<close>

definition leap_year :: "nat \<Rightarrow> bool" where
  "leap_year y \<longleftrightarrow> (y mod 4 = 0 \<and> y mod 100 \<noteq> 0) \<or> y mod 400 = 0"

definition year_days :: "nat \<Rightarrow> nat" where
  "year_days y = (if leap_year y then 366 else 365)"

function year_from :: "nat \<Rightarrow> nat \<Rightarrow> nat \<times> nat" where
  "year_from y days = (if days < year_days y then (y, days) else year_from (y + 1) (days - year_days y))"
  by pat_completeness auto
termination by (relation "measure snd") (auto simp: year_days_def split: if_splits)

declare year_from.simps [simp del]

definition month_days :: "nat \<Rightarrow> nat list" where
  "month_days y = [31, if leap_year y then 29 else 28, 31, 30, 31, 30, 31, 31, 30, 31, 30, 31]"

fun month_from :: "nat \<Rightarrow> nat list \<Rightarrow> nat \<Rightarrow> nat \<times> nat" where
  "month_from m [] days = (m, days)"
| "month_from m (l # ls) days = (if days < l then (m, days) else month_from (m + 1) ls (days - l))"

record tm =
  tm_year :: nat
  tm_mon :: nat
  tm_mday :: nat
  tm_hour :: nat
  tm_min :: nat
  tm_sec :: nat

definition gmtime :: "nat \<Rightarrow> tm" where
  "gmtime t =
     (let (y, yday) = year_from 1970 (t div 86400);
          (m, mday) = month_from 0 (month_days y) yday;
          s = t mod 86400
      in \<lparr>tm_year = y - 1900, tm_mon = m, tm_mday = mday + 1, tm_hour = s div 3600,
          tm_min = s mod 3600 div 60, tm_sec = s mod 60\<rparr>)"

definition padded :: "char \<Rightarrow> nat \<Rightarrow> nat \<Rightarrow> string" where
  "padded c w n = replicate (w - length (nat_dec n)) c @ nat_dec n"

definition ts_format :: "Timestamp \<Rightarrow> string" where
  "ts_format ts =
     (let seconds = secondsSinceEpoch ts;
          microseconds_part = microsecondsSinceEpoch ts - seconds * 1000000;
          tm = gmtime (nat seconds)
      in padded CHR '' '' 4 (tm_year tm + 1900) @ padded CHR ''0'' 2 (tm_mon tm + 1) @
         padded CHR ''0'' 2 (tm_mday tm) @ '' '' @ padded CHR ''0'' 2 (tm_hour tm) @ '':'' @
         padded CHR ''0'' 2 (tm_min tm) @ '':'' @ padded CHR ''0'' 2 (tm_sec tm) @ ''.'' @
         padded CHR ''0'' 6 (nat microseconds_part))"

text \<open>
  \<open>toString\<close> and \<open>toDefaultLogString\<close>: \<open>snprintf\<close> cuts after 31 characters of the
  zeroed array, the second returns its first 17.
\<close>

definition ts_toString :: "Timestamp \<Rightarrow> string" where
  "ts_toString ts = take 31 (ts_format ts)"

definition toDefaultLogString :: "Timestamp \<Rightarrow> string" where
  "toDefaultLogString ts = take 17 (take 31 (ts_format ts) @ replicate 32 (CHR 0x00))"

lemma toDefaultLogString_length [simp]: "length (toDefaultLogString ts) = 17"
  by (simp add: toDefaultLogString_def)

lemma padded_length: "n < 10 ^ Suc k \<Longrightarrow> Suc k \<le> w \<Longrightarrow> length (padded c w n) = w"
  using nat_dec_length [of n k] by (simp add: padded_def)

lemma month_from_bounds:
  "days < sum_list ls \<Longrightarrow> month_from m ls days = (m', d) \<Longrightarrow>
   m \<le> m' \<and> m' < m + length ls \<and> d < ls ! (m' - m)"
proof (induction ls arbitrary: m days)
  case (Cons l ls)
  show ?case
  proof (cases "days < l")
    case False
    with Cons have "m + 1 \<le> m' \<and> m' < m + 1 + length ls \<and> d < ls ! (m' - (m + 1))"
      by (intro Cons.IH [of "days - l"]) auto
    then show ?thesis by (auto simp: nth_Cons' Suc_diff_Suc)
  qed (use Cons.prems in auto)
qed simp

lemma year_from_bounds: "year_from y days = (y', d) \<Longrightarrow> y \<le> y' \<and> d < year_days y' \<and> y' \<le> y + days div 365"
proof (induction y days rule: year_from.induct)
  case (1 y days)
  show ?case
  proof (cases "days < year_days y")
    case False
    have "365 \<le> year_days y" by (simp add: year_days_def)
    then have "(days - year_days y) div 365 \<le> (days - 365) div 365" by (intro div_le_mono) simp
    moreover have "365 \<le> days" using False \<open>365 \<le> year_days y\<close> by simp
    then have "(days - 365) div 365 + 1 = days div 365" by (simp add: le_div_geq)
    ultimately show ?thesis using 1 False by (auto simp: year_from.simps [of y days])
  qed (use "1.prems" in \<open>auto simp: year_from.simps [of y days]\<close>)
qed

lemma gmtime_bounds:
  "tm_mon (gmtime t) < 12 \<and> 1 \<le> tm_mday (gmtime t) \<and> tm_mday (gmtime t) \<le> 31 \<and> tm_hour (gmtime t) < 24 \<and>
   tm_min (gmtime t) < 60 \<and> tm_sec (gmtime t) < 60 \<and> tm_year (gmtime t) + 1900 \<le> 1970 + t div 86400 div 365"
proof -
  obtain y yday where y: "year_from 1970 (t div 86400) = (y, yday)" by fastforce
  obtain m mday where m: "month_from 0 (month_days y) yday = (m, mday)" by fastforce
  have "yday < sum_list (month_days y)"
    using year_from_bounds [OF y] by (simp add: month_days_def year_days_def split: if_splits)
  then have "m < 12" "mday < month_days y ! m"
    using month_from_bounds [OF _ m] by (simp_all add: month_days_def)
  moreover have "month_days y ! m \<le> 31" if "m < 12" for m
  proof -
    have "\<forall>l \<in> set (month_days y). l \<le> 31" by (simp add: month_days_def)
    moreover have "month_days y ! m \<in> set (month_days y)"
      by (rule nth_mem) (use that in \<open>simp add: month_days_def\<close>)
    ultimately show ?thesis by blast
  qed
  ultimately have "m < 12" "mday + 1 \<le> 31" by fastforce+
  moreover have "t mod 86400 div 3600 < 24" "t mod 86400 mod 3600 div 60 < 60"
    by (simp_all add: less_mult_imp_div_less)
  ultimately show ?thesis using year_from_bounds [OF y] y m by (simp add: gmtime_def Let_def)
qed

section \<open>Property\<close>

text \<open>A timestamp prints at fixed width.  For every time from the epoch of the clock on
  for 8030 years of 365 days, \<open>toString\<close> is not cut by its 32-character array, it
  has 24 characters, and the 17 characters of \<open>toDefaultLogString\<close> are its prefix
  without the fraction.\<close>

theorem timestamp_width:
  assumes "0 \<le> m_time_point ts" "m_time_point ts < 253234080000 * 1000000000"
  shows "length (ts_toString ts) = 24 \<and> ts_toString ts = ts_format ts \<and>
     toDefaultLogString ts @ drop 17 (ts_toString ts) = ts_toString ts \<and>
     ts_toString ts ! 17 = CHR ''.''"
proof -
  let ?s = "secondsSinceEpoch ts" and ?u = "microsecondsSinceEpoch ts"
  let ?tm = "gmtime (nat ?s)"
  have s: "?s = m_time_point ts div 1000000000" "?u = m_time_point ts div 1000"
    using assms(1) by (simp_all add: secondsSinceEpoch_def microsecondsSinceEpoch_def)
  have "?u div 1000000 = ?s" unfolding s by (simp add: zdiv_zmult2_eq [symmetric])
  then have part: "?u - ?s * 1000000 = ?u mod 1000000"
    by (metis minus_div_mult_eq_mod)
  have us: "nat (?u mod 1000000) < 10 ^ Suc 5" by (simp add: nat_less_iff)
  have "?s < 253234080000" using assms(2) s(1) by (simp add: div_less_iff_less_mult)
  then have "nat ?s div 86400 div 365 < 8030"
    by (simp add: div_mult2_eq [symmetric] less_mult_imp_div_less nat_less_iff)
  then have y: "tm_year ?tm + 1900 < 10 ^ Suc 3" using gmtime_bounds [of "nat ?s"] by simp
  have d: "tm_mon ?tm + 1 < 10 ^ Suc 1" "tm_mday ?tm < 10 ^ Suc 1" "tm_hour ?tm < 10 ^ Suc 1"
    "tm_min ?tm < 10 ^ Suc 1" "tm_sec ?tm < 10 ^ Suc 1"
    using gmtime_bounds [of "nat ?s"] by simp_all
  note lens = padded_length [OF y, of 4] padded_length [OF d(1), of 2] padded_length [OF d(2), of 2]
    padded_length [OF d(3), of 2] padded_length [OF d(4), of 2] padded_length [OF d(5), of 2]
    padded_length [OF us, of 6]
  obtain h where h: "ts_format ts = h @ ''.'' @ padded CHR ''0'' 6 (nat (?u mod 1000000))" "length h = 17"
    using lens by (simp add: ts_format_def Let_def part)
  then have "length (ts_format ts) = 24" using lens by simp
  then show ?thesis using h by (simp add: ts_toString_def toDefaultLogString_def nth_append)
qed

theorem timestamp_width_witness:
  "length (ts_toString (Timestamp_at 86399999999999)) = 24 \<and>
   ts_toString (Timestamp_at 86399999999999) ! 17 = CHR ''.''"
  using timestamp_width [of "Timestamp_at 86399999999999"] by (auto simp: Timestamp_at_def)

end
