(* ===== verification/Channels.thy ===== *)
theory Channels
  imports Prelude "HOL-Library.Word"
begin

text \<open>
  Channels and the epoll wrapper, \<open>Net/channel.h\<close>, \<open>Net/channel.cpp\<close>,
  \<open>Net/epoller.h\<close> and \<open>Net/epoller.cpp\<close>.  A channel is referred to by its address, a
  number; the reactor holds the channels by address, the map from file descriptors to addresses
  that the source calls \<open>m_channels\<close>, and the \<open>epoll_ctl\<close> calls made so far.  The
  epoll instance itself is not modelled: \<open>interest\<close> is what its documentation says a
  sequence of calls leaves registered, and \<open>calls_ok\<close> that no call of the sequence fails.
\<close>

unbundle bit_operations_syntax

section \<open>Events\<close>

definition EPOLLIN :: "32 word" where "EPOLLIN = 0x1"
definition EPOLLPRI :: "32 word" where "EPOLLPRI = 0x2"
definition EPOLLOUT :: "32 word" where "EPOLLOUT = 0x4"
definition EPOLLERR :: "32 word" where "EPOLLERR = 0x8"
definition EPOLLHUP :: "32 word" where "EPOLLHUP = 0x10"
definition EPOLLRDHUP :: "32 word" where "EPOLLRDHUP = 0x2000"
definition EPOLLET :: "32 word" where "EPOLLET = 0x80000000"

lemmas epoll_flags = EPOLLIN_def EPOLLPRI_def EPOLLOUT_def EPOLLERR_def EPOLLHUP_def
  EPOLLRDHUP_def EPOLLET_def

datatype ChannelIndex = kNew | kAdded | kDeleted

definition kNoneEvent :: "32 word" where "kNoneEvent = 0"
definition kReadEvent :: "32 word" where "kReadEvent = EPOLLIN OR EPOLLPRI"
definition kWriteEvent :: "32 word" where "kWriteEvent = EPOLLOUT"
definition kErrorEvent :: "32 word" where "kErrorEvent = EPOLLERR"

lemmas event_masks = kNoneEvent_def kReadEvent_def kWriteEvent_def kErrorEvent_def epoll_flags

section \<open>Channels\<close>

text \<open>
  \<open>m_tie\<close> is the weak pointer to the owning object: its identity, if the channel was tied.
  An empty \<open>std::function\<close> is \<open>None\<close>.
\<close>

record 'cb Channel =
  m_tied :: bool
  m_tie :: "nat option"
  m_index :: ChannelIndex
  m_fd :: int
  m_events :: "32 word"
  m_revents :: "32 word"
  m_read_callback :: "'cb option"
  m_write_callback :: "'cb option"
  m_error_callback :: "'cb option"
  m_close_callback :: "'cb option"

definition Channel_new :: "int \<Rightarrow> 'cb Channel" where
  "Channel_new n_fd = \<lparr>m_tied = False, m_tie = None, m_index = kNew, m_fd = n_fd, m_events = 0,
     m_revents = 0, m_read_callback = None, m_write_callback = None, m_error_callback = None,
     m_close_callback = None\<rparr>"

definition setEvents :: "'cb Channel \<Rightarrow> 32 word \<Rightarrow> 'cb Channel" where
  "setEvents c evt = c\<lparr>m_events := evt\<rparr>"

definition setRevents :: "'cb Channel \<Rightarrow> 32 word \<Rightarrow> 'cb Channel" where
  "setRevents c revt = c\<lparr>m_revents := revt\<rparr>"

definition setIndex :: "'cb Channel \<Rightarrow> ChannelIndex \<Rightarrow> 'cb Channel" where
  "setIndex c idx = c\<lparr>m_index := idx\<rparr>"

definition isRegistered :: "'cb Channel \<Rightarrow> bool" where
  "isRegistered c \<longleftrightarrow> m_events c \<noteq> 0"

definition isWriting :: "'cb Channel \<Rightarrow> bool" where
  "isWriting c \<longleftrightarrow> m_events c AND kWriteEvent \<noteq> 0"

definition isReading :: "'cb Channel \<Rightarrow> bool" where
  "isReading c \<longleftrightarrow> m_events c AND kReadEvent \<noteq> 0"

definition setReadCallback :: "'cb \<Rightarrow> 'cb Channel \<Rightarrow> 'cb Channel" where
  "setReadCallback cb c = c\<lparr>m_read_callback := Some cb\<rparr>"

definition setWriteCallback :: "'cb \<Rightarrow> 'cb Channel \<Rightarrow> 'cb Channel" where
  "setWriteCallback cb c = c\<lparr>m_write_callback := Some cb\<rparr>"

definition setErrorCallback :: "'cb \<Rightarrow> 'cb Channel \<Rightarrow> 'cb Channel" where
  "setErrorCallback cb c = c\<lparr>m_error_callback := Some cb\<rparr>"

definition setCloseCallback :: "'cb \<Rightarrow> 'cb Channel \<Rightarrow> 'cb Channel" where
  "setCloseCallback cb c = c\<lparr>m_close_callback := Some cb\<rparr>"

definition Tie :: "nat \<Rightarrow> 'cb Channel \<Rightarrow> 'cb Channel" where
  "Tie obj c = c\<lparr>m_tied := True, m_tie := Some obj\<rparr>"

text \<open>
  The callbacks one event makes a channel call, in order.  The method is \<open>const\<close> and reads
  the returned events once per test, so a callback cannot change what the later tests see.
\<close>

definition handleEventWithGuard :: "'cb Channel \<Rightarrow> 'cb list" where
  "handleEventWithGuard c =
     (if m_revents c AND kErrorEvent \<noteq> 0
      then (case m_error_callback c of None \<Rightarrow> [] | Some cb \<Rightarrow> [cb]) else []) @
     (if m_revents c AND EPOLLHUP \<noteq> 0 \<and> \<not> (m_revents c AND EPOLLIN \<noteq> 0)
      then (case m_close_callback c of None \<Rightarrow> [] | Some cb \<Rightarrow> [cb]) else []) @
     (if m_revents c AND (kReadEvent OR EPOLLRDHUP) \<noteq> 0
      then (case m_read_callback c of None \<Rightarrow> [] | Some cb \<Rightarrow> [cb]) else []) @
     (if m_revents c AND kWriteEvent \<noteq> 0
      then (case m_write_callback c of None \<Rightarrow> [] | Some cb \<Rightarrow> [cb]) else [])"

text \<open>\<open>alive\<close> says which objects a weak pointer can still be locked to.\<close>

definition handleEvent :: "(nat \<Rightarrow> bool) \<Rightarrow> 'cb Channel \<Rightarrow> 'cb list" where
  "handleEvent alive c =
     (if m_tied c
      then (if (case m_tie c of None \<Rightarrow> False | Some obj \<Rightarrow> alive obj)
            then handleEventWithGuard c else [])
      else handleEventWithGuard c)"

section \<open>The epoll wrapper\<close>

datatype ctl_op = EPOLL_CTL_ADD | EPOLL_CTL_MOD | EPOLL_CTL_DEL

record ctl_call =
  c_op :: ctl_op
  c_fd :: int
  c_events :: "32 word"
  c_ptr :: nat

record 'cb Reactor =
  m_channels :: "int \<rightharpoonup> nat"
  ctl_calls :: "ctl_call list"
  chans :: "nat \<rightharpoonup> 'cb Channel"

definition Reactor_new :: "'cb Reactor" where
  "Reactor_new = \<lparr>m_channels = Map.empty, ctl_calls = [], chans = Map.empty\<rparr>"

text \<open>Dereferencing an address that holds no channel is an access to freed memory.\<close>

definition deref :: "'cb Reactor \<Rightarrow> nat \<Rightarrow> 'cb Channel result" where
  "deref r p = (case chans r p of None \<Rightarrow> Inl OutOfBounds | Some c \<Rightarrow> Inr c)"

definition put_chan :: "'cb Reactor \<Rightarrow> nat \<Rightarrow> 'cb Channel \<Rightarrow> 'cb Reactor" where
  "put_chan r p c = r\<lparr>chans := (chans r)(p \<mapsto> c)\<rparr>"

definition hasChannel :: "'cb Reactor \<Rightarrow> nat \<Rightarrow> bool result" where
  "hasChannel r p = res_bind (deref r p) (\<lambda>c. Inr (m_channels r (m_fd c) = Some p))"

text \<open>\<open>Epoller::update\<close>: one \<open>epoll_ctl\<close> call, whose failure is only logged.\<close>

definition epoller_update :: "ctl_op \<Rightarrow> nat \<Rightarrow> 'cb Channel \<Rightarrow> 'cb Reactor \<Rightarrow> 'cb Reactor" where
  "epoller_update op p c r =
     r\<lparr>ctl_calls := ctl_calls r @ [\<lparr>c_op = op, c_fd = m_fd c, c_events = m_events c, c_ptr = p\<rparr>]\<rparr>"

definition updateChannel :: "'cb Reactor \<Rightarrow> nat \<Rightarrow> 'cb Reactor result" where
  "updateChannel r p =
     res_bind (deref r p) (\<lambda>c.
       let fd = m_fd c in
       if m_index c = kNew \<or> m_index c = kDeleted then
         res_bind
           (if m_index c = kNew then Inr (r\<lparr>m_channels := (m_channels r)(fd \<mapsto> p)\<rparr>)
            else assert_then (m_channels r fd \<noteq> None)
                   (assert_then (m_channels r fd = Some p) (Inr r)))
           (\<lambda>r1. let c1 = setIndex c kAdded
                 in Inr (epoller_update EPOLL_CTL_ADD p c1 (put_chan r1 p c1)))
       else
         assert_then (m_channels r fd \<noteq> None)
           (assert_then (m_channels r fd = Some p)
              (if isRegistered c then Inr (epoller_update EPOLL_CTL_MOD p c r)
               else Inr (put_chan (epoller_update EPOLL_CTL_DEL p c r) p (setIndex c kDeleted)))))"

definition removeChannel :: "'cb Reactor \<Rightarrow> nat \<Rightarrow> 'cb Reactor result" where
  "removeChannel r p =
     res_bind (deref r p) (\<lambda>c.
       let fd = m_fd c in
       assert_then (m_channels r fd \<noteq> None)
         (assert_then (m_channels r fd = Some p)
           (assert_then (m_index c = kAdded \<or> m_index c = kDeleted)
             (let r1 = (if m_index c = kAdded
                        then put_chan (epoller_update EPOLL_CTL_DEL p c r) p (setIndex c kDeleted)
                        else r)
              in Inr (r1\<lparr>m_channels := (m_channels r1)(fd := None)\<rparr>)))))"

text \<open>The channel operations set the event mask and call \<open>EventLoop::update\<close>.\<close>

definition set_and_update ::
  "(32 word \<Rightarrow> 32 word) \<Rightarrow> 'cb Reactor \<Rightarrow> nat \<Rightarrow> 'cb Reactor result" where
  "set_and_update f r p =
     res_bind (deref r p) (\<lambda>c. updateChannel (put_chan r p (c\<lparr>m_events := f (m_events c)\<rparr>)) p)"

definition enableReading :: "'cb Reactor \<Rightarrow> nat \<Rightarrow> 'cb Reactor result" where
  "enableReading = set_and_update (\<lambda>e. e OR kReadEvent)"

definition enableWriting :: "'cb Reactor \<Rightarrow> nat \<Rightarrow> 'cb Reactor result" where
  "enableWriting = set_and_update (\<lambda>e. e OR kWriteEvent)"

definition disableReading :: "'cb Reactor \<Rightarrow> nat \<Rightarrow> 'cb Reactor result" where
  "disableReading = set_and_update (\<lambda>e. e AND NOT kReadEvent)"

definition disableWriting :: "'cb Reactor \<Rightarrow> nat \<Rightarrow> 'cb Reactor result" where
  "disableWriting = set_and_update (\<lambda>e. e AND NOT kWriteEvent)"

definition disableAll :: "'cb Reactor \<Rightarrow> nat \<Rightarrow> 'cb Reactor result" where
  "disableAll = set_and_update (\<lambda>_. kNoneEvent)"

definition Channel_destroy :: "'cb Reactor \<Rightarrow> nat \<Rightarrow> 'cb Reactor result" where
  "Channel_destroy r p =
     res_bind (hasChannel r p) (\<lambda>has.
       res_bind (if has then res_bind (disableAll r p) (\<lambda>r1. removeChannel r1 p) else Inr r)
         (\<lambda>r2. Inr (r2\<lparr>chans := (chans r2)(p := None)\<rparr>)))"

text \<open>
  \<open>fillActiveChannels\<close> walks the events \<open>epoll_wait\<close> filled in, each an event mask and
  the pointer registered with it.
\<close>

fun fillActiveChannels ::
  "'cb Reactor \<Rightarrow> (32 word \<times> nat) list \<Rightarrow> nat list \<Rightarrow> ('cb Reactor \<times> nat list) result" where
  "fillActiveChannels r [] active = Inr (r, active)"
| "fillActiveChannels r ((revt, p) # evs) active =
     res_bind (deref r p) (\<lambda>c.
       fillActiveChannels (put_chan r p (setRevents c revt)) evs (active @ [p]))"

definition epoller_poll ::
  "'cb Reactor \<Rightarrow> errno + (32 word \<times> nat) list \<Rightarrow> nat list \<Rightarrow> ('cb Reactor \<times> nat list) result" where
  "epoller_poll r wait active =
     (case wait of Inl e \<Rightarrow> Inr (r, active) | Inr evs \<Rightarrow> fillActiveChannels r evs active)"

text \<open>
  The wrapper's own members, for its move operations: the epoll descriptor, the size of the
  event array and the channel map.  Each returns the object and the moved-from one.
\<close>

record Epoller =
  m_epoll_fd :: int
  m_event_slots :: nat
  e_channels :: "int \<rightharpoonup> nat"

definition Epoller_new :: "int \<Rightarrow> nat \<Rightarrow> Epoller result" where
  "Epoller_new created_fd max_event_num =
     (if created_fd < 0 then Inl ExitCalled
      else Inr \<lparr>m_epoll_fd = created_fd, m_event_slots = max_event_num, e_channels = Map.empty\<rparr>)"

definition Epoller_move :: "Epoller \<Rightarrow> Epoller \<times> Epoller" where
  "Epoller_move other =
     (let this = \<lparr>m_epoll_fd = m_epoll_fd other, m_event_slots = m_event_slots other,
                  e_channels = Map.empty\<rparr>
      in (this\<lparr>m_epoll_fd := -1\<rparr>, other\<lparr>m_event_slots := 0\<rparr>))"

definition Epoller_move_assign :: "Epoller \<Rightarrow> Epoller \<Rightarrow> Epoller \<times> Epoller" where
  "Epoller_move_assign this other =
     (this\<lparr>m_epoll_fd := m_epoll_fd other, m_event_slots := m_event_slots other\<rparr>,
      other\<lparr>m_event_slots := 0, m_epoll_fd := -1\<rparr>)"

section \<open>Specification\<close>

text \<open>What a sequence of \<open>epoll_ctl\<close> calls leaves registered; a call that fails changes nothing.\<close>

definition ctl_apply :: "ctl_call \<Rightarrow> (int \<rightharpoonup> 32 word \<times> nat) \<Rightarrow> (int \<rightharpoonup> 32 word \<times> nat)" where
  "ctl_apply call m =
     (case c_op call of
        EPOLL_CTL_ADD \<Rightarrow> if m (c_fd call) = None then m(c_fd call \<mapsto> (c_events call, c_ptr call)) else m
      | EPOLL_CTL_MOD \<Rightarrow> if m (c_fd call) = None then m else m(c_fd call \<mapsto> (c_events call, c_ptr call))
      | EPOLL_CTL_DEL \<Rightarrow> m(c_fd call := None))"

definition interest :: "ctl_call list \<Rightarrow> (int \<rightharpoonup> 32 word \<times> nat)" where
  "interest calls = foldl (\<lambda>m c. ctl_apply c m) Map.empty calls"

definition call_ok :: "ctl_call \<Rightarrow> (int \<rightharpoonup> 32 word \<times> nat) \<Rightarrow> bool" where
  "call_ok call m \<longleftrightarrow> (c_op call = EPOLL_CTL_ADD) = (m (c_fd call) = None)"

fun calls_ok_from :: "(int \<rightharpoonup> 32 word \<times> nat) \<Rightarrow> ctl_call list \<Rightarrow> bool" where
  "calls_ok_from m [] = True"
| "calls_ok_from m (c # cs) = (call_ok c m \<and> calls_ok_from (ctl_apply c m) cs)"

definition calls_ok :: "ctl_call list \<Rightarrow> bool" where
  "calls_ok calls = calls_ok_from Map.empty calls"

text \<open>
  The reactor invariant: a mapped descriptor belongs to a live channel with that descriptor; a
  new channel is not mapped, an added one is; exactly the mapped and added channels are
  registered, with their current mask and their own address; and no call ever failed.
\<close>

definition registered :: "'cb Reactor \<Rightarrow> int \<Rightarrow> (32 word \<times> nat) option" where
  "registered r fd =
     (case m_channels r fd of
        None \<Rightarrow> None
      | Some p \<Rightarrow>
          (case chans r p of
             None \<Rightarrow> None
           | Some c \<Rightarrow> if m_index c = kAdded then Some (m_events c, p) else None))"

definition reactor_inv :: "'cb Reactor \<Rightarrow> bool" where
  "reactor_inv r \<longleftrightarrow>
     (\<forall>fd p. m_channels r fd = Some p \<longrightarrow>
        (\<exists>c. chans r p = Some c \<and> m_fd c = fd \<and> m_index c \<noteq> kNew)) \<and>
     (\<forall>p c. chans r p = Some c \<longrightarrow> m_index c = kAdded \<longrightarrow> m_channels r (m_fd c) = Some p) \<and>
     interest (ctl_calls r) = registered r \<and>
     calls_ok (ctl_calls r)"

section \<open>Lemmas\<close>

lemma interest_snoc [simp]: "interest (cs @ [c]) = ctl_apply c (interest cs)"
  by (simp add: interest_def)

lemma calls_ok_from_append:
  "calls_ok_from m (cs @ ds) \<longleftrightarrow> calls_ok_from m cs \<and> calls_ok_from (foldl (\<lambda>m c. ctl_apply c m) m cs) ds"
  by (induction cs arbitrary: m) auto

lemma calls_ok_snoc [simp]: "calls_ok (cs @ [c]) \<longleftrightarrow> calls_ok cs \<and> call_ok c (interest cs)"
  by (simp add: calls_ok_def calls_ok_from_append interest_def)

lemma reactor_inv_new: "reactor_inv Reactor_new"
  by (simp add: reactor_inv_def Reactor_new_def registered_def interest_def calls_ok_def fun_eq_iff)

lemma deref_Some [simp]: "chans r p = Some c \<Longrightarrow> deref r p = Inr c"
  by (simp add: deref_def)

lemma put_chan_fields [simp]:
  "m_channels (put_chan r p c) = m_channels r" "ctl_calls (put_chan r p c) = ctl_calls r"
  "chans (put_chan r p c) = (chans r)(p \<mapsto> c)"
  by (simp_all add: put_chan_def)

lemma epoller_update_fields [simp]:
  "m_channels (epoller_update op p c r) = m_channels r" "chans (epoller_update op p c r) = chans r"
  "ctl_calls (epoller_update op p c r) =
     ctl_calls r @ [\<lparr>c_op = op, c_fd = m_fd c, c_events = m_events c, c_ptr = p\<rparr>]"
  by (simp_all add: epoller_update_def)

lemma reactor_inv_mapped:
  "reactor_inv r \<Longrightarrow> m_channels r fd = Some p \<Longrightarrow>
     \<exists>c. chans r p = Some c \<and> m_fd c = fd \<and> m_index c \<noteq> kNew"
  by (simp add: reactor_inv_def)

lemma reactor_inv_added:
  "reactor_inv r \<Longrightarrow> chans r p = Some c \<Longrightarrow> m_index c = kAdded \<Longrightarrow> m_channels r (m_fd c) = Some p"
  by (simp add: reactor_inv_def)

lemma reactor_inv_registered: "reactor_inv r \<Longrightarrow> interest (ctl_calls r) = registered r"
  by (simp add: reactor_inv_def)

lemma same_index [simp]: "m_index c = i \<Longrightarrow> c\<lparr>m_index := i\<rparr> = c"
  by (cases c) simp

text \<open>Replacing one channel and mapping its descriptor to it.\<close>

lemma registered_replace:
  assumes "reactor_inv r" "m_channels r fd \<in> {None, Some p}"
    and "chans r p = Some c" "m_fd c = fd" "m_fd c' = fd"
    and "m_channels r' = (m_channels r)(fd \<mapsto> p)" "chans r' = (chans r)(p \<mapsto> c')"
  shows "registered r' =
    (registered r)(fd := if m_index c' = kAdded then Some (m_events c', p) else None)"
proof
  fix fd'
  show "registered r' fd' =
    ((registered r)(fd := if m_index c' = kAdded then Some (m_events c', p) else None)) fd'"
  proof (cases "fd' = fd")
    case False
    have "q \<noteq> p" if "m_channels r fd' = Some q" for q
      using reactor_inv_mapped [OF assms(1) that] assms(3,4) False by auto
    with False show ?thesis
      using assms(6,7) by (auto simp: registered_def split: option.splits)
  qed (use assms in \<open>simp add: registered_def\<close>)
qed

lemma inv_replace:
  assumes "reactor_inv r" "m_channels r fd \<in> {None, Some p}"
    and "chans r p = Some c" "m_fd c = fd" "m_fd c' = fd" "m_index c' \<noteq> kNew"
    and "m_channels r' = (m_channels r)(fd \<mapsto> p)" "chans r' = (chans r)(p \<mapsto> c')"
    and "interest (ctl_calls r') =
      (registered r)(fd := if m_index c' = kAdded then Some (m_events c', p) else None)"
    and "calls_ok (ctl_calls r')"
  shows "reactor_inv r'"
proof -
  have "interest (ctl_calls r') = registered r'"
    using registered_replace [OF assms(1-5,7,8)] assms(9) by simp
  moreover have "\<exists>c. chans r' q = Some c \<and> m_fd c = fd' \<and> m_index c \<noteq> kNew"
    if "m_channels r' fd' = Some q" for fd' q
    using that reactor_inv_mapped [OF assms(1), of fd' q] assms(3-8)
    by (auto split: if_splits)
  moreover have "m_channels r' (m_fd d) = Some q"
    if "chans r' q = Some d" "m_index d = kAdded" for q d
  proof (cases "q = p")
    case False
    then have "m_channels r (m_fd d) = Some q"
      using that assms(1,8) by (simp add: reactor_inv_def)
    moreover from this have "m_fd d \<noteq> fd"
      using assms(2) False by auto
    ultimately show ?thesis
      using assms(7) by simp
  qed (use that assms(5,7,8) in simp)
  ultimately show ?thesis
    using assms(10) by (auto simp: reactor_inv_def)
qed

text \<open>
  The operation can run on a channel that is new with a free descriptor, or still mapped.
\<close>

definition updatable :: "'cb Reactor \<Rightarrow> nat \<Rightarrow> 'cb Channel \<Rightarrow> bool" where
  "updatable r p c \<longleftrightarrow>
     (m_index c = kNew \<longrightarrow> m_channels r (m_fd c) = None) \<and>
     (m_index c = kDeleted \<longrightarrow> m_channels r (m_fd c) = Some p)"

definition index_after :: "'cb Channel \<Rightarrow> 32 word \<Rightarrow> ChannelIndex" where
  "index_after c e = (if m_index c = kAdded \<and> e = 0 then kDeleted else kAdded)"

lemma set_and_update_effect:
  fixes f :: "32 word \<Rightarrow> 32 word"
  assumes "reactor_inv r" "chans r p = Some c" "updatable r p c"
  defines "c' \<equiv> c\<lparr>m_events := f (m_events c), m_index := index_after c (f (m_events c))\<rparr>"
  shows "\<exists>r'. set_and_update f r p = Inr r' \<and> reactor_inv r' \<and>
     m_channels r' = (m_channels r)(m_fd c \<mapsto> p) \<and> chans r' = (chans r)(p \<mapsto> c')"
proof -
  let ?fd = "m_fd c"
  let ?op = "if m_index c \<noteq> kAdded then EPOLL_CTL_ADD
             else if f (m_events c) \<noteq> 0 then EPOLL_CTL_MOD else EPOLL_CTL_DEL"
  let ?call = "\<lparr>c_op = ?op, c_fd = ?fd, c_events = f (m_events c), c_ptr = p\<rparr>"
  let ?r' = "\<lparr>m_channels = (m_channels r)(?fd \<mapsto> p), ctl_calls = ctl_calls r @ [?call],
      chans = (chans r)(p \<mapsto> c')\<rparr>"
  have added: "m_index c = kAdded \<Longrightarrow> m_channels r ?fd = Some p"
    using assms(1,2) by (simp add: reactor_inv_def)
  have mapped: "m_channels r ?fd \<in> {None, Some p}" "m_index c \<noteq> kNew \<Longrightarrow> m_channels r ?fd = Some p"
    using assms(3) added by (cases "m_index c"; simp add: updatable_def)+
  have same: "(m_channels r)(?fd \<mapsto> p) = m_channels r" if "m_index c \<noteq> kNew"
    using mapped(2) [OF that] by auto
  have run: "set_and_update f r p = Inr ?r'"
    using assms(2) same mapped(2)
    by (cases r; cases "m_index c") (simp_all add: set_and_update_def updateChannel_def Let_def
        c'_def index_after_def setIndex_def isRegistered_def put_chan_def epoller_update_def)
  have reg: "(registered r ?fd = None) = (m_index c \<noteq> kAdded)"
    using assms(2) added mapped(1) by (auto simp: registered_def split: option.splits)
  have "reactor_inv ?r'"
  proof (rule inv_replace [OF assms(1) mapped(1) assms(2) refl])
    show "interest (ctl_calls ?r') =
      (registered r)(?fd := if m_index c' = kAdded then Some (m_events c', p) else None)"
      using reg reactor_inv_registered [OF assms(1)]
      by (auto simp: ctl_apply_def c'_def index_after_def)
    show "calls_ok (ctl_calls ?r')"
      using reg assms(1) by (auto simp: reactor_inv_def call_ok_def)
  qed (simp_all add: c'_def index_after_def)
  with run show ?thesis by auto
qed

lemma set_and_update_detached:
  assumes "chans r p = Some c" "m_index c = kDeleted" "m_channels r (m_fd c) \<noteq> Some p"
  shows "set_and_update f r p = Inl AssertFailure"
  using assms
  by (simp add: set_and_update_def updateChannel_def Let_def assert_then_False)
    (simp add: assert_then_def)

lemma removeChannel_effect:
  assumes "reactor_inv r" "chans r p = Some c" "m_channels r (m_fd c) = Some p"
  shows "\<exists>r'. removeChannel r p = Inr r' \<and> reactor_inv r' \<and>
     m_channels r' = (m_channels r)(m_fd c := None) \<and>
     chans r' = (chans r)(p \<mapsto> c\<lparr>m_index := kDeleted\<rparr>)"
proof -
  let ?fd = "m_fd c"
  let ?call = "\<lparr>c_op = EPOLL_CTL_DEL, c_fd = ?fd, c_events = m_events c, c_ptr = p\<rparr>"
  let ?r' = "\<lparr>m_channels = (m_channels r)(?fd := None),
      ctl_calls = ctl_calls r @ (if m_index c = kAdded then [?call] else []),
      chans = (chans r)(p \<mapsto> c\<lparr>m_index := kDeleted\<rparr>)\<rparr>"
  have idx: "m_index c \<noteq> kNew"
    using reactor_inv_mapped [OF assms(1,3)] assms(2) by auto
  have run: "removeChannel r p = Inr ?r'"
    using assms(2,3) idx
    by (cases r; cases "m_index c") (auto simp: removeChannel_def Let_def put_chan_def
        epoller_update_def setIndex_def)
  have mapped: "q \<noteq> p" if "m_channels r fd' = Some q" "fd' \<noteq> ?fd" for fd' q
    using reactor_inv_mapped [OF assms(1) that(1)] assms(2) that(2) by auto
  have reg': "registered ?r' = (registered r)(?fd := None)"
    using mapped by (force simp: registered_def split: option.splits)
  have reg: "registered r ?fd = (if m_index c = kAdded then Some (m_events c, p) else None)"
    using assms(2,3) by (simp add: registered_def)
  have "reactor_inv ?r'"
    unfolding reactor_inv_def
  proof (intro conjI allI impI)
    show "interest (ctl_calls ?r') = registered ?r'"
      unfolding reg' using reg reactor_inv_registered [OF assms(1)]
      by (auto simp: ctl_apply_def)
    show "calls_ok (ctl_calls ?r')"
      using assms(1) reg by (auto simp: reactor_inv_def call_ok_def)
    show "\<exists>c. chans ?r' q = Some c \<and> m_fd c = fd' \<and> m_index c \<noteq> kNew"
      if "m_channels ?r' fd' = Some q" for fd' q
      using that mapped reactor_inv_mapped [OF assms(1), of fd' q] by (auto split: if_splits)
    show "m_channels ?r' (m_fd d) = Some q" if "chans ?r' q = Some d" "m_index d = kAdded" for q d
      using that reactor_inv_added [OF assms(1), of q d] assms(3) by (auto split: if_splits)
  qed
  with run show ?thesis by auto
qed

lemma removeChannel_unmapped:
  assumes "chans r p = Some c" "m_channels r (m_fd c) \<noteq> Some p"
  shows "removeChannel r p = Inl AssertFailure"
  using assms by (simp add: removeChannel_def Let_def assert_then_def)

text \<open>Forgetting a channel that is not mapped.\<close>

lemma inv_forget:
  assumes "reactor_inv r" "\<forall>fd. m_channels r fd \<noteq> Some p"
  shows "reactor_inv (r\<lparr>chans := (chans r)(p := None)\<rparr>)"
proof -
  have "registered (r\<lparr>chans := (chans r)(p := None)\<rparr>) = registered r"
    using assms(2) by (auto simp: registered_def fun_eq_iff split: option.splits)
  moreover have "q \<noteq> p" if "m_channels r fd = Some q" for fd q
    using that assms(2) by auto
  ultimately show ?thesis
    using assms(1) by (auto simp: reactor_inv_def)
qed

text \<open>
  Whether an address is known to the wrapper or to epoll.
\<close>

definition referenced :: "'cb Reactor \<Rightarrow> nat \<Rightarrow> bool" where
  "referenced r p \<longleftrightarrow> (\<exists>fd. m_channels r fd = Some p) \<or> (\<exists>fd e. interest (ctl_calls r) fd = Some (e, p))"

lemma referenced_mapped: "reactor_inv r \<Longrightarrow> referenced r p \<longleftrightarrow> (\<exists>fd. m_channels r fd = Some p)"
  by (auto simp: referenced_def reactor_inv_registered registered_def split: option.splits if_splits)

lemma referenced_own_fd:
  "reactor_inv r \<Longrightarrow> chans r p = Some c \<Longrightarrow> referenced r p \<longleftrightarrow> m_channels r (m_fd c) = Some p"
  using reactor_inv_mapped [of r] by (fastforce simp: referenced_mapped)

lemma Channel_destroy_effect:
  assumes "reactor_inv r" "chans r p = Some c"
  shows "\<exists>r'. Channel_destroy r p = Inr r' \<and> reactor_inv r' \<and> chans r' p = None \<and> \<not> referenced r' p \<and>
     (\<forall>q. q \<noteq> p \<longrightarrow> chans r' q = chans r q \<and> (referenced r' q \<longleftrightarrow> referenced r q))"
proof (cases "m_channels r (m_fd c) = Some p")
  case True
  let ?fd = "m_fd c"
  have upd: "updatable r p c"
    using reactor_inv_mapped [OF assms(1) True] assms(2) True by (auto simp: updatable_def)
  obtain r1 c1 where r1: "disableAll r p = Inr r1" "reactor_inv r1"
    "m_channels r1 = (m_channels r)(?fd \<mapsto> p)" "chans r1 = (chans r)(p \<mapsto> c1)" "m_fd c1 = ?fd"
    using set_and_update_effect [OF assms upd, of "\<lambda>_. kNoneEvent"] by (auto simp: disableAll_def)
  obtain r2 c2 where r2: "removeChannel r1 p = Inr r2" "reactor_inv r2"
    "m_channels r2 = (m_channels r)(?fd := None)" "chans r2 = (chans r)(p \<mapsto> c2)"
    using removeChannel_effect [OF r1(2), of p c1] r1(3-5) True by auto
  have free: "\<forall>fd. m_channels r2 fd \<noteq> Some p"
    using r2(3) reactor_inv_mapped [OF assms(1), of _ p] assms(2) by auto
  have "Channel_destroy r p = Inr (r2\<lparr>chans := (chans r2)(p := None)\<rparr>)"
    using assms(2) True r1(1) r2(1) by (simp add: Channel_destroy_def hasChannel_def)
  moreover have "(\<exists>fd. m_channels r2 fd = Some q) \<longleftrightarrow> (\<exists>fd. m_channels r fd = Some q)" if "q \<noteq> p" for q
    using that r2(3) True by (metis fun_upd_apply option.distinct(1) option.inject)
  then have "referenced (r2\<lparr>chans := (chans r2)(p := None)\<rparr>) q \<longleftrightarrow> referenced r q" if "q \<noteq> p" for q
    using that referenced_mapped [OF inv_forget [OF r2(2) free]]
      referenced_mapped [OF assms(1)] by simp
  moreover have "\<not> referenced (r2\<lparr>chans := (chans r2)(p := None)\<rparr>) p"
    using referenced_mapped [OF inv_forget [OF r2(2) free]] free by simp
  ultimately show ?thesis
    using inv_forget [OF r2(2) free] r2(4) by auto
next
  case False
  then have free: "\<forall>fd. m_channels r fd \<noteq> Some p"
    using reactor_inv_mapped [OF assms(1), of _ p] assms(2) by auto
  have "Channel_destroy r p = Inr (r\<lparr>chans := (chans r)(p := None)\<rparr>)"
    using assms(2) False by (simp add: Channel_destroy_def hasChannel_def)
  then show ?thesis
    using inv_forget [OF assms(1) free] free referenced_mapped [OF assms(1)]
      referenced_mapped [OF inv_forget [OF assms(1) free]] by auto
qed

text \<open>Polling: the events come from the registrations.\<close>

lemma registered_live:
  "reactor_inv r \<Longrightarrow> interest (ctl_calls r) fd = Some (e, p) \<Longrightarrow> \<exists>c. chans r p = Some c \<and> m_index c = kAdded"
  by (auto simp: reactor_inv_registered registered_def split: option.splits if_splits)

lemma inv_same_registration:
  assumes "reactor_inv r" "chans r p = Some c"
    and "m_fd c' = m_fd c" "m_index c' = m_index c" "m_events c' = m_events c"
  shows "reactor_inv (put_chan r p c')"
proof -
  have "registered (put_chan r p c') = registered r"
    using assms(2-) by (auto simp: registered_def fun_eq_iff split: option.splits)
  then show ?thesis
    using assms reactor_inv_mapped [OF assms(1), of _ p]
    by (auto simp: reactor_inv_def split: if_splits)
qed

lemma inv_setRevents:
  "reactor_inv r \<Longrightarrow> chans r p = Some c \<Longrightarrow> reactor_inv (put_chan r p (setRevents c e))"
  by (erule inv_same_registration) (simp_all add: setRevents_def)

text \<open>A new channel at an address no channel has.\<close>

lemma inv_put_new:
  assumes "reactor_inv r" "chans r p = None" "m_index c = kNew"
  shows "reactor_inv (put_chan r p c)"
proof -
  have unmapped: "m_channels r fd \<noteq> Some p" for fd
    using reactor_inv_mapped [OF assms(1), of fd p] assms(2) by auto
  then have "registered (put_chan r p c) = registered r"
    by (auto simp: registered_def fun_eq_iff split: option.splits)
  then show ?thesis using assms unmapped by (auto simp: reactor_inv_def split: if_splits)
qed

lemma fillActiveChannels_effect:
  assumes "reactor_inv r" "\<forall>(e, p) \<in> set evs. chans r p \<noteq> None"
  shows "\<exists>r'. fillActiveChannels r evs active = Inr (r', active @ map snd evs) \<and> reactor_inv r' \<and>
     m_channels r' = m_channels r \<and> ctl_calls r' = ctl_calls r \<and>
     (\<forall>p. (chans r' p = None) = (chans r p = None))"
  using assms
proof (induction evs arbitrary: r active)
  case (Cons ev evs)
  obtain e p where ev: "ev = (e, p)" by fastforce
  with Cons.prems obtain c where c: "chans r p = Some c" by auto
  let ?r = "put_chan r p (setRevents c e)"
  have "\<forall>(e, p) \<in> set evs. chans ?r p \<noteq> None"
    using Cons.prems(2) by auto
  from Cons.IH [OF inv_setRevents [OF Cons.prems(1) c] this, of "active @ [p]"] c ev
  show ?case by auto
qed auto

text \<open>Event masks.\<close>

lemma mask_values: "kReadEvent = 3" "kWriteEvent = 4"
  by (simp_all add: event_masks)

lemma or_and_self: "(e OR m) AND m = (m :: 32 word)"
  by (rule bit_word_eqI) (auto simp: bit_simps)

lemma mask_simps:
  "(e OR kReadEvent) AND kReadEvent = kReadEvent" "(e OR kReadEvent) AND kWriteEvent = e AND kWriteEvent"
  "(e OR kWriteEvent) AND kWriteEvent = kWriteEvent" "(e OR kWriteEvent) AND kReadEvent = e AND kReadEvent"
  "e AND NOT kReadEvent AND kReadEvent = 0" "e AND NOT kReadEvent AND kWriteEvent = e AND kWriteEvent"
  "e AND NOT kWriteEvent AND kWriteEvent = 0" "e AND NOT kWriteEvent AND kReadEvent = e AND kReadEvent"
  "kReadEvent \<noteq> 0" "kWriteEvent \<noteq> 0"
  by (simp_all only: or_and_self) (simp_all add: mask_values bit.conj_disj_distrib2 and.assoc)

lemma mask_nonzero: "e OR kReadEvent \<noteq> 0" "e OR kWriteEvent \<noteq> 0"
  using mask_simps(1,3,9,10) by (metis and_zero_eq bit.conj_zero_left)+

section \<open>The poller interface\<close>

text \<open>
  What the owner of a channel relies on.  \<open>watch r p\<close> is the mask epoll reports on for the
  channel at \<open>p\<close>, \<open>held r p\<close> whether the wrapper or epoll holds its address.
\<close>

locale poller =
  fixes inv :: "'r \<Rightarrow> bool"
    and ready :: "'r \<Rightarrow> nat \<Rightarrow> bool"
    and held :: "'r \<Rightarrow> nat \<Rightarrow> bool"
    and set_mask :: "(32 word \<Rightarrow> 32 word) \<Rightarrow> 'r \<Rightarrow> nat \<Rightarrow> 'r result"
    and remove :: "'r \<Rightarrow> nat \<Rightarrow> 'r result"
  assumes set_mask_law: "inv r \<Longrightarrow> ready r p \<Longrightarrow>
      \<exists>r'. set_mask f r p = Inr r' \<and> inv r' \<and> held r' p \<and> ready r' p"
    and remove_law: "inv r \<Longrightarrow> held r p \<Longrightarrow> \<exists>r'. remove r p = Inr r' \<and> inv r' \<and> \<not> held r' p"
begin

text \<open>Shutting a channel down, as the connection and the channel's destructor do it.\<close>

lemma disable_then_remove:
  assumes "inv r" "ready r p"
  shows "\<exists>r'. res_bind (set_mask f r p) (\<lambda>r1. remove r1 p) = Inr r' \<and> inv r' \<and> \<not> held r' p"
proof -
  obtain r1 where "set_mask f r p = Inr r1" "inv r1" "held r1 p"
    using set_mask_law [OF assms] by blast
  then show ?thesis
    using remove_law by auto
qed

text \<open>Any number of mask changes.\<close>

lemma set_masks:
  assumes "inv r" "ready r p"
  shows "\<exists>r'. foldl (\<lambda>s f. res_bind s (\<lambda>r. set_mask f r p)) (Inr r) fs = Inr r' \<and> inv r' \<and> ready r' p"
  using assms
proof (induction fs arbitrary: r)
  case (Cons f fs)
  then obtain r1 where "set_mask f r p = Inr r1" "inv r1" "ready r1 p"
    using set_mask_law [OF Cons.prems] by blast
  then show ?case
    using Cons.IH by simp
qed simp

end

definition chan_ready :: "'cb Reactor \<Rightarrow> nat \<Rightarrow> bool" where
  "chan_ready r p \<longleftrightarrow> (\<exists>c. chans r p = Some c \<and> updatable r p c)"

definition chan_held :: "'cb Reactor \<Rightarrow> nat \<Rightarrow> bool" where
  "chan_held r p \<longleftrightarrow> (\<exists>c. chans r p = Some c) \<and> referenced r p"

interpretation epoll: poller reactor_inv chan_ready chan_held set_and_update removeChannel
proof
  fix r :: "'cb Reactor" and p f
  assume inv: "reactor_inv r" and "chan_ready r p"
  then obtain c where c: "chans r p = Some c" "updatable r p c"
    by (auto simp: chan_ready_def)
  obtain r' c' where "set_and_update f r p = Inr r'" "reactor_inv r'"
    "m_channels r' (m_fd c) = Some p" "chans r' p = Some c'" "m_fd c' = m_fd c" "m_index c' \<noteq> kNew"
    using set_and_update_effect [OF inv c, of f] by (auto simp: index_after_def)
  then show "\<exists>r'. set_and_update f r p = Inr r' \<and> reactor_inv r' \<and> chan_held r' p \<and> chan_ready r' p"
    by (auto simp: chan_held_def chan_ready_def referenced_def updatable_def)
next
  fix r :: "'cb Reactor" and p
  assume inv: "reactor_inv r" and "chan_held r p"
  then obtain c where c: "chans r p = Some c" "m_channels r (m_fd c) = Some p"
    by (auto simp: chan_held_def referenced_own_fd)
  obtain r' c' where "removeChannel r p = Inr r'" "reactor_inv r'" "chans r' p = Some c'"
    "m_fd c' = m_fd c" "m_channels r' (m_fd c) = None"
    using removeChannel_effect [OF inv c] by auto
  then show "\<exists>r'. removeChannel r p = Inr r' \<and> reactor_inv r' \<and> \<not> chan_held r' p"
    by (auto simp: chan_held_def referenced_own_fd)
qed

lemma set_and_update_interest:
  assumes "reactor_inv r" "chans r p = Some c" "updatable r p c"
  shows "\<exists>r'. set_and_update f r p = Inr r' \<and> reactor_inv r' \<and>
     interest (ctl_calls r') = (interest (ctl_calls r))
       (m_fd c := if index_after c (f (m_events c)) = kAdded then Some (f (m_events c), p) else None)"
proof -
  let ?c' = "c\<lparr>m_events := f (m_events c), m_index := index_after c (f (m_events c))\<rparr>"
  obtain r' where r': "set_and_update f r p = Inr r'" "reactor_inv r'"
    "m_channels r' = (m_channels r)(m_fd c \<mapsto> p)" "chans r' = (chans r)(p \<mapsto> ?c')"
    using set_and_update_effect [OF assms, of f] by blast
  have "m_channels r (m_fd c) \<in> {None, Some p}"
    using assms(3) reactor_inv_added [OF assms(1,2)] by (cases "m_index c") (auto simp: updatable_def)
  from registered_replace [OF assms(1) this assms(2) refl, of ?c' r'] r'
  show ?thesis
    by (auto simp: reactor_inv_registered [OF assms(1)] reactor_inv_registered [OF r'(2)])
qed

lemmas mask_op_defs = enableReading_def enableWriting_def disableReading_def disableWriting_def
  disableAll_def

section \<open>Properties\<close>

text \<open>Every mask operation of a channel that is new on a free descriptor, or still mapped,
  succeeds and makes only \<open>epoll_ctl\<close> calls that cannot fail; afterwards epoll watches the
  channel's descriptor with exactly the new mask and the channel's own address, or not at all
  when an added channel's mask became empty, and no other registration changed.\<close>

theorem mask_ops_register:
  assumes "reactor_inv r" and "chans r p = Some c" and "updatable r p c"
    and "(op, f) \<in> {(enableReading, \<lambda>e. e OR kReadEvent), (enableWriting, \<lambda>e. e OR kWriteEvent),
           (disableReading, \<lambda>e. e AND NOT kReadEvent), (disableWriting, \<lambda>e. e AND NOT kWriteEvent),
           (disableAll, \<lambda>_. kNoneEvent)}"
  shows "\<exists>r'. op r p = Inr r' \<and> reactor_inv r' \<and>
     interest (ctl_calls r') = (interest (ctl_calls r))
       (m_fd c := if m_index c = kAdded \<and> f (m_events c) = 0 then None else Some (f (m_events c), p))"
proof -
  have "op = set_and_update f"
    using assms(4) by (auto simp: mask_op_defs)
  then show ?thesis
    using set_and_update_interest [OF assms(1-3), of f] by (auto simp: index_after_def)
qed

definition one_channel :: "unit Reactor" where
  "one_channel = put_chan Reactor_new 100 (Channel_new 7)"

lemma one_channel_inv: "reactor_inv one_channel" "chans one_channel 100 = Some (Channel_new 7)"
  "updatable one_channel 100 (Channel_new 7)"
  by (auto simp: one_channel_def reactor_inv_def Reactor_new_def registered_def interest_def
      calls_ok_def Channel_new_def updatable_def)

theorem mask_ops_register_witness:
  "\<exists>r'. enableReading one_channel 100 = Inr r' \<and> reactor_inv r' \<and>
     interest (ctl_calls r') 7 = Some (3, 100)"
  using mask_ops_register [OF one_channel_inv, of enableReading "\<lambda>e. e OR kReadEvent"]
  by (auto simp: Channel_new_def mask_values)

text \<open>C14: destroying a channel in any state always succeeds, and afterwards neither the
  wrapper's map nor the epoll registrations hold its address, while every other channel and
  every reference to it is as before.\<close>

theorem destroy_leaves_no_reference:
  assumes "reactor_inv r" and "chans r p = Some c"
  shows "\<exists>r'. Channel_destroy r p = Inr r' \<and> reactor_inv r' \<and> chans r' p = None \<and> \<not> referenced r' p \<and>
     (\<forall>q. q \<noteq> p \<longrightarrow> chans r' q = chans r q \<and> (referenced r' q \<longleftrightarrow> referenced r q))"
  using Channel_destroy_effect [OF assms] .

theorem destroy_leaves_no_reference_witness:
  "\<exists>r r'. enableReading one_channel 100 = Inr r \<and> referenced r 100 \<and>
     Channel_destroy r 100 = Inr r' \<and> \<not> referenced r' 100"
proof -
  obtain r where r: "enableReading one_channel 100 = Inr r" "reactor_inv r" "chan_held r 100"
    using epoll.set_mask_law [OF one_channel_inv(1), of 100 "\<lambda>e. e OR kReadEvent"] one_channel_inv
    by (auto simp: chan_ready_def enableReading_def)
  then obtain c where "chans r 100 = Some c" "referenced r 100"
    by (auto simp: chan_held_def)
  with destroy_leaves_no_reference [OF r(2) this(1)] r(1) show ?thesis by blast
qed

text \<open>Polling never follows a dangling pointer: if the events come from epoll's
  registrations, every channel they point to is live, the active list is exactly the list of
  reported channels, in order, behind what it held, and the invariant is kept.\<close>

theorem poll_follows_live_channels:
  assumes "reactor_inv r"
    and "\<forall>(e, p) \<in> set evs. \<exists>fd m. interest (ctl_calls r) fd = Some (m, p)"
  shows "\<exists>r'. epoller_poll r (Inr evs) active = Inr (r', active @ map snd evs) \<and> reactor_inv r'"
proof -
  have "\<forall>(e, p) \<in> set evs. chans r p \<noteq> None"
    using assms(2) registered_live [OF assms(1)] by fastforce
  then show ?thesis
    using fillActiveChannels_effect [OF assms(1)] by (fastforce simp: epoller_poll_def)
qed

theorem poll_follows_live_channels_witness:
  "\<exists>r r'. enableReading one_channel 100 = Inr r \<and>
     epoller_poll r (Inr [(EPOLLIN, 100)]) [] = Inr (r', [100])"
proof -
  obtain r where r: "enableReading one_channel 100 = Inr r" "reactor_inv r"
    "interest (ctl_calls r) 7 = Some (3, 100)"
    using set_and_update_interest [OF one_channel_inv, of "\<lambda>e. e OR kReadEvent"]
    by (auto simp: enableReading_def Channel_new_def index_after_def mask_values)
  then have "\<forall>(e, p) \<in> set [(EPOLLIN, 100)]. \<exists>fd m. interest (ctl_calls r) fd = Some (m, p)"
    by auto
  with poll_follows_live_channels [OF r(2) this, of "[]"] r(1) show ?thesis by auto
qed

end
