(* ===== verification/EventLoops.thy ===== *)
theory EventLoops
  imports Channels
begin

text \<open>
  The event loop, \<open>Net/eventloop.h\<close> and \<open>Net/eventloop.cpp\<close>: its functor queue, its
  wake-up protocol and the dispatch of events to channels.  Functors and channel callbacks are
  values of arbitrary types; running them is a parameter.  The eventfd is the number of
  wake-up writes since it was last read.  The second half models the loop thread and any number
  of other threads as a step relation at the granularity of the mutex sections and system calls.
\<close>

section \<open>State and operations\<close>

record ('cb, 'f) EventLoop =
  m_looping :: bool
  m_thread_id :: nat
  m_epoller :: "'cb Reactor"
  m_wakeup_fd :: int
  m_wakeup_channel :: nat
  m_calling_pending_functors :: bool
  m_active_channels :: "nat list"
  m_pending_functors :: "'f list"
  wakeup_writes :: nat

text \<open>
  The constructor gets the current thread, the descriptor \<open>eventfd\<close> returned, the address
  the wake-up channel was allocated at and the bound \<open>handleRead\<close>.  The timer's channel,
  which the constructor also makes, is not registered before the first timer is added.
\<close>

definition EventLoop_new :: "nat \<Rightarrow> int \<Rightarrow> nat \<Rightarrow> 'cb \<Rightarrow> ('cb, 'f) EventLoop result" where
  "EventLoop_new tid efd chan handle_read =
     assert_then (efd > 0)
       (res_bind (enableReading
          (put_chan Reactor_new chan (setReadCallback handle_read (Channel_new efd))) chan)
         (\<lambda>ep. Inr \<lparr>m_looping = False, m_thread_id = tid, m_epoller = ep, m_wakeup_fd = efd,
            m_wakeup_channel = chan, m_calling_pending_functors = False, m_active_channels = [],
            m_pending_functors = [], wakeup_writes = 0\<rparr>))"

text \<open>The second argument of the operations below is the calling thread.\<close>

definition isInLoopThread :: "('cb, 'f) EventLoop \<Rightarrow> nat \<Rightarrow> bool" where
  "isInLoopThread l tid \<longleftrightarrow> m_thread_id l = tid"

definition assertInLoopThread :: "('cb, 'f) EventLoop \<Rightarrow> nat \<Rightarrow> unit result" where
  "assertInLoopThread l tid = (if \<not> isInLoopThread l tid then Inl AbortCalled else Inr ())"

definition loop_update :: "('cb, 'f) EventLoop \<Rightarrow> nat \<Rightarrow> ('cb, 'f) EventLoop result" where
  "loop_update l p = res_bind (updateChannel (m_epoller l) p) (\<lambda>r. Inr (l\<lparr>m_epoller := r\<rparr>))"

definition loop_remove :: "('cb, 'f) EventLoop \<Rightarrow> nat \<Rightarrow> ('cb, 'f) EventLoop result" where
  "loop_remove l p = res_bind (removeChannel (m_epoller l) p) (\<lambda>r. Inr (l\<lparr>m_epoller := r\<rparr>))"

definition loop_hasChannel :: "('cb, 'f) EventLoop \<Rightarrow> nat \<Rightarrow> bool result" where
  "loop_hasChannel l p = hasChannel (m_epoller l) p"

definition wakeup :: "('cb, 'f) EventLoop \<Rightarrow> ('cb, 'f) EventLoop" where
  "wakeup l = l\<lparr>wakeup_writes := wakeup_writes l + 1\<rparr>"

definition handleRead_wakeup :: "('cb, 'f) EventLoop \<Rightarrow> ('cb, 'f) EventLoop" where
  "handleRead_wakeup l = l\<lparr>wakeup_writes := 0\<rparr>"

definition quit :: "('cb, 'f) EventLoop \<Rightarrow> nat \<Rightarrow> ('cb, 'f) EventLoop" where
  "quit l tid =
     (let l1 = l\<lparr>m_looping := False\<rparr> in if \<not> isInLoopThread l1 tid then wakeup l1 else l1)"

text \<open>The section of \<open>queueInLoop\<close> under the lock, and the whole function.\<close>

definition push_functor :: "('cb, 'f) EventLoop \<Rightarrow> 'f \<Rightarrow> ('cb, 'f) EventLoop" where
  "push_functor l cb = l\<lparr>m_pending_functors := m_pending_functors l @ [cb]\<rparr>"

definition queueInLoop :: "('cb, 'f) EventLoop \<Rightarrow> nat \<Rightarrow> 'f \<Rightarrow> ('cb, 'f) EventLoop" where
  "queueInLoop l tid cb =
     (let l1 = push_functor l cb
      in if \<not> isInLoopThread l1 tid \<or> m_calling_pending_functors l1 then wakeup l1 else l1)"

definition runInLoop ::
  "('f \<Rightarrow> ('cb, 'f) EventLoop \<Rightarrow> ('cb, 'f) EventLoop result) \<Rightarrow>
   ('cb, 'f) EventLoop \<Rightarrow> nat \<Rightarrow> 'f \<Rightarrow> ('cb, 'f) EventLoop result" where
  "runInLoop run l tid cb =
     (if isInLoopThread l tid then run cb l else Inr (queueInLoop l tid cb))"

text \<open>\<open>doPendingFunctors\<close>: the swap under the lock, then the functors in order.\<close>

definition swap_functors :: "('cb, 'f) EventLoop \<Rightarrow> 'f list \<times> ('cb, 'f) EventLoop" where
  "swap_functors l = (m_pending_functors l, l\<lparr>m_pending_functors := []\<rparr>)"

fun run_all :: "('g \<Rightarrow> 's \<Rightarrow> 's result) \<Rightarrow> 'g list \<Rightarrow> 's \<Rightarrow> 's result" where
  "run_all run [] s = Inr s"
| "run_all run (f # fs) s = res_bind (run f s) (run_all run fs)"

definition doPendingFunctors ::
  "('f \<Rightarrow> ('cb, 'f) EventLoop \<Rightarrow> ('cb, 'f) EventLoop result) \<Rightarrow>
   ('cb, 'f) EventLoop \<Rightarrow> ('cb, 'f) EventLoop result" where
  "doPendingFunctors run l =
     (let l1 = l\<lparr>m_calling_pending_functors := True\<rparr>;
          (functors, l2) = swap_functors l1
      in res_bind (run_all run functors l2)
           (\<lambda>l3. Inr (l3\<lparr>m_calling_pending_functors := False\<rparr>)))"

text \<open>
  One round of \<open>loop\<close>: \<open>wait\<close> is what \<open>epoll_wait\<close> returned, \<open>alive\<close> says
  which tied objects can still be locked, \<open>call\<close> runs a channel callback.  The loop over the
  active channels dereferences each pointer when it gets there, so a channel that an earlier
  callback destroyed is an access to freed memory.
\<close>

definition handle_channel ::
  "(nat \<Rightarrow> bool) \<Rightarrow> ('cb \<Rightarrow> ('cb, 'f) EventLoop \<Rightarrow> ('cb, 'f) EventLoop result) \<Rightarrow>
   nat \<Rightarrow> ('cb, 'f) EventLoop \<Rightarrow> ('cb, 'f) EventLoop result" where
  "handle_channel alive call p l =
     res_bind (deref (m_epoller l) p) (\<lambda>c. run_all call (handleEvent alive c) l)"

definition loop_once ::
  "(nat \<Rightarrow> bool) \<Rightarrow> ('cb \<Rightarrow> ('cb, 'f) EventLoop \<Rightarrow> ('cb, 'f) EventLoop result) \<Rightarrow>
   ('f \<Rightarrow> ('cb, 'f) EventLoop \<Rightarrow> ('cb, 'f) EventLoop result) \<Rightarrow>
   errno + (32 word \<times> nat) list \<Rightarrow> ('cb, 'f) EventLoop \<Rightarrow> ('cb, 'f) EventLoop result" where
  "loop_once alive call run wait l =
     res_bind (epoller_poll (m_epoller l) wait []) (\<lambda>(ep, active).
       res_bind (run_all (handle_channel alive call) active
                   (l\<lparr>m_epoller := ep, m_active_channels := active\<rparr>))
         (doPendingFunctors run))"

text \<open>
  The whole function, for a finite sequence of \<open>epoll_wait\<close> results: it returns when
  \<open>m_looping\<close> is false, and blocks, which the flag \<open>False\<close> says, when there are no more.
\<close>

fun loop_rounds ::
  "(nat \<Rightarrow> bool) \<Rightarrow> ('cb \<Rightarrow> ('cb, 'f) EventLoop \<Rightarrow> ('cb, 'f) EventLoop result) \<Rightarrow>
   ('f \<Rightarrow> ('cb, 'f) EventLoop \<Rightarrow> ('cb, 'f) EventLoop result) \<Rightarrow>
   (errno + (32 word \<times> nat) list) list \<Rightarrow> ('cb, 'f) EventLoop \<Rightarrow>
   (bool \<times> ('cb, 'f) EventLoop) result" where
  "loop_rounds alive call run [] l = Inr (\<not> m_looping l, l)"
| "loop_rounds alive call run (w # ws) l =
     (if m_looping l
      then res_bind (loop_once alive call run w l) (loop_rounds alive call run ws)
      else Inr (True, l))"

definition EventLoop_loop ::
  "(nat \<Rightarrow> bool) \<Rightarrow> ('cb \<Rightarrow> ('cb, 'f) EventLoop \<Rightarrow> ('cb, 'f) EventLoop result) \<Rightarrow>
   ('f \<Rightarrow> ('cb, 'f) EventLoop \<Rightarrow> ('cb, 'f) EventLoop result) \<Rightarrow>
   (errno + (32 word \<times> nat) list) list \<Rightarrow> ('cb, 'f) EventLoop \<Rightarrow> nat \<Rightarrow>
   (bool \<times> ('cb, 'f) EventLoop) result" where
  "EventLoop_loop alive call run waits l tid =
     assert_then (isInLoopThread l tid)
       (loop_rounds alive call run waits (l\<lparr>m_looping := True\<rparr>))"

section \<open>Threads\<close>

text \<open>
  Where the loop thread is: before \<open>loop()\<close>, before its test of \<open>m_looping\<close>, blocked in
  \<open>epoll_wait\<close>, handling the reported events (the flag says that the wake-up channel is
  among those still to be handled), after setting \<open>m_calling_pending_functors\<close> but before
  the swap, running the swapped functors, or past the loop.  \<open>notifying\<close> counts the other
  threads between the lock section of \<open>queueInLoop\<close> (or the store of \<open>quit\<close>) and their
  wake-up write.  \<open>queued\<close> and \<open>executed\<close> record the history.
\<close>

datatype 'f pc = Created | AtTest | Polling | Handling bool | BeforeSwap | Running "'f list" | Returned

record ('cb, 'f) loop_sys =
  lp :: "('cb, 'f) EventLoop"
  pc :: "'f pc"
  notifying :: nat
  queued :: "'f list"
  executed :: "'f list"

definition sys_new :: "('cb, 'f) EventLoop \<Rightarrow> ('cb, 'f) loop_sys" where
  "sys_new l = \<lparr>lp = l, pc = Created, notifying = 0, queued = [], executed = []\<rparr>"

text \<open>
  What the loop thread does next by itself, if it does anything: with no other descriptor ready
  it leaves \<open>epoll_wait\<close>, which has no timeout, only when the eventfd is readable.
\<close>

fun loop_thread_pc :: "'f pc \<Rightarrow> ('cb, 'f) loop_sys \<Rightarrow> ('cb, 'f) loop_sys option" where
  "loop_thread_pc Created s = Some (s\<lparr>lp := (lp s)\<lparr>m_looping := True\<rparr>, pc := AtTest\<rparr>)"
| "loop_thread_pc AtTest s = Some (s\<lparr>pc := (if m_looping (lp s) then Polling else Returned)\<rparr>)"
| "loop_thread_pc Polling s =
     (if wakeup_writes (lp s) > 0 then Some (s\<lparr>pc := Handling True\<rparr>) else None)"
| "loop_thread_pc (Handling w) s =
     (if w then Some (s\<lparr>lp := handleRead_wakeup (lp s), pc := Handling False\<rparr>)
      else Some (s\<lparr>lp := (lp s)\<lparr>m_calling_pending_functors := True\<rparr>, pc := BeforeSwap\<rparr>))"
| "loop_thread_pc BeforeSwap s =
     (let (fs, l) = swap_functors (lp s) in Some (s\<lparr>lp := l, pc := Running fs\<rparr>))"
| "loop_thread_pc (Running fs) s =
     (case fs of
        [] \<Rightarrow> Some (s\<lparr>lp := (lp s)\<lparr>m_calling_pending_functors := False\<rparr>, pc := AtTest\<rparr>)
      | f # rest \<Rightarrow> Some (s\<lparr>pc := Running rest, executed := executed s @ [f]\<rparr>))"
| "loop_thread_pc Returned s = None"

definition loop_thread :: "('cb, 'f) loop_sys \<Rightarrow> ('cb, 'f) loop_sys option" where
  "loop_thread s = loop_thread_pc (pc s) s"

text \<open>
  The steps of the whole system: another thread queues a functor or asks the loop to quit, each
  in two steps; \<open>epoll_wait\<close> returns because of another descriptor, with or without the
  eventfd; a handler or a functor of the loop thread queues another functor or quits.
\<close>

fun in_callback :: "'f pc \<Rightarrow> bool" where
  "in_callback (Handling _) = True"
| "in_callback (Running _) = True"
| "in_callback _ = False"

inductive loop_step :: "('cb, 'f) loop_sys \<Rightarrow> ('cb, 'f) loop_sys \<Rightarrow> bool" where
  self: "loop_thread s = Some t \<Longrightarrow> loop_step s t"
| poll_other: "pc s = Polling \<Longrightarrow> (w \<longrightarrow> wakeup_writes (lp s) > 0) \<Longrightarrow>
     loop_step s (s\<lparr>pc := Handling w\<rparr>)"
| own_queue: "in_callback (pc s) \<Longrightarrow>
     loop_step s (s\<lparr>lp := queueInLoop (lp s) (m_thread_id (lp s)) f, queued := queued s @ [f]\<rparr>)"
| own_quit: "in_callback (pc s) \<Longrightarrow>
     loop_step s (s\<lparr>lp := quit (lp s) (m_thread_id (lp s))\<rparr>)"
| other_push: "loop_step s (s\<lparr>lp := push_functor (lp s) f, queued := queued s @ [f],
     notifying := notifying s + 1\<rparr>)"
| other_quit: "loop_step s (s\<lparr>lp := (lp s)\<lparr>m_looping := False\<rparr>, notifying := notifying s + 1\<rparr>)"
| other_wakeup: "notifying s > 0 \<Longrightarrow>
     loop_step s (s\<lparr>lp := wakeup (lp s), notifying := notifying s - 1\<rparr>)"

inductive loop_reach :: "nat \<Rightarrow> ('cb, 'f) loop_sys \<Rightarrow> bool" for tid where
  start: "EventLoop_new tid efd chan cb = Inr l \<Longrightarrow> loop_reach tid (sys_new l)"
| step: "loop_reach tid s \<Longrightarrow> loop_step s t \<Longrightarrow> loop_reach tid t"

inductive_cases loop_step_elim: "loop_step s t"

fun running :: "'f pc \<Rightarrow> 'f list" where
  "running (Running fs) = fs"
| "running _ = []"

fun iterate :: "nat \<Rightarrow> ('s \<Rightarrow> 's option) \<Rightarrow> 's \<Rightarrow> 's option" where
  "iterate 0 f s = Some s"
| "iterate (Suc n) f s = (case f s of None \<Rightarrow> None | Some t \<Rightarrow> iterate n f t)"

section \<open>Invariant\<close>

text \<open>
  The flag \<open>m_calling_pending_functors\<close> is set exactly between the handling and the end of
  the functors; nothing is lost or duplicated; where the loop thread will not swap before it
  blocks again, queued functors come with a wake-up write made or about to be made; and so does
  a quit request that finds the loop thread blocked.
\<close>

definition unswapped :: "'f pc \<Rightarrow> bool" where
  "unswapped c \<longleftrightarrow> c = Created \<or> c = AtTest \<or> c = Polling \<or> (\<exists>fs. c = Running fs)"

definition loop_inv :: "('cb, 'f) loop_sys \<Rightarrow> bool" where
  "loop_inv s \<longleftrightarrow>
     (m_calling_pending_functors (lp s) \<longleftrightarrow> (\<exists>fs. pc s = BeforeSwap \<or> pc s = Running fs)) \<and>
     queued s = executed s @ running (pc s) @ m_pending_functors (lp s) \<and>
     (unswapped (pc s) \<longrightarrow> m_pending_functors (lp s) \<noteq> [] \<longrightarrow>
        wakeup_writes (lp s) > 0 \<or> notifying s > 0) \<and>
     (pc s = Polling \<longrightarrow> \<not> m_looping (lp s) \<longrightarrow> wakeup_writes (lp s) > 0 \<or> notifying s > 0)"

lemmas loop_op_defs = push_functor_def wakeup_def handleRead_wakeup_def queueInLoop_def quit_def
  isInLoopThread_def swap_functors_def Let_def

lemma loop_inv_start: "EventLoop_new tid efd chan cb = Inr l \<Longrightarrow> loop_inv (sys_new l)"
  by (auto simp: loop_inv_def sys_new_def EventLoop_new_def res_simps)

lemma loop_thread_inv: "loop_thread s = Some t \<Longrightarrow> loop_inv s \<Longrightarrow> loop_inv t"
  by (cases "pc s")
    (auto simp: loop_thread_def loop_inv_def unswapped_def loop_op_defs split: if_splits list.splits)

lemma in_callback_cases: "in_callback c \<longleftrightarrow> (\<exists>w. c = Handling w) \<or> (\<exists>fs. c = Running fs)"
  by (cases c) auto

lemma own_queue_inv:
  "in_callback (pc s) \<Longrightarrow> loop_inv s \<Longrightarrow>
   loop_inv (s\<lparr>lp := queueInLoop (lp s) (m_thread_id (lp s)) f, queued := queued s @ [f]\<rparr>)"
  by (cases "pc s") (simp_all add: loop_inv_def unswapped_def loop_op_defs)

lemma own_quit_inv:
  "in_callback (pc s) \<Longrightarrow> loop_inv s \<Longrightarrow> loop_inv (s\<lparr>lp := quit (lp s) (m_thread_id (lp s))\<rparr>)"
  by (cases "pc s") (simp_all add: loop_inv_def unswapped_def loop_op_defs)

lemma loop_step_inv: "loop_step s t \<Longrightarrow> loop_inv s \<Longrightarrow> loop_inv t"
  by (induction rule: loop_step.induct)
    (simp_all add: loop_thread_inv own_queue_inv own_quit_inv,
     simp_all add: loop_inv_def unswapped_def loop_op_defs)

lemma loop_reach_inv: "loop_reach tid s \<Longrightarrow> loop_inv s"
  by (induction rule: loop_reach.induct) (auto intro: loop_inv_start loop_step_inv)

section \<open>The loop thread on its own\<close>

definition leads :: "('cb, 'f) loop_sys \<Rightarrow> ('cb, 'f) loop_sys \<Rightarrow> bool" where
  "leads s t \<longleftrightarrow> (\<exists>n. iterate n loop_thread s = Some t)"

lemma leads_refl: "leads s s"
  unfolding leads_def by (rule exI [of _ 0]) simp

lemma leads_step: "loop_thread s = Some u \<Longrightarrow> leads u t \<Longrightarrow> leads s t"
  unfolding leads_def
proof (elim exE)
  fix n assume "loop_thread s = Some u" "iterate n loop_thread u = Some t"
  then show "\<exists>n. iterate n loop_thread s = Some t" by (intro exI [of _ "Suc n"]) simp
qed

lemma iterate_add:
  "iterate (m + n) f s = (case iterate m f s of None \<Rightarrow> None | Some t \<Rightarrow> iterate n f t)"
  by (induction m arbitrary: s) (auto split: option.splits)

lemma leads_trans: "leads s t \<Longrightarrow> leads t u \<Longrightarrow> leads s u"
  unfolding leads_def
proof (elim exE)
  fix m n assume "iterate m loop_thread s = Some t" "iterate n loop_thread t = Some u"
  then show "\<exists>n. iterate n loop_thread s = Some u"
    by (intro exI [of _ "m + n"]) (simp add: iterate_add)
qed

lemma leads_inv: "leads s t \<Longrightarrow> loop_inv s \<Longrightarrow> loop_inv t"
proof -
  have "iterate n loop_thread s = Some t \<Longrightarrow> loop_inv s \<Longrightarrow> loop_inv t" for n s
    by (induction n arbitrary: s) (auto split: option.splits dest: loop_thread_inv)
  then show "leads s t \<Longrightarrow> loop_inv s \<Longrightarrow> loop_inv t" by (auto simp: leads_def)
qed

lemma leads_running:
  "pc s = Running fs \<Longrightarrow>
   leads s (s\<lparr>lp := (lp s)\<lparr>m_calling_pending_functors := False\<rparr>, pc := AtTest,
              executed := executed s @ fs\<rparr>)"
proof (induction fs arbitrary: s)
  case Nil
  then show ?case by (intro leads_step [OF _ leads_refl]) (simp add: loop_thread_def)
next
  case (Cons f fs)
  then have "loop_thread s = Some (s\<lparr>pc := Running fs, executed := executed s @ [f]\<rparr>)"
    by (simp add: loop_thread_def)
  from leads_step [OF this] Cons.IH [of "s\<lparr>pc := Running fs, executed := executed s @ [f]\<rparr>"]
  show ?case by simp
qed

lemma leads_swap:
  assumes "pc s = BeforeSwap"
  shows "leads s (s\<lparr>lp := (lp s)\<lparr>m_pending_functors := [], m_calling_pending_functors := False\<rparr>,
     pc := AtTest, executed := executed s @ m_pending_functors (lp s)\<rparr>)"
proof -
  let ?u = "s\<lparr>lp := (lp s)\<lparr>m_pending_functors := []\<rparr>, pc := Running (m_pending_functors (lp s))\<rparr>"
  have "loop_thread s = Some ?u" using assms by (simp add: loop_thread_def swap_functors_def)
  from leads_step [OF this] leads_running [of ?u "m_pending_functors (lp s)"] show ?thesis by simp
qed

text \<open>Once events are being handled, the thread swaps, runs everything and is back at its test.\<close>

definition drained :: "('cb, 'f) loop_sys \<Rightarrow> ('cb, 'f) loop_sys \<Rightarrow> bool" where
  "drained s t \<longleftrightarrow> pc t = AtTest \<and> executed t = queued s \<and> queued t = queued s \<and>
     m_pending_functors (lp t) = [] \<and> m_looping (lp t) = m_looping (lp s) \<and> notifying t = notifying s"

lemma drained_from_swap:
  "pc s = BeforeSwap \<Longrightarrow> loop_inv s \<Longrightarrow> \<exists>t. leads s t \<and> drained s t"
  by (intro exI conjI, erule leads_swap) (simp add: drained_def loop_inv_def)

lemma drained_step:
  assumes "loop_thread s = Some u" "loop_inv s" "loop_inv u \<Longrightarrow> \<exists>t. leads u t \<and> drained u t"
    and "queued u = queued s" "m_looping (lp u) = m_looping (lp s)" "notifying u = notifying s"
  shows "\<exists>t. leads s t \<and> drained s t"
proof -
  obtain t where "leads u t" "drained u t" using assms loop_thread_inv by blast
  then have "leads s t" "drained s t"
    using leads_step [OF assms(1)] assms(4-6) by (simp_all add: drained_def)
  then show ?thesis by blast
qed

lemma drained_from_handling:
  fixes s :: "('cb, 'f) loop_sys"
  shows "pc s = Handling w \<Longrightarrow> loop_inv s \<Longrightarrow> \<exists>t. leads s t \<and> drained s t"
proof -
  have swap: "\<exists>t. leads s t \<and> drained s t" if "pc s = Handling False" "loop_inv s"
    for s :: "('cb, 'f) loop_sys"
    by (rule drained_step [of s "s\<lparr>lp := (lp s)\<lparr>m_calling_pending_functors := True\<rparr>, pc := BeforeSwap\<rparr>"])
      (use that in \<open>simp_all add: loop_thread_def drained_from_swap\<close>)
  assume s: "pc s = Handling w" "loop_inv s"
  show ?thesis
  proof (cases w)
    case True
    let ?u = "s\<lparr>lp := handleRead_wakeup (lp s), pc := Handling False\<rparr>"
    show ?thesis
    proof (rule drained_step [of s ?u])
      show "\<exists>t. leads ?u t \<and> drained ?u t" if "loop_inv ?u"
        using that by (intro swap) simp_all
    qed (use True s in \<open>simp_all add: loop_thread_def handleRead_wakeup_def\<close>)
  qed (use swap s in simp)
qed

lemma drained_from_poll:
  assumes "pc s = Polling" "loop_inv s" "wakeup_writes (lp s) > 0"
  shows "\<exists>t. leads s t \<and> drained s t"
  by (rule drained_step [of s "s\<lparr>pc := Handling True\<rparr>"])
    (use assms in \<open>simp_all add: loop_thread_def drained_from_handling\<close>)

lemma drained_from_test:
  assumes "pc s = AtTest" "loop_inv s" "m_looping (lp s)" "wakeup_writes (lp s) > 0"
  shows "\<exists>t. leads s t \<and> drained s t"
  by (rule drained_step [of s "s\<lparr>pc := Polling\<rparr>"])
    (use assms in \<open>simp_all add: loop_thread_def drained_from_poll\<close>)

text \<open>At its test with the loop on and no notification under way, nothing stays pending.\<close>

lemma progress_from_test:
  assumes "pc s = AtTest" "loop_inv s" "m_looping (lp s)" "notifying s = 0"
  shows "\<exists>t. leads s t \<and> executed t = queued s \<and> m_pending_functors (lp t) = []"
proof (cases "m_pending_functors (lp s) = []")
  case True
  then show ?thesis using assms by (intro exI [of _ s]) (simp add: leads_refl loop_inv_def)
next
  case False
  then have "wakeup_writes (lp s) > 0" using assms by (simp add: loop_inv_def unswapped_def)
  then show ?thesis using drained_from_test assms by (auto simp: drained_def)
qed

lemma progress_from_running:
  assumes "pc s = Running fs" "loop_inv s" "m_looping (lp s)" "notifying s = 0"
  shows "\<exists>t. leads s t \<and> executed t = queued s \<and> m_pending_functors (lp t) = []"
proof -
  let ?u = "s\<lparr>lp := (lp s)\<lparr>m_calling_pending_functors := False\<rparr>, pc := AtTest,
              executed := executed s @ fs\<rparr>"
  have l: "leads s ?u" using assms(1) by (rule leads_running)
  from progress_from_test [of ?u] leads_inv [OF l] assms
  obtain t where "leads ?u t" "executed t = queued s" "m_pending_functors (lp t) = []" by auto
  with leads_trans [OF l] show ?thesis by blast
qed

lemma progress_from_created:
  assumes "pc s = Created" "loop_inv s" "notifying s = 0"
  shows "\<exists>t. leads s t \<and> executed t = queued s \<and> m_pending_functors (lp t) = []"
proof -
  let ?u = "s\<lparr>lp := (lp s)\<lparr>m_looping := True\<rparr>, pc := AtTest\<rparr>"
  have l: "loop_thread s = Some ?u" using assms(1) by (simp add: loop_thread_def)
  from progress_from_test [of ?u] loop_thread_inv [OF l] assms
  obtain t where "leads ?u t" "executed t = queued s" "m_pending_functors (lp t) = []" by auto
  with leads_step [OF l] show ?thesis by blast
qed

lemma progress_from_polling:
  assumes "pc s = Polling" "loop_inv s" "notifying s = 0"
  shows "\<exists>t. leads s t \<and> executed t = queued s \<and> m_pending_functors (lp t) = []"
proof (cases "m_pending_functors (lp s) = []")
  case True
  then show ?thesis using assms by (intro exI [of _ s]) (simp add: leads_refl loop_inv_def)
next
  case False
  then have "wakeup_writes (lp s) > 0" using assms by (simp add: loop_inv_def unswapped_def)
  then show ?thesis using drained_from_poll assms by (auto simp: drained_def)
qed

text \<open>A quit request that the loop has seen or will see makes the loop thread return.\<close>

lemma returns_from_test: "pc s = AtTest \<Longrightarrow> \<not> m_looping (lp s) \<Longrightarrow> \<exists>t. leads s t \<and> pc t = Returned"
  by (intro exI [of _ "s\<lparr>pc := Returned\<rparr>"] conjI leads_step [OF _ leads_refl])
    (simp_all add: loop_thread_def)

lemma returns_after_drain:
  "\<exists>t. leads s t \<and> drained s t \<Longrightarrow> \<not> m_looping (lp s) \<Longrightarrow> \<exists>t. leads s t \<and> pc t = Returned"
  using returns_from_test leads_trans by (metis drained_def)

lemma returns_from_running:
  assumes "pc s = Running fs" "\<not> m_looping (lp s)"
  shows "\<exists>t. leads s t \<and> pc t = Returned"
proof -
  let ?u = "s\<lparr>lp := (lp s)\<lparr>m_calling_pending_functors := False\<rparr>, pc := AtTest,
              executed := executed s @ fs\<rparr>"
  have "leads s ?u" using assms(1) by (rule leads_running)
  then show ?thesis using returns_from_test [of ?u] assms(2) leads_trans by fastforce
qed

section \<open>One call of doPendingFunctors\<close>

text \<open>
  Functors that queue further functors: \<open>kids f\<close> are the ones \<open>f\<close> queues, from the loop
  thread, as its last actions; everything else it does to the loop is \<open>act f\<close>.
\<close>

definition queue_all :: "('cb, 'f) EventLoop \<Rightarrow> nat \<Rightarrow> 'f list \<Rightarrow> ('cb, 'f) EventLoop" where
  "queue_all l tid fs = foldl (\<lambda>l f. queueInLoop l tid f) l fs"

lemma queue_all_calling:
  "m_calling_pending_functors l \<Longrightarrow>
   queue_all l tid fs = l\<lparr>m_pending_functors := m_pending_functors l @ fs,
     wakeup_writes := wakeup_writes l + length fs\<rparr>"
  by (induction fs arbitrary: l) (simp_all add: queue_all_def loop_op_defs)

lemma run_all_queueing:
  assumes "m_calling_pending_functors l"
  shows "run_all (\<lambda>f l. Inr (queue_all l tid (kids f))) fs l =
     Inr (l\<lparr>m_pending_functors := m_pending_functors l @ concat (map kids fs),
            wakeup_writes := wakeup_writes l + length (concat (map kids fs))\<rparr>)"
  using assms by (induction fs arbitrary: l) (simp_all add: queue_all_calling ac_simps)

section \<open>Properties\<close>




text \<open>A quit request is never missed by a running loop.  In every reachable state in which
  \<open>m_looping\<close> has been cleared after \<open>loop()\<close> was entered, and the thread that
  cleared it has written its wake-up, the loop thread by itself returns from \<open>loop()\<close>.\<close>

theorem quit_returns:
  assumes "loop_reach tid s" "\<not> m_looping (lp s)" "pc s \<noteq> Created" "notifying s = 0"
  shows "\<exists>n t. iterate n loop_thread s = Some t \<and> pc t = Returned"
proof -
  have inv: "loop_inv s" using assms(1) by (rule loop_reach_inv)
  have "\<exists>t. leads s t \<and> pc t = Returned"
  proof (cases "pc s")
    case Polling
    with inv assms have "wakeup_writes (lp s) > 0" by (simp add: loop_inv_def)
    with Polling inv assms show ?thesis by (intro returns_after_drain drained_from_poll)
  next
    case (Handling w)
    with inv assms show ?thesis by (intro returns_after_drain drained_from_handling)
  next
    case BeforeSwap
    with inv assms show ?thesis by (intro returns_after_drain drained_from_swap)
  qed (use assms returns_from_test returns_from_running leads_refl in blast)+
  then show ?thesis by (auto simp: leads_def)
qed

text \<open>Functors that queue further functors do not extend the round that runs them.
  \<open>doPendingFunctors\<close> runs exactly the functors that were pending when it was called; what
  they queue is pending afterwards, in order, and each such call has written to the eventfd, so
  the next \<open>epoll_wait\<close> returns at once.\<close>

theorem pending_round:
  "doPendingFunctors (\<lambda>f l. Inr (queue_all l tid (kids f))) l =
     Inr (l\<lparr>m_pending_functors := concat (map kids (m_pending_functors l)),
            m_calling_pending_functors := False,
            wakeup_writes := wakeup_writes l + length (concat (map kids (m_pending_functors l)))\<rparr>)"
  by (simp add: doPendingFunctors_def swap_functors_def run_all_queueing Let_def)

text \<open>A loop created by thread 1; thread 2 queues a functor and writes its wake-up.\<close>

definition sample_loop :: "(unit, nat) EventLoop" where
  "sample_loop = (case EventLoop_new 1 5 100 () of Inr l \<Rightarrow> l | Inl _ \<Rightarrow> undefined)"

lemma sample_loop_new: "EventLoop_new 1 5 100 () = Inr sample_loop"
  by (simp add: sample_loop_def EventLoop_new_def enableReading_def set_and_update_def deref_def
      put_chan_def updateChannel_def Channel_new_def setReadCallback_def Let_def)

definition polling_sys :: "(unit, nat) loop_sys" where
  "polling_sys = (sys_new sample_loop)\<lparr>lp := sample_loop\<lparr>m_looping := True\<rparr>, pc := Polling\<rparr>"

lemma polling_sys_reach: "loop_reach 1 polling_sys"
proof -
  have "loop_reach 1 (sys_new sample_loop)" by (rule loop_reach.start [OF sample_loop_new])
  then have "loop_reach 1 ((sys_new sample_loop)\<lparr>lp := sample_loop\<lparr>m_looping := True\<rparr>, pc := AtTest\<rparr>)"
    by (rule loop_reach.step, intro loop_step.self) (simp add: loop_thread_def sys_new_def)
  then show ?thesis
    by (rule loop_reach.step, intro loop_step.self) (simp add: loop_thread_def polling_sys_def)
qed

definition notified_sys :: "(unit, nat) loop_sys" where
  "notified_sys = polling_sys\<lparr>lp := wakeup (push_functor (lp polling_sys) 42), queued := [42]\<rparr>"

lemma notified_sys_reach: "loop_reach 1 notified_sys"
proof -
  have "loop_reach 1 (polling_sys\<lparr>lp := push_functor (lp polling_sys) 42, queued := [42], notifying := 1\<rparr>)"
    using loop_reach.step [OF polling_sys_reach loop_step.other_push [of _ 42]]
    by (simp add: polling_sys_def sys_new_def)
  from loop_reach.step [OF this loop_step.other_wakeup] show ?thesis
    by (simp add: notified_sys_def polling_sys_def sys_new_def)
qed


definition quit_sys :: "(unit, nat) loop_sys" where
  "quit_sys = polling_sys\<lparr>lp := quit (lp polling_sys) 2\<rparr>"

lemma EventLoop_new_thread: "EventLoop_new tid efd chan cb = Inr l \<Longrightarrow> m_thread_id l = tid"
  by (auto simp: EventLoop_new_def res_simps)

lemma sample_loop_thread: "m_thread_id sample_loop = 1"
  using sample_loop_new by (rule EventLoop_new_thread)

lemma quit_sys_reach: "loop_reach 1 quit_sys"
proof -
  have "loop_reach 1 (polling_sys\<lparr>lp := (lp polling_sys)\<lparr>m_looping := False\<rparr>, notifying := 1\<rparr>)"
    using loop_reach.step [OF polling_sys_reach loop_step.other_quit]
    by (simp add: polling_sys_def sys_new_def)
  from loop_reach.step [OF this loop_step.other_wakeup] show ?thesis
    by (simp add: quit_sys_def polling_sys_def sys_new_def quit_def isInLoopThread_def
        sample_loop_thread)
qed

theorem quit_returns_witness: "\<exists>n t. iterate n loop_thread quit_sys = Some t \<and> pc t = Returned"
  using quit_returns [OF quit_sys_reach]
  by (simp add: quit_sys_def polling_sys_def sys_new_def loop_op_defs)

end
