(* ===== verification/Timers.thy ===== *)
theory Timers
  imports Timestamps EventLoops
begin

text \<open>
  Timers, \<open>Timer/timer.h\<close>, \<open>Timer/rbtreetimer.h\<close>, \<open>Timer/rbtreetimer.cpp\<close> and
  the timer functions of \<open>Net/eventloop.h\<close>.  The \<open>std::set\<close> ordered by expiration is a
  list in increasing order without equal expirations: a timer's expiration only changes while
  the timer is out of the set.  The timerfd is the absolute time it is armed for, if it is.
\<close>

section \<open>Timers\<close>

record 'c Timer =
  m_callback :: "'c option"
  m_expiration :: Timestamp
  m_interval :: rat
  m_repeat :: bool

definition Timer_new :: "'c option \<Rightarrow> Timestamp \<Rightarrow> rat \<Rightarrow> 'c Timer" where
  "Timer_new cb when interval =
     \<lparr>m_callback = cb, m_expiration = when, m_interval = interval, m_repeat = interval > 0\<rparr>"

definition Timer_run :: "('c \<Rightarrow> 's \<Rightarrow> 's result) \<Rightarrow> 'c Timer \<Rightarrow> 's \<Rightarrow> 's result" where
  "Timer_run call t s = (case m_callback t of None \<Rightarrow> Inl BadFunction | Some cb \<Rightarrow> call cb s)"

definition Timer_restart :: "Timestamp \<Rightarrow> 'c Timer \<Rightarrow> 'c Timer" where
  "Timer_restart now t = t\<lparr>m_expiration := addTime now (m_interval t)\<rparr>"

definition timer_less :: "'c Timer \<Rightarrow> 'c Timer \<Rightarrow> bool" where
  "timer_less a b = ts_less (m_expiration a) (m_expiration b)"

section \<open>The timer queue\<close>

record 'c RBTreeTimer =
  m_timer_channel :: nat
  m_timer :: "'c Timer list"
  m_timer_fd :: int
  deadline :: "int option"

text \<open>The constructor gets the timerfd; the channel is made but not registered.\<close>

definition RBTreeTimer_new ::
  "('cb, 'f) EventLoop \<Rightarrow> int \<Rightarrow> nat \<Rightarrow> 'cb \<Rightarrow> ('cb, 'f) EventLoop \<times> 'c RBTreeTimer" where
  "RBTreeTimer_new l tfd chan handle_read =
     (l\<lparr>m_epoller := put_chan (m_epoller l) chan (setReadCallback handle_read (Channel_new tfd))\<rparr>,
      \<lparr>m_timer_channel = chan, m_timer = [], m_timer_fd = tfd, deadline = None\<rparr>)"

definition enableTimerfd ::
  "('cb, 'f) EventLoop \<Rightarrow> 'c RBTreeTimer \<Rightarrow> ('cb, 'f) EventLoop result" where
  "enableTimerfd l rb =
     res_bind (deref (m_epoller l) (m_timer_channel rb)) (\<lambda>c.
       if \<not> isRegistered c
       then res_bind (enableReading (m_epoller l) (m_timer_channel rb)) (\<lambda>r. Inr (l\<lparr>m_epoller := r\<rparr>))
       else Inr l)"

text \<open>\<open>std::set::insert\<close> leaves the set as it is when it has an equivalent element.\<close>

fun set_insert :: "'c Timer \<Rightarrow> 'c Timer list \<Rightarrow> 'c Timer list" where
  "set_insert t [] = [t]"
| "set_insert t (u # us) =
     (if timer_less t u then t # u # us
      else if timer_less u t then u # set_insert t us
      else u # us)"

definition insertTimer :: "'c Timer \<Rightarrow> 'c RBTreeTimer \<Rightarrow> bool \<times> 'c RBTreeTimer" where
  "insertTimer t rb =
     (let earliestChanged = (case m_timer rb of [] \<Rightarrow> True
                             | u # _ \<Rightarrow> ts_less (m_expiration t) (m_expiration u))
      in (earliestChanged, rb\<lparr>m_timer := set_insert t (m_timer rb)\<rparr>))"

text \<open>
  The relative time \<open>resetTimerFd\<close> computes, and what \<open>timerfd_settime\<close> does with it at
  kernel time \<open>k\<close>: a negative field is refused with \<open>EINVAL\<close> and changes nothing, zero
  disarms the timer.
\<close>

definition itimer_value :: "Timestamp \<Rightarrow> Timestamp \<Rightarrow> int \<times> int" where
  "itimer_value expiration now =
     (let diff = timeDifference expiration now
      in (div_trunc diff kMicroSecondsPerSecond, mod_trunc diff kMicroSecondsPerSecond * 1000))"

definition timerfd_settime :: "int \<Rightarrow> int \<times> int \<Rightarrow> int option \<Rightarrow> int option" where
  "timerfd_settime k val old =
     (case val of (sec, nsec) \<Rightarrow>
        if sec < 0 \<or> nsec < 0 \<or> 1000000000 \<le> nsec then old
        else if sec = 0 \<and> nsec = 0 then None
        else Some (k + sec * 1000000000 + nsec))"

definition resetTimerFd ::
  "('cb, 'f) EventLoop \<Rightarrow> nat \<Rightarrow> Timestamp \<Rightarrow> int \<Rightarrow> 'c Timer \<Rightarrow> 'c RBTreeTimer \<Rightarrow> 'c RBTreeTimer result" where
  "resetTimerFd l tid now k t rb =
     res_bind (assertInLoopThread l tid) (\<lambda>_.
       Inr (rb\<lparr>deadline := timerfd_settime k (itimer_value (m_expiration t) now) (deadline rb)\<rparr>))"

definition addTimerInLoop ::
  "nat \<Rightarrow> Timestamp \<Rightarrow> int \<Rightarrow> 'c Timer \<Rightarrow> ('cb, 'f) EventLoop \<times> 'c RBTreeTimer \<Rightarrow>
   (('cb, 'f) EventLoop \<times> 'c RBTreeTimer) result" where
  "addTimerInLoop tid now k t = (\<lambda>(l, rb).
     res_bind (assertInLoopThread l tid) (\<lambda>_.
       res_bind (enableTimerfd l rb) (\<lambda>l1.
         let (earliestChanged, rb1) = insertTimer t rb
         in if earliestChanged
            then res_bind (resetTimerFd l1 tid now k t rb1) (\<lambda>rb2. Inr (l1, rb2))
            else Inr (l1, rb1))))"

text \<open>
  \<open>addTimer\<close> runs \<open>addTimerInLoop\<close> at once on the loop thread and queues it, as the
  functor \<open>mk timer\<close>, from another.
\<close>

definition addTimer ::
  "('c Timer \<Rightarrow> 'f) \<Rightarrow> nat \<Rightarrow> Timestamp \<Rightarrow> int \<Rightarrow> 'c \<Rightarrow> Timestamp \<Rightarrow> rat \<Rightarrow>
   ('cb, 'f) EventLoop \<times> 'c RBTreeTimer \<Rightarrow> (('cb, 'f) EventLoop \<times> 'c RBTreeTimer) result" where
  "addTimer mk tid now k cb when interval = (\<lambda>(l, rb).
     let timer = Timer_new (Some cb) when interval
     in if isInLoopThread l tid then addTimerInLoop tid now k timer (l, rb)
        else Inr (queueInLoop l tid (mk timer), rb))"

text \<open>\<open>runAfter\<close> and \<open>runEvery\<close>: \<open>now\<close> is the time they read, \<open>now'\<close> the later reading.\<close>

definition runAfter ::
  "('c Timer \<Rightarrow> 'f) \<Rightarrow> nat \<Rightarrow> Timestamp \<Rightarrow> Timestamp \<Rightarrow> int \<Rightarrow> rat \<Rightarrow> 'c \<Rightarrow>
   ('cb, 'f) EventLoop \<times> 'c RBTreeTimer \<Rightarrow> (('cb, 'f) EventLoop \<times> 'c RBTreeTimer) result" where
  "runAfter mk tid now now' k seconds cb = addTimer mk tid now' k cb (addTime now seconds) 0"

definition runEvery ::
  "('c Timer \<Rightarrow> 'f) \<Rightarrow> nat \<Rightarrow> Timestamp \<Rightarrow> Timestamp \<Rightarrow> int \<Rightarrow> rat \<Rightarrow> 'c \<Rightarrow>
   ('cb, 'f) EventLoop \<times> 'c RBTreeTimer \<Rightarrow> (('cb, 'f) EventLoop \<times> 'c RBTreeTimer) result" where
  "runEvery mk tid now now' k seconds cb = addTimer mk tid now' k cb (addTime now seconds) seconds"

definition handleRepeatTimer :: "Timestamp \<Rightarrow> 'c Timer \<Rightarrow> 'c RBTreeTimer \<Rightarrow> 'c RBTreeTimer" where
  "handleRepeatTimer now t rb =
     (if m_repeat t then snd (insertTimer (Timer_restart now t) rb) else rb)"

text \<open>
  \<open>handleRead\<close>: \<open>readn\<close> is what \<open>read\<close> on the timerfd returned; \<open>clock i\<close> is the
  \<open>i\<close>-th time it reads the clock.  A timerfd that could be read has expired and is not
  armed any more.  Callbacks may do anything to the loop and to the queue.
\<close>

definition lower_bound_split :: "Timestamp \<Rightarrow> 'c Timer list \<Rightarrow> 'c Timer list \<times> 'c Timer list" where
  "lower_bound_split now ts =
     (let probe = Timer_new None now 0
      in (takeWhile (\<lambda>u. timer_less u probe) ts, dropWhile (\<lambda>u. timer_less u probe) ts))"

fun run_expired ::
  "('c \<Rightarrow> 'l \<times> 'c RBTreeTimer \<Rightarrow> ('l \<times> 'c RBTreeTimer) result) \<Rightarrow> (nat \<Rightarrow> Timestamp) \<Rightarrow> nat \<Rightarrow>
   'c Timer list \<Rightarrow> 'l \<times> 'c RBTreeTimer \<Rightarrow> ('l \<times> 'c RBTreeTimer) result" where
  "run_expired call clock i [] s = Inr s"
| "run_expired call clock i (t # ts) s =
     res_bind (Timer_run call t s) (\<lambda>(l, rb).
       run_expired call clock (i + 1) ts (l, handleRepeatTimer (clock i) t rb))"

definition timer_handleRead ::
  "('c \<Rightarrow> ('cb, 'f) EventLoop \<times> 'c RBTreeTimer \<Rightarrow> (('cb, 'f) EventLoop \<times> 'c RBTreeTimer) result) \<Rightarrow>
   nat \<Rightarrow> int \<Rightarrow> (nat \<Rightarrow> Timestamp) \<Rightarrow> int \<Rightarrow> ('cb, 'f) EventLoop \<times> 'c RBTreeTimer \<Rightarrow>
   (('cb, 'f) EventLoop \<times> 'c RBTreeTimer) result" where
  "timer_handleRead call tid readn clock k = (\<lambda>(l, rb).
     res_bind (assertInLoopThread l tid) (\<lambda>_.
       if readn \<noteq> 8 then Inr (l, rb)
       else
         let (expired, rest) = lower_bound_split (clock 0) (m_timer rb);
             rb1 = rb\<lparr>m_timer := rest, deadline := None\<rparr>
         in res_bind (run_expired call clock 1 expired (l, rb1)) (\<lambda>(l2, rb2).
              case m_timer rb2 of
                [] \<Rightarrow> Inr (l2, rb2)
              | t # _ \<Rightarrow> res_bind (resetTimerFd l2 tid (clock (1 + length expired)) k t rb2)
                           (\<lambda>rb3. Inr (l2, rb3)))))"

section \<open>The queue as an ordered set\<close>

abbreviation due :: "'c Timer \<Rightarrow> int" where
  "due t \<equiv> m_time_point (m_expiration t)"

definition queue_inv :: "'c Timer list \<Rightarrow> bool" where
  "queue_inv ts = sorted_wrt timer_less ts"

lemma timer_less_due [simp]: "timer_less a b \<longleftrightarrow> due a < due b"
  by (simp add: timer_less_def ts_less_def)

lemma set_insert_due:
  "queue_inv ts \<Longrightarrow> due ` set (set_insert t ts) = insert (due t) (due ` set ts)"
  by (induction ts) (auto simp: queue_inv_def)

lemma set_insert_set:
  "queue_inv ts \<Longrightarrow>
   set (set_insert t ts) = (if due t \<in> due ` set ts then set ts else insert t (set ts))"
  by (induction ts) (auto simp: queue_inv_def)

lemma set_insert_inv: "queue_inv ts \<Longrightarrow> queue_inv (set_insert t ts)"
proof (induction ts)
  case (Cons u us)
  then have ih: "queue_inv (set_insert t us)" "\<forall>v \<in> set us. due u < due v" "queue_inv us"
    by (auto simp: queue_inv_def)
  then have "\<forall>v \<in> set (set_insert t us). due u < due v" if "due u < due t"
    using that set_insert_set [of us t] by auto
  with Cons.prems ih show ?case by (auto simp: queue_inv_def)
qed (simp add: queue_inv_def)

lemma lower_bound_laws:
  assumes "queue_inv ts" "lower_bound_split now ts = (es, rest)"
  shows "queue_inv es" "queue_inv rest" "ts = es @ rest"
    "\<forall>e \<in> set es. due e < m_time_point now" "\<forall>e \<in> set rest. m_time_point now \<le> due e"
proof -
  let ?P = "\<lambda>u. due u < m_time_point now"
  have split: "es = takeWhile ?P ts" "rest = dropWhile ?P ts"
    using assms(2) by (auto simp: lower_bound_split_def Timer_new_def Let_def)
  then show "ts = es @ rest" by simp
  with assms(1) show "queue_inv es" "queue_inv rest"
    by (auto simp: queue_inv_def sorted_wrt_append)
  show "\<forall>e \<in> set es. due e < m_time_point now" using split by (auto dest: set_takeWhileD)
  show "\<forall>e \<in> set rest. m_time_point now \<le> due e"
  proof (cases rest)
    case (Cons r rs)
    then have "\<not> ?P r" using split hd_dropWhile [of ?P ts] by auto
    then show ?thesis using \<open>queue_inv rest\<close> Cons by (auto simp: queue_inv_def)
  qed simp
qed

text \<open>What a client of the queue relies on, whatever the data structure.\<close>

locale expiry_queue =
  fixes inv :: "'q \<Rightarrow> bool"
    and items :: "'q \<Rightarrow> 'a set"
    and key :: "'a \<Rightarrow> int"
    and ins :: "'a \<Rightarrow> 'q \<Rightarrow> 'q"
    and expire :: "int \<Rightarrow> 'q \<Rightarrow> 'a list \<times> 'q"
  assumes ins_inv: "inv q \<Longrightarrow> inv (ins a q)"
    and ins_items: "inv q \<Longrightarrow>
      items (ins a q) = (if key a \<in> key ` items q then items q else insert a (items q))"
    and expire_inv: "inv q \<Longrightarrow> expire now q = (es, q') \<Longrightarrow> inv q'"
    and expire_items: "inv q \<Longrightarrow> expire now q = (es, q') \<Longrightarrow>
      set es = {a \<in> items q. key a < now} \<and> items q' = {a \<in> items q. now \<le> key a}"
    and expire_order: "inv q \<Longrightarrow> expire now q = (es, q') \<Longrightarrow> sorted_wrt (\<lambda>a b. key a < key b) es"
begin

definition ins_all :: "'a list \<Rightarrow> 'q \<Rightarrow> 'q" where
  "ins_all xs q = fold ins xs q"

lemma ins_all_inv: "inv q \<Longrightarrow> inv (ins_all xs q)"
  by (induction xs arbitrary: q) (simp_all add: ins_all_def ins_inv)

lemma ins_all_keys: "inv q \<Longrightarrow> key ` items (ins_all xs q) = key ` items q \<union> key ` set xs"
proof (induction xs arbitrary: q)
  case (Cons x xs)
  then show ?case using Cons.IH [OF ins_inv [OF Cons.prems, of x]]
    by (auto simp: ins_all_def ins_items split: if_splits)
qed (simp add: ins_all_def)

lemma ins_all_items:
  "inv q \<Longrightarrow> distinct (map key xs) \<Longrightarrow> key ` set xs \<inter> key ` items q = {} \<Longrightarrow>
   items (ins_all xs q) = items q \<union> set xs"
proof (induction xs arbitrary: q)
  case (Cons x xs)
  have "items (ins x q) = insert x (items q)" using Cons.prems by (simp add: ins_items)
  then have "items (ins_all xs (ins x q)) = insert x (items q) \<union> set xs"
    using Cons.IH [OF ins_inv [OF Cons.prems(1), of x]] Cons.prems(2,3) by auto
  then show ?case by (simp add: ins_all_def)
qed (simp add: ins_all_def)

lemma inserted_then_expired:
  assumes "inv q" "items q = {}" "distinct (map key xs)" "expire now (ins_all xs q) = (es, q')"
  shows "set es = {x \<in> set xs. key x < now}" "items q' = {x \<in> set xs. now \<le> key x}"
  using expire_items [OF ins_all_inv [OF assms(1)] assms(4)] ins_all_items [OF assms(1,3)] assms(2)
  by auto

end

lemma lower_bound_items:
  assumes "queue_inv q" "lower_bound_split now q = (es, q')"
  shows "set es = {a \<in> set q. due a < m_time_point now} \<and> set q' = {a \<in> set q. m_time_point now \<le> due a}"
  using lower_bound_laws [OF assms] by force

interpretation tq: expiry_queue queue_inv set due set_insert
  "\<lambda>now. lower_bound_split (Timestamp_at now)"
proof
  fix q q' es :: "'b Timer list" and a :: "'b Timer" and now
  assume inv: "queue_inv q"
  show "queue_inv (set_insert a q)" using inv by (rule set_insert_inv)
  show "set (set_insert a q) = (if due a \<in> due ` set q then set q else insert a (set q))"
    using inv by (rule set_insert_set)
  assume e: "lower_bound_split (Timestamp_at now) q = (es, q')"
  show "queue_inv q'" using lower_bound_laws(2) [OF inv e] .
  show "set es = {a \<in> set q. due a < now} \<and> set q' = {a \<in> set q. now \<le> due a}"
    using lower_bound_items [OF inv e] by (simp add: Timestamp_at_def)
  show "sorted_wrt (\<lambda>a b. due a < due b) es"
    using lower_bound_laws(1) [OF inv e] unfolding queue_inv_def
    by (rule sorted_wrt_mono_rel [rotated]) simp
qed

section \<open>Running the expired timers\<close>

text \<open>The timers that are put back, with the clock readings of their restarts.\<close>

fun restarted :: "(nat \<Rightarrow> Timestamp) \<Rightarrow> nat \<Rightarrow> 'c Timer list \<Rightarrow> 'c Timer list" where
  "restarted clock i [] = []"
| "restarted clock i (t # ts) =
     (if m_repeat t then [Timer_restart (clock i) t] else []) @ restarted clock (i + 1) ts"

text \<open>Callbacks that leave the timer queue alone act on the loop only.\<close>

definition on_loop :: "('c \<Rightarrow> 'l \<Rightarrow> 'l result) \<Rightarrow> 'c \<Rightarrow> 'l \<times> 'c RBTreeTimer \<Rightarrow> ('l \<times> 'c RBTreeTimer) result" where
  "on_loop act c = (\<lambda>(l, rb). res_bind (act c l) (\<lambda>l'. Inr (l', rb)))"

lemma handleRepeatTimer_queue:
  "handleRepeatTimer now t rb =
     rb\<lparr>m_timer := tq.ins_all (if m_repeat t then [Timer_restart now t] else []) (m_timer rb)\<rparr>"
  by (simp add: handleRepeatTimer_def insertTimer_def tq.ins_all_def Let_def)

lemma run_expired_effect:
  assumes "run_all act (map (\<lambda>t. the (m_callback t)) ts) l = Inr l'" "\<forall>t \<in> set ts. m_callback t \<noteq> None"
  shows "run_expired (on_loop act) clock i ts (l, rb) =
     Inr (l', rb\<lparr>m_timer := tq.ins_all (restarted clock i ts) (m_timer rb)\<rparr>)"
  using assms
proof (induction ts arbitrary: i l rb)
  case Nil
  then show ?case by (simp add: tq.ins_all_def)
next
  case (Cons t ts)
  then obtain cb l1 where "m_callback t = Some cb" "act cb l = Inr l1"
    "run_all act (map (\<lambda>t. the (m_callback t)) ts) l1 = Inr l'"
    by (auto simp: res_simps)
  then show ?case using Cons.IH [of l1 "i + 1"] Cons.prems(2)
    by (simp add: Timer_run_def on_loop_def handleRepeatTimer_queue tq.ins_all_def)
qed

lemma itimer_value_ahead:
  assumes "1000 \<le> m_time_point e - m_time_point now"
  defines "d \<equiv> (m_time_point e - m_time_point now) div 1000"
  shows "itimer_value e now = (d div 1000000, d mod 1000000 * 1000)" "0 < d"
proof -
  show "0 < d" using assms by (simp add: d_def pos_imp_zdiv_pos_iff)
  then show "itimer_value e now = (d div 1000000, d mod 1000000 * 1000)"
    using assms(1)
    by (simp add: itimer_value_def timeDifference_def kMicroSecondsPerSecond_def d_def Let_def)
qed

lemma settime_ahead:
  assumes "1000 \<le> m_time_point e - m_time_point now"
  shows "timerfd_settime k (itimer_value e now) old =
     Some (k + 1000 * ((m_time_point e - m_time_point now) div 1000))"
proof -
  let ?d = "(m_time_point e - m_time_point now) div 1000"
  have "\<not> (?d div 1000000 = 0 \<and> ?d mod 1000000 = 0)"
    using itimer_value_ahead(2) [OF assms] by (metis div_mult_mod_eq add.right_neutral mult_zero_left less_irrefl)
  moreover have "?d div 1000000 * 1000000000 + ?d mod 1000000 * 1000 = 1000 * ?d"
    using div_mult_mod_eq [of ?d 1000000] by presburger
  moreover have "0 \<le> ?d div 1000000" "0 \<le> ?d mod 1000000" "?d mod 1000000 < 1000000"
    using itimer_value_ahead(2) [OF assms] by (simp_all add: pos_imp_zdiv_nonneg_iff)
  ultimately show ?thesis
    unfolding itimer_value_ahead(1) [OF assms] timerfd_settime_def by auto
qed

lemma div_trunc_small: "0 < b \<Longrightarrow> \<bar>a\<bar> < b \<Longrightarrow> div_trunc a b = 0"
  by (simp add: div_trunc_def)

lemma settime_near:
  assumes "\<bar>m_time_point e - m_time_point now\<bar> < 1000"
  shows "timerfd_settime k (itimer_value e now) old = None"
  using assms
  by (simp add: timerfd_settime_def itimer_value_def timeDifference_def div_trunc_small mod_trunc_def
      kMicroSecondsPerSecond_def)

lemma settime_past:
  assumes "m_time_point e - m_time_point now \<le> - 1000"
  shows "timerfd_settime k (itimer_value e now) old = old"
proof -
  let ?x = "m_time_point now - m_time_point e" and ?d = "timeDifference e now"
  have d: "?d = - (?x div 1000)" using assms by (simp add: timeDifference_def div_trunc_neg)
  moreover have "0 < ?x div 1000" using assms by (simp add: pos_imp_zdiv_pos_iff)
  ultimately have neg: "?d < 0" by simp
  then have "div_trunc ?d 1000000 = - ((- ?d) div 1000000)" "mod_trunc ?d 1000000 = - ((- ?d) mod 1000000)"
    by (simp_all add: div_trunc_neg mod_trunc_neg)
  moreover have "0 < (- ?d) div 1000000 \<or> 0 < (- ?d) mod 1000000"
  proof (rule ccontr)
    assume "\<not> ?thesis"
    then have "(- ?d) div 1000000 = 0" "(- ?d) mod 1000000 = 0"
      using neg by (simp_all add: pos_imp_zdiv_neg_iff not_less order_antisym)
    then show False using neg div_mult_mod_eq [of "- ?d" 1000000] by simp
  qed
  ultimately show ?thesis
    by (auto simp: timerfd_settime_def itimer_value_def Let_def kMicroSecondsPerSecond_def)
qed

lemma handleRead_effect:
  assumes loop: "isInLoopThread l tid" "isInLoopThread l' tid"
    and split: "lower_bound_split (clock 0) (m_timer rb) = (es, rest)"
    and cbs: "\<forall>t \<in> set es. m_callback t \<noteq> None"
    and run: "run_all act (map (\<lambda>t. the (m_callback t)) es) l = Inr l'"
  defines "q \<equiv> tq.ins_all (restarted clock 1 es) rest"
  shows "timer_handleRead (on_loop act) tid 8 clock k (l, rb) =
     Inr (l', rb\<lparr>m_timer := q, deadline := (case q of [] \<Rightarrow> None
            | t # _ \<Rightarrow> timerfd_settime k (itimer_value (m_expiration t) (clock (1 + length es))) None)\<rparr>)"
proof -
  have "run_expired (on_loop act) clock 1 es (l, rb\<lparr>m_timer := rest, deadline := None\<rparr>) =
      Inr (l', rb\<lparr>m_timer := q, deadline := None\<rparr>)"
    using run_expired_effect [OF run cbs, of clock 1 "rb\<lparr>m_timer := rest, deadline := None\<rparr>"]
    by (simp add: q_def)
  then show ?thesis using loop split
    by (simp add: timer_handleRead_def assertInLoopThread_def resetTimerFd_def split: list.split)
qed

lemma addTimerInLoop_queue:
  assumes "isInLoopThread l tid" "enableTimerfd l rb = Inr l1"
  shows "\<exists>rb'. addTimerInLoop tid now k t (l, rb) = Inr (l1, rb') \<and> m_timer rb' = set_insert t (m_timer rb)"
proof -
  have "isInLoopThread l1 tid"
    using assms by (auto simp: enableTimerfd_def isInLoopThread_def res_simps split: if_splits)
  then show ?thesis using assms
    by (auto simp: addTimerInLoop_def assertInLoopThread_def insertTimer_def resetTimerFd_def Let_def)
qed

section \<open>Properties\<close>


text \<open>Adding a timer on the loop thread.  The queue keeps its order; the timer is in it
  afterwards unless one with the same expiration was there already, in which case it is
  dropped without being reported; when it is the new earliest one and at least a microsecond
  ahead, the timerfd is armed for its expiration, rounded down to the microsecond.\<close>

theorem timer_added:
  assumes "isInLoopThread l tid" "enableTimerfd l rb = Inr l1" "queue_inv (m_timer rb)"
  shows "\<exists>rb'. addTimerInLoop tid now k t (l, rb) = Inr (l1, rb') \<and> queue_inv (m_timer rb') \<and>
     set (m_timer rb') = (if due t \<in> due ` set (m_timer rb) then set (m_timer rb)
                          else insert t (set (m_timer rb))) \<and>
     deadline rb' =
       (if \<forall>u \<in> set (m_timer rb). due t < due u
        then timerfd_settime k (itimer_value (m_expiration t) now) (deadline rb) else deadline rb) \<and>
     ((\<forall>u \<in> set (m_timer rb). due t < due u) \<longrightarrow> m_time_point now + 1000 \<le> due t \<longrightarrow>
        (\<exists>d. deadline rb' = Some d \<and> due t - 1000 < d - (k - m_time_point now) \<and>
             d - (k - m_time_point now) \<le> due t))"
proof -
  let ?first = "\<forall>u \<in> set (m_timer rb). due t < due u"
  have earliest: "fst (insertTimer t rb) \<longleftrightarrow> ?first"
    using assms(3) by (cases "m_timer rb") (force simp: insertTimer_def ts_less_def queue_inv_def)+
  have loop: "isInLoopThread l1 tid"
    using assms(1,2) by (auto simp: enableTimerfd_def isInLoopThread_def res_simps split: if_splits)
  define rb' where "rb' = rb\<lparr>m_timer := set_insert t (m_timer rb), deadline :=
     (if ?first then timerfd_settime k (itimer_value (m_expiration t) now) (deadline rb) else deadline rb)\<rparr>"
  have "addTimerInLoop tid now k t (l, rb) = Inr (l1, rb')"
    using assms(1,2) earliest loop
    by (auto simp: addTimerInLoop_def assertInLoopThread_def insertTimer_def resetTimerFd_def rb'_def Let_def)
  moreover have "\<exists>d. deadline rb' = Some d \<and> due t - 1000 < d - (k - m_time_point now) \<and>
      d - (k - m_time_point now) \<le> due t" if "?first" "m_time_point now + 1000 \<le> due t"
    using that settime_ahead [of "m_expiration t" now k "deadline rb"]
      minus_mod_eq_mult_div [of "due t - m_time_point now" 1000, symmetric]
    by (simp add: rb'_def)
  ultimately show ?thesis
    using set_insert_inv [OF assms(3)] set_insert_set [OF assms(3)] by (auto simp: rb'_def)
qed

text \<open>C38: A timerfd that fires early stops the timers.  When the handler runs before the
  earliest expiration and sets the timerfd again less than a microsecond before it, the
  truncated difference is zero, \<open>timerfd_settime\<close> disarms the timerfd, and the handler
  ends with timers in the queue and no deadline.\<close>

theorem early_expiry_stalls:
  assumes "isInLoopThread l tid" "m_timer rb = t # ts"
    and "m_time_point (clock 0) \<le> due t" "due t < m_time_point (clock 1) + 1000"
  shows "timer_handleRead call tid 8 clock k (l, rb) = Inr (l, rb\<lparr>deadline := None\<rparr>)"
proof -
  have "timerfd_settime k (itimer_value (m_expiration t) (clock 1)) None = None"
    using assms(4) settime_near [of "m_expiration t" "clock 1"] settime_past [of "m_expiration t" "clock 1"]
    by (cases "m_time_point (clock 1) - due t < 1000") (simp_all add: abs_if)
  moreover have "lower_bound_split (clock 0) (m_timer rb) = ([], m_timer rb)"
    using assms(2,3) by (simp add: lower_bound_split_def Timer_new_def)
  ultimately show ?thesis using assms(1,2)
    by (simp add: timer_handleRead_def assertInLoopThread_def resetTimerFd_def)
qed

text \<open>C40: The time given to \<open>timerfd_settime\<close>.  A microsecond or more ahead arms the timerfd
  for the expiration rounded down to the microsecond and at least a microsecond ahead; less
  than a microsecond away disarms it; an expiration a microsecond or more in the past makes
  the call fail and leaves the old setting.\<close>

theorem rearm_cases:
  assumes "isInLoopThread l tid" "gap = due t - m_time_point now"
  shows "resetTimerFd l tid now k t rb =
     Inr (rb\<lparr>deadline := (if 1000 \<le> gap then Some (k + gap - gap mod 1000)
                           else if - 1000 < gap then None else deadline rb)\<rparr>)"
  using settime_ahead [of "m_expiration t" now k "deadline rb"] settime_near [of "m_expiration t" now k "deadline rb"]
    settime_past [of "m_expiration t" now k "deadline rb"] assms
    minus_mod_eq_mult_div [of "due t - m_time_point now" 1000, symmetric]
  by (auto simp: resetTimerFd_def assertInLoopThread_def abs_if)

text \<open>A loop of thread 1 with a timer queue, a one-shot timer and a repeating one.\<close>

definition timer_loop :: "(unit, nat) EventLoop \<times> nat RBTreeTimer" where
  "timer_loop = RBTreeTimer_new sample_loop 6 200 ()"

definition one_shot :: "nat Timer" where
  "one_shot = Timer_new (Some 7) (Timestamp_at 5000) 0"

definition repeating :: "nat Timer" where
  "repeating = Timer_new (Some 8) (Timestamp_at 9000) 2"

definition two_timers :: "nat RBTreeTimer" where
  "two_timers = (snd timer_loop)\<lparr>m_timer := [one_shot, repeating]\<rparr>"

lemmas timer_sample_defs = two_timers_def timer_loop_def one_shot_def repeating_def Timer_new_def
  RBTreeTimer_new_def Timestamp_at_def

lemma timer_loop_thread: "isInLoopThread (fst timer_loop) 1" "isInLoopThread sample_loop 1"
  by (simp_all add: timer_loop_def RBTreeTimer_new_def isInLoopThread_def sample_loop_thread)

lemma timer_loop_enable: "\<exists>l1. enableTimerfd (fst timer_loop) (snd timer_loop) = Inr l1"
  by (simp add: timer_loop_def RBTreeTimer_new_def enableTimerfd_def deref_def put_chan_def
      isRegistered_def Channel_new_def setReadCallback_def enableReading_def set_and_update_def
      updateChannel_def Let_def)


theorem timer_added_witness:
  "\<exists>l1 rb'. addTimerInLoop 1 (Timestamp_at 1000) 1100 one_shot timer_loop = Inr (l1, rb') \<and>
     set (m_timer rb') = {one_shot} \<and> deadline rb' = Some 5100"
proof -
  obtain l1 where "enableTimerfd (fst timer_loop) (snd timer_loop) = Inr l1" using timer_loop_enable ..
  from timer_added [OF timer_loop_thread(1) this, of "Timestamp_at 1000" 1100 one_shot]
  show ?thesis
    using settime_ahead [of "m_expiration one_shot" "Timestamp_at 1000" 1100 None]
    by (auto simp: timer_sample_defs queue_inv_def)
qed

theorem early_expiry_stalls_witness:
  "timer_handleRead (on_loop (\<lambda>c l. Inr l)) 1 8 (\<lambda>i. Timestamp_at (4500 + int i)) 4600
     (sample_loop, two_timers) = Inr (sample_loop, two_timers\<lparr>deadline := None\<rparr>)"
  by (rule early_expiry_stalls [OF timer_loop_thread(2), of two_timers one_shot "[repeating]"])
    (simp_all add: timer_sample_defs)

theorem rearm_cases_witness:
  "resetTimerFd sample_loop 1 (Timestamp_at 1500) 1600 one_shot two_timers =
     Inr (two_timers\<lparr>deadline := Some 4600\<rparr>)"
  using rearm_cases [OF timer_loop_thread(2), of 3500 one_shot "Timestamp_at 1500" 1600 two_timers]
  by (simp add: timer_sample_defs)

end
