(* ===== verification/TcpConnections.thy ===== *)
theory TcpConnections
  imports HttpParser Timers
begin

text \<open>
  One TCP connection, \<open>Net/tcpconnection.h\<close> and \<open>Net/tcpconnection.cpp\<close>.  An operation
  acts on the connection, its event loop, what the kernel has taken from it (\<open>wire\<close>, the
  bytes that \<open>write\<close> accepted, and \<open>wr_shut\<close>, whether the write side was shut down), the
  log messages, and the state \<open>env\<close> of the layers above.  Results of system calls are
  arguments; the three callbacks of the layers above are arguments, too.
\<close>

section \<open>State\<close>

datatype ConnectionState = kConnecting | kConnected | kDisconnecting | kDisconnected

text \<open>The callbacks a channel of the program can hold and the functors queued in a loop.\<close>

datatype chan_cb = CbWakeup | CbTimer | CbAccept | CbRead nat | CbWrite nat | CbError nat

datatype 'f loop_task = FSendInLoop nat nat int | FShutDownInLoop nat | FForceCloseInLoop nat
  | FEstablished nat | FDestructor nat | FRemoveConnection nat | FOther 'f

type_synonym 'f net_loop = "(chan_cb, 'f loop_task) EventLoop"

record TcpConnection =
  m_self :: nat
  m_conn_fd :: int
  m_conn_id :: int
  m_state :: ConnectionState
  m_channel :: nat
  m_input_buffer :: Buffer
  m_output_buffer :: Buffer
  m_parser :: HttpRequestParser
  m_last_receive_time :: Timestamp
  m_ip_port :: "(string \<times> int) option"

record ('f, 'x) ConnWorld =
  m_loop :: "'f net_loop"
  conn :: TcpConnection
  wire :: "char list"
  wr_shut :: bool
  logged :: "string list"
  env :: 'x

text \<open>
  The constructor; the close callback of the channel is not set.  \<open>self\<close> is the address of
  the object, which \<open>this\<close> and \<open>shared_from_this\<close> stand for.
\<close>

definition TcpConnection_new :: "nat \<Rightarrow> int \<Rightarrow> int \<Rightarrow> nat \<Rightarrow> TcpConnection" where
  "TcpConnection_new self conn_fd conn_id chan =
     \<lparr>m_self = self, m_conn_fd = conn_fd, m_conn_id = conn_id, m_state = kConnecting, m_channel = chan,
      m_input_buffer = Buffer_default, m_output_buffer = Buffer_default,
      m_parser = HttpRequestParser_new, m_last_receive_time = Timestamp_default, m_ip_port = None\<rparr>"

definition connection_channel :: "int \<Rightarrow> nat \<Rightarrow> chan_cb Channel" where
  "connection_channel conn_fd self =
     setErrorCallback (CbError self) (setWriteCallback (CbWrite self)
       (setReadCallback (CbRead self) (Channel_new conn_fd)))"

definition isShutdown :: "TcpConnection \<Rightarrow> bool" where
  "isShutdown c \<longleftrightarrow> m_state c = kDisconnecting"

definition isConnected :: "TcpConnection \<Rightarrow> bool" where
  "isConnected c \<longleftrightarrow> m_state c = kConnected"

definition isDisconnected :: "TcpConnection \<Rightarrow> bool" where
  "isDisconnected c \<longleftrightarrow> m_state c = kDisconnected"

definition isConnecting :: "TcpConnection \<Rightarrow> bool" where
  "isConnecting c \<longleftrightarrow> m_state c = kConnecting"

definition updateLastReceiveTime :: "Timestamp \<Rightarrow> TcpConnection \<Rightarrow> TcpConnection" where
  "updateLastReceiveTime now c = c\<lparr>m_last_receive_time := now\<rparr>"

definition setIPPort :: "string \<Rightarrow> int \<Rightarrow> TcpConnection \<Rightarrow> TcpConnection" where
  "setIPPort ip port c = c\<lparr>m_ip_port := Some (ip, port)\<rparr>"

section \<open>Operations\<close>

definition set_state :: "ConnectionState \<Rightarrow> ('f, 'x) ConnWorld \<Rightarrow> ('f, 'x) ConnWorld" where
  "set_state st w = w\<lparr>conn := (conn w)\<lparr>m_state := st\<rparr>\<rparr>"

text \<open>A message for the log; every message of the code ends its line.\<close>

definition log_line :: "string \<Rightarrow> ('f, 'x) ConnWorld \<Rightarrow> ('f, 'x) ConnWorld" where
  "log_line msg w = w\<lparr>logged := logged w @ [msg @ [CHR 0x0A]]\<rparr>"

text \<open>An operation of the connection's channel, on the reactor of its loop.\<close>

definition chan_op ::
  "(chan_cb Reactor \<Rightarrow> nat \<Rightarrow> chan_cb Reactor result) \<Rightarrow> ('f, 'x) ConnWorld \<Rightarrow> ('f, 'x) ConnWorld result" where
  "chan_op f w =
     res_bind (f (m_epoller (m_loop w)) (m_channel (conn w)))
       (\<lambda>r. Inr (w\<lparr>m_loop := (m_loop w)\<lparr>m_epoller := r\<rparr>\<rparr>))"

definition channel_isWriting :: "('f, 'x) ConnWorld \<Rightarrow> bool result" where
  "channel_isWriting w =
     res_bind (deref (m_epoller (m_loop w)) (m_channel (conn w))) (\<lambda>c. Inr (isWriting c))"

definition channel_tie :: "nat \<Rightarrow> chan_cb Reactor \<Rightarrow> nat \<Rightarrow> chan_cb Reactor result" where
  "channel_tie obj r p = res_bind (deref r p) (\<lambda>c. Inr (put_chan r p (Tie obj c)))"

definition connectionEstablished ::
  "(('f, 'x) ConnWorld \<Rightarrow> ('f, 'x) ConnWorld result) \<Rightarrow> nat \<Rightarrow> ('f, 'x) ConnWorld \<Rightarrow> ('f, 'x) ConnWorld result" where
  "connectionEstablished connection_callback tid w =
     res_bind (assertInLoopThread (m_loop w) tid) (\<lambda>_.
       let w1 = set_state kConnected w in
       res_bind (chan_op (channel_tie (m_self (conn w1))) w1) (\<lambda>w2.
         res_bind (chan_op enableReading w2) connection_callback))"

definition connectionDestructor ::
  "(('f, 'x) ConnWorld \<Rightarrow> ('f, 'x) ConnWorld result) \<Rightarrow> nat \<Rightarrow> ('f, 'x) ConnWorld \<Rightarrow> ('f, 'x) ConnWorld result" where
  "connectionDestructor connection_callback tid w =
     res_bind (assertInLoopThread (m_loop w) tid) (\<lambda>_.
       res_bind
         (if m_state (conn w) = kConnected \<or> m_state (conn w) = kDisconnecting
          then chan_op disableAll (set_state kDisconnected w) else Inr w)
         (\<lambda>w1. res_bind (connection_callback w1) (chan_op removeChannel)))"

text \<open>\<open>getErrno\<close>: \<open>gso\<close> is what \<open>getsockopt(SO_ERROR)\<close> did.  \<open>strerror\<close> is the C library's.\<close>

fun errno_num :: "errno \<Rightarrow> int" where
  "errno_num EAGAIN = 11" | "errno_num EBADF = 9" | "errno_num EFAULT = 14"
| "errno_num EINTR = 4" | "errno_num EINVAL = 22" | "errno_num EIO = 5" | "errno_num ENOMEM = 12"
| "errno_num EPIPE = 32" | "errno_num ECONNRESET = 104" | "errno_num EMFILE = 24"
| "errno_num (EOTHER n) = n"

definition getErrno :: "errno + int \<Rightarrow> int" where
  "getErrno gso = (case gso of Inl e \<Rightarrow> errno_num e | Inr optval \<Rightarrow> optval)"

definition handleError ::
  "(int \<Rightarrow> string) \<Rightarrow> errno + int \<Rightarrow> ('f, 'x) ConnWorld \<Rightarrow> ('f, 'x) ConnWorld result" where
  "handleError strerror gso w =
     (let err = getErrno gso
      in Inr (log_line (''TcpConnection::handleError ['' @ int_dec (m_conn_id (conn w)) @
                ''] - SO_ERROR = '' @ int_dec err @ '' '' @ strerror err) w))"

definition handleClose ::
  "(('f, 'x) ConnWorld \<Rightarrow> ('f, 'x) ConnWorld result) \<Rightarrow> nat \<Rightarrow> ('f, 'x) ConnWorld \<Rightarrow> ('f, 'x) ConnWorld result" where
  "handleClose close_callback tid w =
     res_bind (assertInLoopThread (m_loop w) tid) (\<lambda>_.
       assert_then (m_state (conn w) = kConnected \<or> m_state (conn w) = kDisconnecting)
         (res_bind (chan_op disableAll (set_state kDisconnected w)) close_callback))"

definition read_error_msg :: "(int \<Rightarrow> string) \<Rightarrow> int \<Rightarrow> string" where
  "read_error_msg strerror saved_errno =
     (if saved_errno = errno_num EAGAIN then ''EAGAIN: Resource temporarily unavailable''
      else if saved_errno = errno_num EBADF then ''EBADF: Bad file descriptor''
      else if saved_errno = errno_num EFAULT then ''EFAULT: IOV buffer not in accessible memory''
      else if saved_errno = errno_num EINTR then ''EINTR: Interrupted system call''
      else if saved_errno = errno_num EINVAL then ''EINVAL: Invalid argument''
      else if saved_errno = errno_num EIO then ''EIO: I/O error''
      else if saved_errno = errno_num ENOMEM then ''ENOMEM: Out of memory''
      else strerror saved_errno)"

text \<open>
  \<open>handleRead\<close>: \<open>saved_errno\<close> is passed by value to \<open>readFd\<close>, so it is still zero
  in the tests that follow a failed read.
\<close>

definition conn_handleRead ::
  "(('f, 'x) ConnWorld \<Rightarrow> ('f, 'x) ConnWorld result) \<Rightarrow> (('f, 'x) ConnWorld \<Rightarrow> ('f, 'x) ConnWorld result) \<Rightarrow>
   (int \<Rightarrow> string) \<Rightarrow> errno + int \<Rightarrow> nat \<Rightarrow> errno + char list \<Rightarrow>
   ('f, 'x) ConnWorld \<Rightarrow> ('f, 'x) ConnWorld result" where
  "conn_handleRead message_callback close_callback strerror gso tid rv w =
     res_bind (assertInLoopThread (m_loop w) tid) (\<lambda>_.
       let saved_errno = 0 in
       res_bind (readFd (m_input_buffer (conn w)) saved_errno rv) (\<lambda>(n, b).
         let w1 = w\<lparr>conn := (conn w)\<lparr>m_input_buffer := b\<rparr>\<rparr> in
         if n > 0 then message_callback w1
         else if n = 0 then handleClose close_callback tid w1
         else
           res_bind (if saved_errno \<noteq> errno_num EAGAIN then handleClose close_callback tid w1 else Inr w1)
             (\<lambda>w2. handleError strerror gso
                (log_line (''TcpConnection::HandleMessage readv failed: '' @
                   read_error_msg strerror saved_errno @ '' (errno: '' @ int_dec saved_errno @ '')'') w2))))"

text \<open>
  \<open>shutDownInLoop\<close>: \<open>sres\<close> is the error \<open>shutdown(SHUT_WR)\<close> returned, if any.
\<close>

definition shutDownInLoop ::
  "(int \<Rightarrow> string) \<Rightarrow> nat \<Rightarrow> errno option \<Rightarrow> ('f, 'x) ConnWorld \<Rightarrow> ('f, 'x) ConnWorld result" where
  "shutDownInLoop strerror tid sres w =
     res_bind (assertInLoopThread (m_loop w) tid) (\<lambda>_.
       res_bind (channel_isWriting w) (\<lambda>writing.
         if \<not> writing then
           (case sres of
              None \<Rightarrow> Inr (w\<lparr>wr_shut := True\<rparr>)
            | Some e \<Rightarrow> Inr (log_line
                ((if e = EIO then ''TcpConnection::Shutdown I/O error occurred: ''
                  else if e = ECONNRESET then ''TcpConnection::Shutdown connection reset by peer: ''
                  else ''TcpConnection::Shutdown error: '') @
                 strerror (errno_num e) @ '' (errno: '' @ int_dec (errno_num e) @ '')'') w))
         else Inr w))"

text \<open>\<open>wres\<close> is what \<open>write\<close> returned: an error or how many bytes it took.\<close>

definition conn_handleWrite ::
  "(int \<Rightarrow> string) \<Rightarrow> nat \<Rightarrow> errno + nat \<Rightarrow> errno option \<Rightarrow> ('f, 'x) ConnWorld \<Rightarrow> ('f, 'x) ConnWorld result" where
  "conn_handleWrite strerror tid wres sres w =
     res_bind (assertInLoopThread (m_loop w) tid) (\<lambda>_.
       res_bind (channel_isWriting w) (\<lambda>writing.
         if \<not> writing then Inr w
         else case wres of
           Inl _ \<Rightarrow> Inr w
         | Inr n \<Rightarrow>
             (let b = m_output_buffer (conn w);
                  w1 = w\<lparr>wire := wire w @ take n (Prelude.slice (m_buffer b) (peek b) (peek b + readableBytes b))\<rparr>
              in if n > 0 then
                   res_bind (retrieve b (int n)) (\<lambda>b1.
                     let w2 = w1\<lparr>conn := (conn w1)\<lparr>m_output_buffer := b1\<rparr>\<rparr> in
                     if readableBytes b1 = 0 then
                       res_bind (chan_op disableWriting w2) (\<lambda>w3.
                         if m_state (conn w3) = kDisconnecting then shutDownInLoop strerror tid sres w3
                         else Inr w3)
                     else Inr w2)
                 else Inr w1)))"

definition shutdown_message :: "TcpConnection \<Rightarrow> string" where
  "shutdown_message c = ''TcpConnection::Shutdown connection '' @ int_dec (m_conn_id c)"

definition shutDown ::
  "(int \<Rightarrow> string) \<Rightarrow> nat \<Rightarrow> errno option \<Rightarrow> ('f, 'x) ConnWorld \<Rightarrow> ('f, 'x) ConnWorld result" where
  "shutDown strerror tid sres w =
     (if m_state (conn w) = kConnected then
        let w1 = log_line (shutdown_message (conn w))
                   (set_state kDisconnecting w)
        in if isInLoopThread (m_loop w1) tid then shutDownInLoop strerror tid sres w1
           else Inr (w1\<lparr>m_loop := queueInLoop (m_loop w1) tid (FShutDownInLoop (m_self (conn w1)))\<rparr>)
      else Inr w)"

definition forceClose :: "nat \<Rightarrow> ('f, 'x) ConnWorld \<Rightarrow> ('f, 'x) ConnWorld" where
  "forceClose tid w =
     (if m_state (conn w) = kConnected \<or> m_state (conn w) = kDisconnecting then
        let w1 = set_state kDisconnecting w
        in w1\<lparr>m_loop := queueInLoop (m_loop w1) tid (FForceCloseInLoop (m_self (conn w1)))\<rparr>
      else w)"

definition forceCloseInLoop ::
  "(('f, 'x) ConnWorld \<Rightarrow> ('f, 'x) ConnWorld result) \<Rightarrow> nat \<Rightarrow> ('f, 'x) ConnWorld \<Rightarrow> ('f, 'x) ConnWorld result" where
  "forceCloseInLoop close_callback tid w =
     res_bind (assertInLoopThread (m_loop w) tid) (\<lambda>_.
       if m_state (conn w) = kConnected \<or> m_state (conn w) = kDisconnecting
       then handleClose close_callback tid w else Inr w)"

text \<open>
  \<open>sendInLoop\<close>: the write that is tried first, how many bytes are left, and whether the
  error is one after which the rest is dropped; queueing the rest; and the whole function.
\<close>

definition first_write :: "errno + nat \<Rightarrow> int \<Rightarrow> int \<times> int \<times> bool" where
  "first_write wres len =
     (case wres of
        Inr n \<Rightarrow> (int n, len - int n, False)
      | Inl e \<Rightarrow> (0, len, e \<noteq> EAGAIN \<and> (e = EPIPE \<or> e = ECONNRESET)))"

definition queue_rest :: "char list \<Rightarrow> ('f, 'x) ConnWorld \<Rightarrow> ('f, 'x) ConnWorld result" where
  "queue_rest data w =
     res_bind (buf_append (m_output_buffer (conn w)) data) (\<lambda>b.
       let w1 = w\<lparr>conn := (conn w)\<lparr>m_output_buffer := b\<rparr>\<rparr>
       in res_bind (channel_isWriting w1) (\<lambda>writing.
            if \<not> writing then chan_op enableWriting w1 else Inr w1))"

definition sendInLoop ::
  "nat \<Rightarrow> errno + nat \<Rightarrow> char list \<Rightarrow> ('f, 'x) ConnWorld \<Rightarrow> ('f, 'x) ConnWorld result" where
  "sendInLoop tid wres msg w =
     res_bind (assertInLoopThread (m_loop w) tid) (\<lambda>_.
       let len = int (length msg) in
       if m_state (conn w) = kDisconnected then Inr w
       else res_bind (channel_isWriting w) (\<lambda>writing.
         let direct = \<not> writing \<and> readableBytes (m_output_buffer (conn w)) = 0;
             (wroteNum, remaining, faultError) =
               (if direct then first_write wres len else (0, len, False));
             w1 = w\<lparr>wire := wire w @ take (nat wroteNum) msg\<rparr>;
             w2 = (if direct \<and> (\<exists>e. wres = Inl e \<and> e \<noteq> EAGAIN)
                   then log_line ''TcpConnection::Send write failed'' w1 else w1)
         in assert_then (0 \<le> remaining \<and> remaining \<le> len)
              (if \<not> faultError \<and> remaining > 0 then queue_rest (drop (nat wroteNum) msg) w2
               else Inr w2)))"

text \<open>
  \<open>send\<close>.  From another thread the functor holds the pointer it was given, here the name
  \<open>src\<close> of the caller's memory, and not the bytes.
\<close>

definition send_bytes ::
  "nat \<Rightarrow> errno + nat \<Rightarrow> nat \<Rightarrow> char list \<Rightarrow> ('f, 'x) ConnWorld \<Rightarrow> ('f, 'x) ConnWorld result" where
  "send_bytes tid wres src message w =
     (if m_state (conn w) = kConnected then
        if isInLoopThread (m_loop w) tid then sendInLoop tid wres message w
        else Inr (w\<lparr>m_loop := queueInLoop (m_loop w) tid
                       (FSendInLoop (m_self (conn w)) src (int (length message)))\<rparr>)
      else Inr w)"

definition send_string ::
  "nat \<Rightarrow> errno + nat \<Rightarrow> nat \<Rightarrow> string \<Rightarrow> ('f, 'x) ConnWorld \<Rightarrow> ('f, 'x) ConnWorld result" where
  "send_string tid wres src message w = send_bytes tid wres src message w"

definition send_buffer ::
  "nat \<Rightarrow> errno + nat \<Rightarrow> nat \<Rightarrow> Buffer \<Rightarrow> ('f, 'x) ConnWorld \<Rightarrow> (Buffer \<times> ('f, 'x) ConnWorld) result" where
  "send_buffer tid wres src message w =
     (if m_state (conn w) = kConnected then
        let bytes = Prelude.slice (m_buffer message) (peek message) (peek message + readableBytes message) in
        if isInLoopThread (m_loop w) tid
        then res_bind (sendInLoop tid wres bytes w) (\<lambda>w1. Inr (retrieveAll message, w1))
        else Inr (retrieveAll message, w\<lparr>m_loop := queueInLoop (m_loop w) tid
                       (FSendInLoop (m_self (conn w)) src (readableBytes message))\<rparr>)
      else Inr (message, w))"

text \<open>What the loop runs for a queued functor of this connection; \<open>mem\<close> is the memory then.\<close>

definition run_conn_functor ::
  "(('f, 'x) ConnWorld \<Rightarrow> ('f, 'x) ConnWorld result) \<Rightarrow> (int \<Rightarrow> string) \<Rightarrow> (nat \<Rightarrow> char list) \<Rightarrow> nat \<Rightarrow>
   errno + nat \<Rightarrow> errno option \<Rightarrow> 'f loop_task \<Rightarrow> ('f, 'x) ConnWorld \<Rightarrow> ('f, 'x) ConnWorld result" where
  "run_conn_functor close_callback strerror mem tid wres sres f w =
     (case f of
        FSendInLoop i src len \<Rightarrow>
          if int (length (mem src)) < len then Inl OutOfBounds
          else sendInLoop tid wres (take (nat len) (mem src)) w
      | FShutDownInLoop i \<Rightarrow> shutDownInLoop strerror tid sres w
      | FForceCloseInLoop i \<Rightarrow> forceCloseInLoop close_callback tid w
      | _ \<Rightarrow> Inr w)"

section \<open>Invariant\<close>

text \<open>
  The channel of the connection is known to the reactor; write events are asked for exactly
  while output is queued; and the output buffer is one its operations can produce.
\<close>

definition chan_of :: "('f, 'x) ConnWorld \<Rightarrow> chan_cb Channel \<Rightarrow> bool" where
  "chan_of w c \<longleftrightarrow> reactor_inv (m_epoller (m_loop w)) \<and>
     chans (m_epoller (m_loop w)) (m_channel (conn w)) = Some c \<and>
     updatable (m_epoller (m_loop w)) (m_channel (conn w)) c"

definition outq :: "('f, 'x) ConnWorld \<Rightarrow> char list" where
  "outq w = readable (m_output_buffer (conn w))"

definition flow_inv :: "('f, 'x) ConnWorld \<Rightarrow> bool" where
  "flow_inv w \<longleftrightarrow> (\<exists>c. chan_of w c \<and> (isWriting c \<longleftrightarrow> outq w \<noteq> [])) \<and> reach_inv (m_output_buffer (conn w))"

text \<open>What no operation on the data path changes.\<close>

definition same_frame :: "('f, 'x) ConnWorld \<Rightarrow> ('f, 'x) ConnWorld \<Rightarrow> bool" where
  "same_frame w w' \<longleftrightarrow> m_state (conn w') = m_state (conn w) \<and> env w' = env w \<and>
     m_parser (conn w') = m_parser (conn w) \<and> m_input_buffer (conn w') = m_input_buffer (conn w) \<and>
     m_thread_id (m_loop w') = m_thread_id (m_loop w)"

lemma same_frame_refl [simp]: "same_frame w w"
  by (simp add: same_frame_def)

lemma in_loop_assert [simp]: "isInLoopThread l tid \<Longrightarrow> assertInLoopThread l tid = Inr ()"
  by (simp add: assertInLoopThread_def)

lemma channel_isWriting_of [simp]: "chan_of w c \<Longrightarrow> channel_isWriting w = Inr (isWriting c)"
  by (simp add: chan_of_def channel_isWriting_def)

lemma chan_of_cong:
  "m_loop w' = m_loop w \<Longrightarrow> m_channel (conn w') = m_channel (conn w) \<Longrightarrow> chan_of w' c \<longleftrightarrow> chan_of w c"
  by (simp add: chan_of_def)

lemma chan_op_mask:
  assumes "chan_of w c"
  shows "\<exists>r. chan_op (set_and_update f) w = Inr (w\<lparr>m_loop := (m_loop w)\<lparr>m_epoller := r\<rparr>\<rparr>) \<and>
     chan_of (w\<lparr>m_loop := (m_loop w)\<lparr>m_epoller := r\<rparr>\<rparr>)
       (c\<lparr>m_events := f (m_events c), m_index := index_after c (f (m_events c))\<rparr>)"
proof -
  obtain r where "set_and_update f (m_epoller (m_loop w)) (m_channel (conn w)) = Inr r" "reactor_inv r"
    "m_channels r = (m_channels (m_epoller (m_loop w)))(m_fd c \<mapsto> m_channel (conn w))"
    "chans r = (chans (m_epoller (m_loop w)))(m_channel (conn w) \<mapsto>
       c\<lparr>m_events := f (m_events c), m_index := index_after c (f (m_events c))\<rparr>)"
    using assms set_and_update_effect [of "m_epoller (m_loop w)" "m_channel (conn w)" c f]
    by (auto simp: chan_of_def)
  then show ?thesis
    by (auto simp: chan_op_def chan_of_def updatable_def index_after_def intro!: exI [of _ r])
qed

lemma and_not_and [simp]: "(e AND NOT m) AND m = (0 :: 32 word)"
  by (rule bit_word_eqI) (auto simp: bit_simps)

lemma set_writing:
  assumes "chan_of w c"
  shows "\<exists>w' c'. chan_op enableWriting w = Inr w' \<and> chan_of w' c' \<and> isWriting c' \<and>
      w' = w\<lparr>m_loop := m_loop w'\<rparr> \<and> same_frame w w'"
    and "\<exists>w' c'. chan_op disableWriting w = Inr w' \<and> chan_of w' c' \<and> \<not> isWriting c' \<and>
      w' = w\<lparr>m_loop := m_loop w'\<rparr> \<and> same_frame w w'"
proof -
  obtain r where r: "chan_op enableWriting w = Inr (w\<lparr>m_loop := (m_loop w)\<lparr>m_epoller := r\<rparr>\<rparr>)"
    "chan_of (w\<lparr>m_loop := (m_loop w)\<lparr>m_epoller := r\<rparr>\<rparr>) (c\<lparr>m_events := m_events c OR kWriteEvent,
       m_index := index_after c (m_events c OR kWriteEvent)\<rparr>)"
    using chan_op_mask [OF assms, of "\<lambda>e. e OR kWriteEvent"] by (auto simp: enableWriting_def)
  show "\<exists>w' c'. chan_op enableWriting w = Inr w' \<and> chan_of w' c' \<and> isWriting c' \<and>
      w' = w\<lparr>m_loop := m_loop w'\<rparr> \<and> same_frame w w'"
    by (intro exI conjI, rule r(1), rule r(2)) (simp_all add: isWriting_def mask_simps same_frame_def)
  obtain r where r: "chan_op disableWriting w = Inr (w\<lparr>m_loop := (m_loop w)\<lparr>m_epoller := r\<rparr>\<rparr>)"
    "chan_of (w\<lparr>m_loop := (m_loop w)\<lparr>m_epoller := r\<rparr>\<rparr>) (c\<lparr>m_events := m_events c AND NOT kWriteEvent,
       m_index := index_after c (m_events c AND NOT kWriteEvent)\<rparr>)"
    using chan_op_mask [OF assms, of "\<lambda>e. e AND NOT kWriteEvent"] by (auto simp: disableWriting_def)
  show "\<exists>w' c'. chan_op disableWriting w = Inr w' \<and> chan_of w' c' \<and> \<not> isWriting c' \<and>
      w' = w\<lparr>m_loop := m_loop w'\<rparr> \<and> same_frame w w'"
    by (intro exI conjI, rule r(1), rule r(2)) (simp_all add: isWriting_def mask_simps same_frame_def)
qed

lemma outq_empty: "reach_inv (m_output_buffer (conn w)) \<Longrightarrow>
   readableBytes (m_output_buffer (conn w)) = 0 \<longleftrightarrow> outq w = []"
  by (simp add: outq_def reach_inv_def readable_Nil)

text \<open>An append to the output that keeps the queued bytes.\<close>

lemma append_output:
  assumes "reach_inv b" "readable b \<noteq> [] \<longrightarrow> \<not> compacts b (int (length d))"
  shows "\<exists>b'. buf_append b d = Inr b' \<and> reach_inv b' \<and> readable b' = readable b @ d"
proof -
  have inv: "buf_inv b" using assms(1) by (simp add: reach_inv_def)
  have "\<not> compacts b (int (length d))"
    using assms drained_not_compacts [of b] readable_Nil [OF inv] by (auto simp: reach_inv_def)
  then obtain b' where b': "buf_append b d = Inr b'" "buf_inv b'" "readable b' = readable b @ d"
    "m_read_index b' = m_read_index b"
    using buf_append_keeps [OF inv] by blast
  then have "readableBytes b' = readableBytes b + int (length d)"
    using length_readable [OF b'(2)] length_readable [OF inv] by simp
  then show ?thesis using b' reach_inv_grow [OF assms(1) b'(2)] by blast
qed

text \<open>Queueing bytes and asking for write events.\<close>

lemma queue_output:
  assumes "chan_of w c" "isWriting c \<longleftrightarrow> outq w \<noteq> []" "reach_inv (m_output_buffer (conn w))" "d \<noteq> []"
    and "outq w \<noteq> [] \<longrightarrow> \<not> compacts (m_output_buffer (conn w)) (int (length d))"
  shows "\<exists>w'. queue_rest d w = Inr w' \<and> flow_inv w' \<and> outq w' = outq w @ d \<and> wire w' = wire w \<and> wr_shut w' = wr_shut w \<and> same_frame w w'"
proof -
  obtain b where b: "buf_append (m_output_buffer (conn w)) d = Inr b" "reach_inv b" "readable b = outq w @ d"
    using append_output [OF assms(3), of d] assms(5) by (auto simp: outq_def)
  let ?w = "w\<lparr>conn := (conn w)\<lparr>m_output_buffer := b\<rparr>\<rparr>"
  have c: "chan_of ?w c" using assms(1) by (simp add: chan_of_cong [of ?w w])
  show ?thesis
  proof (cases "isWriting c")
    case True
    then show ?thesis using b c assms(4)
      by (auto simp: queue_rest_def flow_inv_def outq_def same_frame_def)
  next
    case False
    obtain w' c' where w': "chan_op enableWriting ?w = Inr w'" "chan_of w' c'" "isWriting c'"
      "w' = ?w\<lparr>m_loop := m_loop w'\<rparr>" "same_frame ?w w'"
      using set_writing(1) [OF c] by blast
    have f: "conn w' = conn ?w" "wire w' = wire w" "wr_shut w' = wr_shut w"
      by (subst w'(4), simp)+
    show ?thesis using b c False w'(1-3,5) f assms(4)
      by (auto simp: queue_rest_def flow_inv_def outq_def same_frame_def)
  qed
qed

text \<open>What a \<open>write\<close> of \<open>len\<close> bytes can return without losing the connection.\<close>

fun write_ok :: "nat \<Rightarrow> errno + nat \<Rightarrow> bool" where
  "write_ok len (Inr n) = (n \<le> len)"
| "write_ok len (Inl e) = (e \<noteq> EPIPE \<and> e \<noteq> ECONNRESET)"

lemma sendInLoop_flow:
  assumes inv: "flow_inv w" and thread: "isInLoopThread (m_loop w) tid"
    and st: "m_state (conn w) \<noteq> kDisconnected" and wr: "write_ok (length msg) wres"
    and fits: "outq w \<noteq> [] \<longrightarrow> \<not> compacts (m_output_buffer (conn w)) (int (length msg))"
  shows "\<exists>w'. sendInLoop tid wres msg w = Inr w' \<and> flow_inv w' \<and>
     wire w' @ outq w' = wire w @ outq w @ msg \<and> wr_shut w' = wr_shut w \<and> same_frame w w'"
proof -
  obtain c where c: "chan_of w c" "isWriting c \<longleftrightarrow> outq w \<noteq> []" "reach_inv (m_output_buffer (conn w))"
    using inv by (auto simp: flow_inv_def)
  note direct = outq_empty [OF c(3)]
  define k where "k = (if outq w = [] then (case wres of Inr n \<Rightarrow> n | Inl e \<Rightarrow> 0) else 0)"
  define w2 where "w2 =
    (if outq w = [] \<and> (\<exists>e. wres = Inl e \<and> e \<noteq> EAGAIN)
     then log_line ''TcpConnection::Send write failed'' (w\<lparr>wire := wire w @ take k msg\<rparr>)
     else w\<lparr>wire := wire w @ take k msg\<rparr>)"
  have w2: "m_loop w2 = m_loop w" "conn w2 = conn w" "wire w2 = wire w @ take k msg"
    "wr_shut w2 = wr_shut w" "env w2 = env w"
    by (simp_all add: w2_def log_line_def)
  have c2: "chan_of w2 c" "outq w2 = outq w" using c(1) w2 by (simp_all add: chan_of_cong [of w2 w] outq_def)
  have k: "k \<le> length msg" "outq w \<noteq> [] \<Longrightarrow> k = 0"
    using wr by (auto simp: k_def split: sum.splits)
  have send: "sendInLoop tid wres msg w = (if drop k msg \<noteq> [] then queue_rest (drop k msg) w2 else Inr w2)"
    using thread st c wr direct unfolding sendInLoop_def first_write_def k_def w2_def
    by (cases wres; cases "outq w = []") (auto simp: Let_def)
  show ?thesis
  proof (cases "drop k msg = []")
    case True
    then have "take k msg = msg" "outq w = [] \<or> msg = []" using k by (auto intro: le_antisym)
    then show ?thesis using True send w2 c c2 by (auto simp: flow_inv_def outq_def same_frame_def)
  next
    case False
    have "outq w2 \<noteq> [] \<longrightarrow> \<not> compacts (m_output_buffer (conn w2)) (int (length (drop k msg)))"
      using fits k(2) w2(2) c2(2) by auto
    from queue_output [OF c2(1) _ _ False this] c c2(2) w2(2)
    obtain w' where "sendInLoop tid wres msg w = Inr w'" "flow_inv w'" "outq w' = outq w @ drop k msg"
      "wire w' = wire w @ take k msg" "wr_shut w' = wr_shut w" "same_frame w2 w'"
      using send False w2 by auto
    then show ?thesis using k w2 by (cases "outq w = []") (auto simp: same_frame_def)
  qed
qed

text \<open>Shutting down and draining.\<close>

lemma shutDownInLoop_flow:
  assumes "flow_inv w" "isInLoopThread (m_loop w) tid"
  shows "shutDownInLoop strerror tid None w = Inr (if outq w = [] then w\<lparr>wr_shut := True\<rparr> else w)"
  using assms by (auto simp: flow_inv_def shutDownInLoop_def)

lemma flow_inv_cong:
  "m_loop w' = m_loop w \<Longrightarrow> m_channel (conn w') = m_channel (conn w) \<Longrightarrow>
   m_output_buffer (conn w') = m_output_buffer (conn w) \<Longrightarrow> flow_inv w' \<longleftrightarrow> flow_inv w"
  by (simp add: flow_inv_def outq_def chan_of_def)

lemma log_line_fields [simp]:
  "m_loop (log_line msg w) = m_loop w" "conn (log_line msg w) = conn w" "wire (log_line msg w) = wire w"
  "wr_shut (log_line msg w) = wr_shut w" "env (log_line msg w) = env w"
  by (simp_all add: log_line_def)

lemma set_state_fields [simp]:
  "m_loop (set_state st w) = m_loop w" "conn (set_state st w) = (conn w)\<lparr>m_state := st\<rparr>"
  "wire (set_state st w) = wire w" "wr_shut (set_state st w) = wr_shut w" "env (set_state st w) = env w"
  by (simp_all add: set_state_def)

lemma flow_inv_frame [simp]:
  "flow_inv (log_line msg w) \<longleftrightarrow> flow_inv w" "outq (log_line msg w) = outq w"
  "flow_inv (set_state st w) \<longleftrightarrow> flow_inv w" "outq (set_state st w) = outq w"
  "flow_inv (w\<lparr>wr_shut := b\<rparr>) \<longleftrightarrow> flow_inv w" "outq (w\<lparr>wr_shut := b\<rparr>) = outq w"
  by (simp_all add: flow_inv_def outq_def chan_of_def)

lemma drain_output:
  assumes "flow_inv w" "0 < n" "n \<le> length (outq w)"
  shows "\<exists>b. retrieve (m_output_buffer (conn w)) (int n) = Inr b \<and> reach_inv b \<and>
     readable b = drop n (outq w) \<and> (readableBytes b = 0 \<longleftrightarrow> drop n (outq w) = [])"
proof -
  have r: "reach_inv (m_output_buffer (conn w))" using assms(1) by (simp add: flow_inv_def)
  then have "buf_inv (m_output_buffer (conn w))" by (simp add: reach_inv_def)
  then obtain b where b: "retrieve (m_output_buffer (conn w)) (int n) = Inr b" "buf_inv b"
    "readable b = drop n (outq w)"
    using bq.discard_law [of "m_output_buffer (conn w)" "int n"] assms(3) by (auto simp: outq_def)
  then have "reach_inv b" using reach_inv_retrieve [OF r _ b(1)] by simp
  then show ?thesis using b readable_Nil [OF b(2)] by auto
qed

lemma written_bytes:
  assumes "flow_inv w"
  defines "b \<equiv> m_output_buffer (conn w)"
  shows "Prelude.slice (m_buffer b) (peek b) (peek b + readableBytes b) = outq w"
  by (simp add: b_def outq_def readable_def peek_def buf_defs)

lemma handleWrite_flow:
  assumes inv: "flow_inv w" and thread: "isInLoopThread (m_loop w) tid"
    and n: "case wres of Inl _ \<Rightarrow> True | Inr n \<Rightarrow> n \<le> length (outq w)"
  shows "\<exists>w'. conn_handleWrite strerror tid wres None w = Inr w' \<and> flow_inv w' \<and>
     wire w' @ outq w' = wire w @ outq w \<and> same_frame w w' \<and>
     (wr_shut w' \<longleftrightarrow> wr_shut w \<or> (m_state (conn w) = kDisconnecting \<and> outq w \<noteq> [] \<and> outq w' = []))"
proof -
  obtain c where c: "chan_of w c" "isWriting c \<longleftrightarrow> outq w \<noteq> []" using inv by (auto simp: flow_inv_def)
  show ?thesis
  proof (cases "outq w = [] \<or> (\<exists>e. wres = Inl e) \<or> wres = Inr 0")
    case True
    then have "conn_handleWrite strerror tid wres None w = Inr w"
      using c thread by (auto simp: conn_handleWrite_def Let_def split: sum.splits)
    then show ?thesis using inv by auto
  next
    case False
    then obtain k where k: "wres = Inr k" "0 < k" "k \<le> length (outq w)" "outq w \<noteq> []"
      using n by (cases wres) auto
    obtain b where b: "retrieve (m_output_buffer (conn w)) (int k) = Inr b" "reach_inv b"
      "readable b = drop k (outq w)" "readableBytes b = 0 \<longleftrightarrow> drop k (outq w) = []"
      using drain_output [OF inv k(2,3)] by blast
    let ?w = "w\<lparr>wire := wire w @ take k (outq w), conn := (conn w)\<lparr>m_output_buffer := b\<rparr>\<rparr>"
    have cw: "chan_of ?w c" using c(1) by (simp add: chan_of_cong [of ?w w])
    obtain w' c' where w': "chan_op disableWriting ?w = Inr w'" "chan_of w' c'" "\<not> isWriting c'"
      "w' = ?w\<lparr>m_loop := m_loop w'\<rparr>" "same_frame ?w w'"
      using set_writing(2) [OF cw] by blast
    have f: "conn w' = conn ?w" "wire w' = wire ?w" "wr_shut w' = wr_shut w"
      by (subst w'(4), simp)+
    have step: "conn_handleWrite strerror tid wres None w =
        (if drop k (outq w) = [] then
           (if m_state (conn w) = kDisconnecting then shutDownInLoop strerror tid None w' else Inr w')
         else Inr ?w)"
      using thread c k b w'(1) f(1) written_bytes [OF inv]
      by (simp add: conn_handleWrite_def Let_def del: take_all take_all_iff drop_eq_Nil drop_all)
    show ?thesis
    proof (cases "drop k (outq w) = []")
      case True
      have fl: "flow_inv w'" "outq w' = []"
        using w'(2,3) f(1) b True by (auto simp: flow_inv_def outq_def)
      moreover have "isInLoopThread (m_loop w') tid"
        using thread w'(5) by (simp add: same_frame_def isInLoopThread_def)
      ultimately show ?thesis using step True f w'(5) k(4) shutDownInLoop_flow [of w' tid strerror]
        by (auto simp: same_frame_def)
    next
      case False
      have "flow_inv ?w" "outq ?w = drop k (outq w)"
        using cw c(2) k(4) b False by (auto simp: flow_inv_def outq_def)
      then show ?thesis using step False by (auto simp: same_frame_def)
    qed
  qed
qed

section \<open>Sequences of operations on the loop thread\<close>

text \<open>
  The data path: a message is sent, the socket becomes writable, the connection is shut down.
  \<open>ev_ok\<close> says what the kernel may answer: \<open>write\<close> takes no more than it was given and
  does not report a broken connection.  It also asks that a message which is appended behind
  unsent output does not take the branch of \<open>append\<close> that moves the indices.
\<close>

datatype conn_event = EvSend "char list" "errno + nat" | EvWritable "errno + nat" | EvShutDown

definition conn_event_step ::
  "(int \<Rightarrow> string) \<Rightarrow> nat \<Rightarrow> conn_event \<Rightarrow> ('f, 'x) ConnWorld \<Rightarrow> ('f, 'x) ConnWorld result" where
  "conn_event_step strerror tid ev w =
     (case ev of
        EvSend msg wres \<Rightarrow> send_bytes tid wres 0 msg w
      | EvWritable wres \<Rightarrow> conn_handleWrite strerror tid wres None w
      | EvShutDown \<Rightarrow> shutDown strerror tid None w)"

definition ev_ok :: "conn_event \<Rightarrow> ('f, 'x) ConnWorld \<Rightarrow> bool" where
  "ev_ok ev w =
     (case ev of
        EvSend msg wres \<Rightarrow> write_ok (length msg) wres \<and>
          (outq w \<noteq> [] \<longrightarrow> \<not> compacts (m_output_buffer (conn w)) (int (length msg)))
      | EvWritable wres \<Rightarrow> (case wres of Inl _ \<Rightarrow> True | Inr n \<Rightarrow> n \<le> length (outq w))
      | EvShutDown \<Rightarrow> True)"

fun evs_ok :: "(int \<Rightarrow> string) \<Rightarrow> nat \<Rightarrow> conn_event list \<Rightarrow> ('f, 'x) ConnWorld \<Rightarrow> bool" where
  "evs_ok strerror tid [] w = True"
| "evs_ok strerror tid (e # es) w =
     (ev_ok e w \<and> (case conn_event_step strerror tid e w of Inl _ \<Rightarrow> True | Inr w' \<Rightarrow> evs_ok strerror tid es w'))"

text \<open>The bytes of the messages sent before the shutdown.\<close>

fun accepted :: "conn_event list \<Rightarrow> char list" where
  "accepted [] = []"
| "accepted (EvSend msg _ # es) = msg @ accepted es"
| "accepted (EvWritable _ # es) = accepted es"
| "accepted (EvShutDown # es) = []"

definition pipe_inv :: "nat \<Rightarrow> ('f, 'x) ConnWorld \<Rightarrow> bool" where
  "pipe_inv tid w \<longleftrightarrow> flow_inv w \<and> isInLoopThread (m_loop w) tid \<and>
     (m_state (conn w) = kConnected \<and> \<not> wr_shut w \<or>
      m_state (conn w) = kDisconnecting \<and> (wr_shut w \<longleftrightarrow> outq w = []))"

lemma same_frame_thread: "same_frame w w' \<Longrightarrow> isInLoopThread (m_loop w') tid \<longleftrightarrow> isInLoopThread (m_loop w) tid"
  by (simp add: same_frame_def isInLoopThread_def)

lemma shutDown_pipe:
  assumes "pipe_inv tid w" "m_state (conn w) = kConnected"
  shows "\<exists>w'. shutDown strerror tid None w = Inr w' \<and> pipe_inv tid w' \<and> m_state (conn w') = kDisconnecting \<and>
     wire w' = wire w \<and> outq w' = outq w \<and> m_parser (conn w') = m_parser (conn w) \<and>
     m_input_buffer (conn w') = m_input_buffer (conn w)"
proof -
  let ?w = "log_line (shutdown_message (conn w))
    (set_state kDisconnecting w)"
  have w: "flow_inv ?w" "isInLoopThread (m_loop ?w) tid" "outq ?w = outq w" "\<not> wr_shut ?w"
    "m_state (conn ?w) = kDisconnecting" "wire ?w = wire w"
    using assms by (auto simp: pipe_inv_def)
  have "shutDown strerror tid None w = shutDownInLoop strerror tid None ?w"
    using assms(2) w(2) by (simp add: shutDown_def Let_def)
  also have "\<dots> = Inr (if outq w = [] then ?w\<lparr>wr_shut := True\<rparr> else ?w)"
    using shutDownInLoop_flow [OF w(1,2), of strerror] w(3) by simp
  finally show ?thesis using w by (auto simp: pipe_inv_def)
qed

lemma event_step_pipe:
  assumes inv: "pipe_inv tid w" and ok: "ev_ok e w"
  shows "\<exists>w'. conn_event_step strerror tid e w = Inr w' \<and> pipe_inv tid w' \<and>
     wire w' @ outq w' =
       wire w @ outq w @ (if m_state (conn w) = kConnected then accepted [e] else []) \<and>
     (m_state (conn w') = kConnected \<longleftrightarrow> m_state (conn w) = kConnected \<and> e \<noteq> EvShutDown)"
proof -
  have base: "flow_inv w" "isInLoopThread (m_loop w) tid" "m_state (conn w) \<noteq> kDisconnected"
    using inv by (auto simp: pipe_inv_def)
  show ?thesis
  proof (cases "m_state (conn w) = kConnected")
    case open_state: True
    show ?thesis
    proof (cases e)
      case (EvSend msg wres)
      then obtain w' where w': "sendInLoop tid wres msg w = Inr w'" "flow_inv w'"
        "wire w' @ outq w' = wire w @ outq w @ msg" "wr_shut w' = wr_shut w" "same_frame w w'"
        using sendInLoop_flow [OF base, of msg wres] ok by (auto simp: ev_ok_def)
      moreover have "pipe_inv tid w'" using w' open_state inv base(2)
        by (simp add: pipe_inv_def same_frame_thread) (simp add: same_frame_def)
      ultimately show ?thesis using EvSend open_state base(2)
        by (simp add: conn_event_step_def send_bytes_def same_frame_def)
    next
      case (EvWritable wres)
      then obtain w' where w': "conn_handleWrite strerror tid wres None w = Inr w'" "flow_inv w'"
        "wire w' @ outq w' = wire w @ outq w" "same_frame w w'" "wr_shut w' \<longleftrightarrow> wr_shut w"
        using handleWrite_flow [OF base(1,2), of wres strerror] ok open_state by (auto simp: ev_ok_def)
      moreover have "pipe_inv tid w'" using w' open_state inv base(2)
        by (simp add: pipe_inv_def same_frame_thread) (simp add: same_frame_def)
      ultimately show ?thesis using EvWritable open_state
        by (simp add: conn_event_step_def same_frame_def)
    next
      case EvShutDown
      then show ?thesis using shutDown_pipe [OF inv open_state, of strerror] open_state
        by (auto simp: conn_event_step_def)
    qed
  next
    case closing: False
    then have st: "m_state (conn w) = kDisconnecting" "wr_shut w \<longleftrightarrow> outq w = []"
      using inv by (auto simp: pipe_inv_def)
    show ?thesis
    proof (cases e)
      case (EvWritable wres)
      then obtain w' where w': "conn_handleWrite strerror tid wres None w = Inr w'" "flow_inv w'"
        "wire w' @ outq w' = wire w @ outq w" "same_frame w w'"
        "wr_shut w' \<longleftrightarrow> wr_shut w \<or> (m_state (conn w) = kDisconnecting \<and> outq w \<noteq> [] \<and> outq w' = [])"
        using handleWrite_flow [OF base(1,2), of wres strerror] ok by (auto simp: ev_ok_def)
      have "outq w' = []" if "outq w = []"
        using w'(1) that inv EvWritable ok base
        by (auto simp: conn_handleWrite_def flow_inv_def split: sum.splits)
      then have "pipe_inv tid w'" using w' st base(2)
        by (simp add: pipe_inv_def same_frame_thread) (auto simp: same_frame_def)
      then show ?thesis using w' st EvWritable by (simp add: conn_event_step_def same_frame_def)
    qed (use st inv in \<open>simp_all add: conn_event_step_def send_bytes_def shutDown_def\<close>)
  qed
qed

lemma events_pipe:
  assumes "pipe_inv tid w" "evs_ok strerror tid evs w"
  shows "\<exists>w'. run_all (conn_event_step strerror tid) evs w = Inr w' \<and> pipe_inv tid w' \<and>
     wire w' @ outq w' =
       wire w @ outq w @ (if m_state (conn w) = kConnected then accepted evs else []) \<and>
     (m_state (conn w') = kConnected \<longleftrightarrow> m_state (conn w) = kConnected \<and> EvShutDown \<notin> set evs)"
  using assms
proof (induction evs arbitrary: w)
  case (Cons e es)
  then obtain w1 where w1: "conn_event_step strerror tid e w = Inr w1" "pipe_inv tid w1"
    "wire w1 @ outq w1 = wire w @ outq w @ (if m_state (conn w) = kConnected then accepted [e] else [])"
    "m_state (conn w1) = kConnected \<longleftrightarrow> m_state (conn w) = kConnected \<and> e \<noteq> EvShutDown"
    using event_step_pipe [of tid w e strerror] by auto
  obtain w' where w': "run_all (conn_event_step strerror tid) es w1 = Inr w'" "pipe_inv tid w'"
    "wire w' @ outq w' =
       (wire w1 @ outq w1) @ (if m_state (conn w1) = kConnected then accepted es else [])"
    "m_state (conn w') = kConnected \<longleftrightarrow> m_state (conn w1) = kConnected \<and> EvShutDown \<notin> set es"
    using Cons.IH [OF w1(2)] Cons.prems(2) w1(1) by auto
  have "(if m_state (conn w) = kConnected then accepted [e] else []) @
      (if m_state (conn w1) = kConnected then accepted es else []) =
      (if m_state (conn w) = kConnected then accepted (e # es) else [])"
    using w1(4) by (cases e) auto
  then show ?case using w1 w' by (auto simp: append_assoc)
qed auto

section \<open>Closing\<close>

text \<open>A callback of the upper layers that does not touch this connection or its channel.\<close>

definition calm :: "(('f, 'x) ConnWorld \<Rightarrow> ('f, 'x) ConnWorld result) \<Rightarrow> bool" where
  "calm cb \<longleftrightarrow> (\<forall>w. \<exists>w'. cb w = Inr w' \<and> conn w' = conn w \<and>
     m_epoller (m_loop w') = m_epoller (m_loop w) \<and> m_thread_id (m_loop w') = m_thread_id (m_loop w))"

lemma calmE:
  assumes "calm cb"
  obtains w' where "cb w = Inr w'" "conn w' = conn w" "m_epoller (m_loop w') = m_epoller (m_loop w)"
    "m_thread_id (m_loop w') = m_thread_id (m_loop w)"
  using assms by (auto simp: calm_def)

definition open_conn :: "('f, 'x) ConnWorld \<Rightarrow> bool" where
  "open_conn w \<longleftrightarrow> m_state (conn w) = kConnected \<or> m_state (conn w) = kDisconnecting"

text \<open>The state in which \<open>handleClose\<close> calls the close callback.\<close>

lemma handleClose_calls:
  assumes "chan_of w c" "open_conn w" "isInLoopThread (m_loop w) tid"
  shows "\<exists>w1 c1. (\<forall>cb. handleClose cb tid w = cb w1) \<and> chan_of w1 c1 \<and> m_events c1 = 0 \<and> m_fd c1 = m_fd c \<and>
     w1 = w\<lparr>conn := (conn w)\<lparr>m_state := kDisconnected\<rparr>,
            m_loop := (m_loop w)\<lparr>m_epoller := m_epoller (m_loop w1)\<rparr>\<rparr> \<and>
     m_channels (m_epoller (m_loop w1)) (m_fd c1) = Some (m_channel (conn w))"
proof -
  let ?w = "set_state kDisconnected w" and ?r = "m_epoller (m_loop w)" and ?p = "m_channel (conn w)"
  let ?c = "c\<lparr>m_events := kNoneEvent, m_index := index_after c kNoneEvent\<rparr>"
  obtain r where r: "disableAll ?r ?p = Inr r" "reactor_inv r" "m_channels r = (m_channels ?r)(m_fd c \<mapsto> ?p)"
    "chans r = (chans ?r)(?p \<mapsto> ?c)"
    using assms(1) set_and_update_effect [of ?r ?p c "\<lambda>_. kNoneEvent"]
    by (auto simp: chan_of_def disableAll_def)
  let ?w1 = "?w\<lparr>m_loop := (m_loop w)\<lparr>m_epoller := r\<rparr>\<rparr>"
  have "chan_op disableAll ?w = Inr ?w1" using r(1) by (simp add: chan_op_def)
  then have "\<forall>cb. handleClose cb tid w = cb ?w1"
    using assms(2,3) by (auto simp: handleClose_def open_conn_def)
  moreover have "chan_of ?w1 ?c"
    using r by (auto simp: chan_of_def updatable_def index_after_def)
  ultimately show ?thesis using r
    by (intro exI [of _ ?w1] exI [of _ ?c]) (simp add: kNoneEvent_def set_state_def)
qed

lemma handleClose_effect:
  assumes "chan_of w c" "open_conn w" "isInLoopThread (m_loop w) tid" "calm close_callback"
  shows "\<exists>w' c'. handleClose close_callback tid w = Inr w' \<and> chan_of w' c' \<and> m_events c' = 0 \<and>
     conn w' = (conn w)\<lparr>m_state := kDisconnected\<rparr> \<and> isInLoopThread (m_loop w') tid \<and>
     m_channels (m_epoller (m_loop w')) (m_fd c') = Some (m_channel (conn w))"
proof -
  obtain w1 c1 where w1: "\<forall>cb. handleClose cb tid w = cb w1" "chan_of w1 c1" "m_events c1 = 0"
    "w1 = w\<lparr>conn := (conn w)\<lparr>m_state := kDisconnected\<rparr>,
            m_loop := (m_loop w)\<lparr>m_epoller := m_epoller (m_loop w1)\<rparr>\<rparr>"
    "m_channels (m_epoller (m_loop w1)) (m_fd c1) = Some (m_channel (conn w))"
    using handleClose_calls [OF assms(1-3)] by blast
  obtain w' where w': "close_callback w1 = Inr w'" "conn w' = conn w1" "m_epoller (m_loop w') = m_epoller (m_loop w1)"
    "m_thread_id (m_loop w') = m_thread_id (m_loop w1)"
    using calmE [OF assms(4), of w1] .
  have w1': "conn w1 = (conn w)\<lparr>m_state := kDisconnected\<rparr>" "m_thread_id (m_loop w1) = m_thread_id (m_loop w)"
    by (subst w1(4), simp)+
  then have "chan_of w' c1" using w1(2) w' by (simp add: chan_of_def)
  then show ?thesis using w1(1,3,5) w1' w' assms(3) by (auto simp: isInLoopThread_def)
qed

lemma connectionDestructor_effect:
  assumes "chan_of w c" "m_channels (m_epoller (m_loop w)) (m_fd c) = Some (m_channel (conn w))"
    and "m_state (conn w) = kDisconnected" "isInLoopThread (m_loop w) tid" "calm connection_callback"
  shows "\<exists>w'. connectionDestructor connection_callback tid w = Inr w' \<and> conn w' = conn w \<and>
     reactor_inv (m_epoller (m_loop w')) \<and> \<not> referenced (m_epoller (m_loop w')) (m_channel (conn w))"
proof -
  obtain w1 where w1: "connection_callback w = Inr w1" "conn w1 = conn w"
    "m_epoller (m_loop w1) = m_epoller (m_loop w)"
    using calmE [OF assms(5), of w] by auto
  have "chan_held (m_epoller (m_loop w)) (m_channel (conn w))"
    using assms(1,2) by (auto simp: chan_held_def chan_of_def referenced_mapped)
  then obtain r where r: "removeChannel (m_epoller (m_loop w)) (m_channel (conn w)) = Inr r" "reactor_inv r"
    "\<not> chan_held r (m_channel (conn w))"
    using epoll.remove_law assms(1) by (metis chan_of_def)
  obtain r' where "removeChannel (m_epoller (m_loop w)) (m_channel (conn w)) = Inr r'"
    "chans r' (m_channel (conn w)) \<noteq> None"
    using assms(1,2) removeChannel_effect [of "m_epoller (m_loop w)"] by (fastforce simp: chan_of_def)
  with r have "\<not> referenced r (m_channel (conn w))" by (auto simp: chan_held_def)
  then show ?thesis using assms(3,4) w1 r(1,2) by (auto simp: connectionDestructor_def chan_op_def)
qed

text \<open>Calls on a connection; the upper layer answers a message with calls of its own.\<close>

datatype conn_call = CallSend "char list" "errno + nat" | CallWritable "errno + nat" "errno option"
  | CallShutDown "errno option" | CallForceClose | CallForceCloseInLoop | CallDestructor
  | CallError "errno + int"

definition counting_close :: "('f, nat) ConnWorld \<Rightarrow> ('f, nat) ConnWorld result" where
  "counting_close w = Inr (w\<lparr>env := env w + 1\<rparr>)"

definition conn_call_step ::
  "(int \<Rightarrow> string) \<Rightarrow> nat \<Rightarrow> conn_call \<Rightarrow> ('f, nat) ConnWorld \<Rightarrow> ('f, nat) ConnWorld result" where
  "conn_call_step strerror tid k w =
     (case k of
        CallSend msg wres \<Rightarrow> send_bytes tid wres 0 msg w
      | CallWritable wres sres \<Rightarrow> conn_handleWrite strerror tid wres sres w
      | CallShutDown sres \<Rightarrow> shutDown strerror tid sres w
      | CallForceClose \<Rightarrow> Inr (forceClose tid w)
      | CallForceCloseInLoop \<Rightarrow> forceCloseInLoop counting_close tid w
      | CallDestructor \<Rightarrow> connectionDestructor Inr tid w
      | CallError gso \<Rightarrow> handleError strerror gso w)"

definition conn_round ::
  "(int \<Rightarrow> string) \<Rightarrow> nat \<Rightarrow> (('f, nat) ConnWorld \<Rightarrow> conn_call list) \<Rightarrow>
   (errno + char list) \<times> (errno + int) + conn_call \<Rightarrow> ('f, nat) ConnWorld \<Rightarrow> ('f, nat) ConnWorld result" where
  "conn_round strerror tid reply ev w =
     (case ev of
        Inl (rv, gso) \<Rightarrow>
          conn_handleRead (\<lambda>w. run_all (conn_call_step strerror tid) (reply w) w) counting_close
            strerror gso tid rv w
      | Inr k \<Rightarrow> conn_call_step strerror tid k w)"

definition once_inv :: "('f, nat) ConnWorld \<Rightarrow> bool" where
  "once_inv w \<longleftrightarrow> env w = 0 \<or> env w = 1 \<and> m_state (conn w) = kDisconnected"

lemma once_inv_chan_op: "chan_op f w = Inr w' \<Longrightarrow> once_inv w' \<longleftrightarrow> once_inv w"
  by (auto simp: chan_op_def once_inv_def res_simps)

lemma chan_op_env: "chan_op f w = Inr w' \<Longrightarrow> env w' = env w \<and> conn w' = conn w"
  by (auto simp: chan_op_def res_simps)

lemma handleClose_once: "handleClose counting_close tid w = Inr w' \<Longrightarrow> once_inv w \<Longrightarrow> once_inv w'"
  by (auto simp: handleClose_def counting_close_def once_inv_def res_simps dest!: chan_op_env)

lemma queue_rest_once: "queue_rest d w = Inr w' \<Longrightarrow> once_inv w' \<longleftrightarrow> once_inv w"
  by (auto simp: queue_rest_def once_inv_def res_simps Let_def dest!: chan_op_env split: if_splits)

lemma sendInLoop_once: "sendInLoop tid wres msg w = Inr w' \<Longrightarrow> once_inv w' \<longleftrightarrow> once_inv w"
  by (auto simp: sendInLoop_def res_simps Let_def once_inv_def split: if_splits prod.splits
      dest!: queue_rest_once)

lemma shutDownInLoop_once: "shutDownInLoop strerror tid sres w = Inr w' \<Longrightarrow> once_inv w' \<longleftrightarrow> once_inv w"
  by (auto simp: shutDownInLoop_def res_simps once_inv_def split: if_splits option.splits)

lemma handleWrite_once:
  "conn_handleWrite strerror tid wres sres w = Inr w' \<Longrightarrow> once_inv w' \<longleftrightarrow> once_inv w"
  by (auto simp: conn_handleWrite_def res_simps Let_def split: if_splits sum.splits
      dest!: shutDownInLoop_once once_inv_chan_op) (auto simp: once_inv_def)

lemma shutDown_once: "shutDown strerror tid sres w = Inr w' \<Longrightarrow> once_inv w \<Longrightarrow> once_inv w'"
  by (auto simp: shutDown_def Let_def split: if_splits dest!: shutDownInLoop_once)
    (auto simp: once_inv_def)

lemma conn_call_step_once:
  assumes "conn_call_step strerror tid k w = Inr w'" "once_inv w"
  shows "once_inv w'"
proof (cases k)
  case (CallSend msg wres)
  with assms show ?thesis
    by (auto simp: conn_call_step_def send_bytes_def split: if_splits dest: sendInLoop_once)
      (auto simp: once_inv_def)
next
  case (CallWritable wres sres)
  with assms show ?thesis by (simp add: conn_call_step_def handleWrite_once)
next
  case (CallShutDown sres)
  with assms show ?thesis by (simp add: conn_call_step_def shutDown_once)
next
  case CallForceClose
  with assms show ?thesis
    by (cases "m_state (conn w)") (auto simp: conn_call_step_def forceClose_def once_inv_def Let_def)
next
  case CallForceCloseInLoop
  with assms show ?thesis
    by (auto simp: conn_call_step_def forceCloseInLoop_def res_simps split: if_splits intro: handleClose_once)
next
  case CallDestructor
  with assms show ?thesis
    by (auto simp: conn_call_step_def connectionDestructor_def res_simps once_inv_chan_op once_inv_def
        split: if_splits dest!: chan_op_env)
next
  case (CallError gso)
  with assms show ?thesis
    by (auto simp: conn_call_step_def handleError_def Let_def once_inv_def)
qed

lemma run_calls_once:
  "run_all (conn_call_step strerror tid) ks w = Inr w' \<Longrightarrow> once_inv w \<Longrightarrow> once_inv w'"
  by (induction ks arbitrary: w) (auto simp: res_simps dest: conn_call_step_once)

lemma conn_round_once:
  assumes "conn_round strerror tid reply ev w = Inr w'" "once_inv w"
  shows "once_inv w'"
proof (cases ev)
  case (Inr k)
  with assms show ?thesis by (auto simp: conn_round_def intro: conn_call_step_once)
next
  case (Inl p)
  obtain rv gso where p: "p = (rv, gso)" by fastforce
  from assms(1) Inl p obtain n b where "readFd (m_input_buffer (conn w)) 0 rv = Inr (n, b)"
    by (auto simp: conn_round_def conn_handleRead_def res_simps)
  moreover have "once_inv (w\<lparr>conn := (conn w)\<lparr>m_input_buffer := b\<rparr>\<rparr>)"
    using assms(2) by (simp add: once_inv_def)
  moreover have "once_inv (log_line msg v) \<longleftrightarrow> once_inv v" for msg and v :: "('a, nat) ConnWorld"
    by (simp add: once_inv_def)
  ultimately show ?thesis using assms(1) Inl p
    by (auto simp: conn_round_def conn_handleRead_def res_simps Let_def handleError_def
        split: if_splits dest: run_calls_once handleClose_once)
qed

lemma connectionEstablished_effect:
  assumes "reactor_inv (m_epoller (m_loop w))" "isInLoopThread (m_loop w) tid"
    and "conn w = (TcpConnection_new i fd n p)\<lparr>m_ip_port := q\<rparr>"
    and "chans (m_epoller (m_loop w)) p = Some (connection_channel fd i)"
    and "m_channels (m_epoller (m_loop w)) fd = None" "\<not> wr_shut w" "wire w = []"
  shows "\<exists>w' c'. connectionEstablished connection_callback tid w = connection_callback w' \<and>
     pipe_inv tid w' \<and> m_state (conn w') = kConnected \<and> wire w' = [] \<and> outq w' = [] \<and> env w' = env w \<and>
     chan_of w' c' \<and> m_events c' = kReadEvent \<and> m_tied c' \<and> m_tie c' = Some i \<and> m_fd c' = fd \<and>
     m_read_callback c' = Some (CbRead i) \<and> m_channels (m_epoller (m_loop w')) fd = Some p \<and>
     w' = w\<lparr>conn := (conn w)\<lparr>m_state := kConnected\<rparr>, m_loop := (m_loop w)\<lparr>m_epoller := m_epoller (m_loop w')\<rparr>\<rparr>"
proof -
  let ?r = "m_epoller (m_loop w)" and ?c = "Tie i (connection_channel fd i)" and ?w = "set_state kConnected w"
  have c: "m_fd ?c = fd" "m_index ?c = kNew" "m_events ?c = 0" "m_tied ?c" "m_tie ?c = Some i"
    "m_read_callback ?c = Some (CbRead i)"
    by (simp_all add: Tie_def connection_channel_def Channel_new_def setErrorCallback_def
        setWriteCallback_def setReadCallback_def)
  let ?w1 = "?w\<lparr>m_loop := (m_loop w)\<lparr>m_epoller := put_chan ?r p ?c\<rparr>\<rparr>"
  have "reactor_inv (put_chan ?r p ?c)"
    by (rule inv_same_registration [OF assms(1,4)])
      (simp_all add: Tie_def connection_channel_def setErrorCallback_def setWriteCallback_def
        setReadCallback_def Channel_new_def)
  then have w1: "chan_of ?w1 ?c"
    using assms(3,5) c by (simp add: chan_of_def updatable_def TcpConnection_new_def)
  obtain r where r: "chan_op enableReading ?w1 = Inr (?w1\<lparr>m_loop := (m_loop ?w1)\<lparr>m_epoller := r\<rparr>\<rparr>)"
    "chan_of (?w1\<lparr>m_loop := (m_loop ?w1)\<lparr>m_epoller := r\<rparr>\<rparr>)
       (?c\<lparr>m_events := 0 OR kReadEvent, m_index := index_after ?c (0 OR kReadEvent)\<rparr>)"
    using chan_op_mask [OF w1, of "\<lambda>e. e OR kReadEvent"] c(3) by (auto simp: enableReading_def)
  define w2 where "w2 = ?w1\<lparr>m_loop := (m_loop ?w1)\<lparr>m_epoller := r\<rparr>\<rparr>"
  define c2 where "c2 = ?c\<lparr>m_events := 0 OR kReadEvent, m_index := index_after ?c (0 OR kReadEvent)\<rparr>"
  have c2: "chan_of w2 c2" "m_events c2 = kReadEvent" "m_tied c2" "m_tie c2 = Some i" "\<not> isWriting c2"
    "m_fd c2 = fd" "m_index c2 = kAdded" "m_read_callback c2 = Some (CbRead i)"
    using r(2) c unfolding w2_def c2_def by (simp_all add: isWriting_def mask_values index_after_def)
  have w2: "conn w2 = (conn w)\<lparr>m_state := kConnected\<rparr>" "wire w2 = []" "\<not> wr_shut w2"
    "env w2 = env w" "isInLoopThread (m_loop w2) tid"
    using assms by (simp_all add: w2_def isInLoopThread_def)
  then have q: "outq w2 = []" "reach_inv (m_output_buffer (conn w2))" "m_state (conn w2) = kConnected"
    using buf_reach_inv [OF buf_reach.reach_new] assms(3) by (simp_all add: outq_def TcpConnection_new_def)
  have "m_channels (m_epoller (m_loop w2)) fd = Some p"
    using c2 assms(3) w2(1) by (auto simp: chan_of_def reactor_inv_def TcpConnection_new_def)
  moreover have "w2 = w\<lparr>conn := (conn w)\<lparr>m_state := kConnected\<rparr>,
      m_loop := (m_loop w)\<lparr>m_epoller := m_epoller (m_loop w2)\<rparr>\<rparr>" by (simp add: w2_def set_state_def)
  moreover have "chan_op (channel_tie (m_self (conn ?w))) ?w = Inr ?w1"
    using assms(3,4) by (simp add: chan_op_def channel_tie_def TcpConnection_new_def)
  then have "connectionEstablished connection_callback tid w = connection_callback w2"
    using assms(2) r(1) by (simp add: connectionEstablished_def Let_def w2_def)
  moreover have "pipe_inv tid w2" using c2 w2 q by (auto simp: pipe_inv_def flow_inv_def)
  ultimately show ?thesis using c2 w2 q by blast
qed

section \<open>What the operations leave alone\<close>

text \<open>
  An operation on the loop's thread that only uses its channel: of the loop nothing but the
  reactor changes, the identity of the connection stays, and the layers above are not touched.
\<close>

definition shell :: "('f, 'x) ConnWorld \<Rightarrow> 'f net_loop \<times> 'x \<times> nat \<times> int \<times> nat \<times> (string \<times> int) option" where
  "shell w = ((m_loop w)\<lparr>m_epoller := Reactor_new\<rparr>, env w, m_self (conn w), m_conn_fd (conn w),
     m_channel (conn w), m_ip_port (conn w))"

lemma shell_loop: "shell w' = shell w \<Longrightarrow> m_loop w' = (m_loop w)\<lparr>m_epoller := m_epoller (m_loop w')\<rparr>"
  by (cases "m_loop w"; cases "m_loop w'") (simp add: shell_def)

lemma shell_parts:
  "shell w' = shell w \<Longrightarrow> env w' = env w" "shell w' = shell w \<Longrightarrow> m_self (conn w') = m_self (conn w)"
  "shell w' = shell w \<Longrightarrow> m_conn_fd (conn w') = m_conn_fd (conn w)"
  "shell w' = shell w \<Longrightarrow> m_channel (conn w') = m_channel (conn w)"
  "shell w' = shell w \<Longrightarrow> m_ip_port (conn w') = m_ip_port (conn w)"
  by (simp_all add: shell_def)

lemma shell_updates [simp]:
  "shell (log_line m w) = shell w" "shell (set_state st w) = shell w" "shell (w\<lparr>wire := x\<rparr>) = shell w"
  "shell (w\<lparr>wr_shut := y\<rparr>) = shell w" "shell (w\<lparr>conn := (conn w)\<lparr>m_output_buffer := b\<rparr>\<rparr>) = shell w"
  "shell (w\<lparr>conn := (conn w)\<lparr>m_input_buffer := b\<rparr>\<rparr>) = shell w" "shell (w\<lparr>conn := (conn w)\<lparr>m_parser := p\<rparr>\<rparr>) = shell w"
  "shell (w\<lparr>conn := updateLastReceiveTime now (conn w)\<rparr>) = shell w"
  by (simp_all add: shell_def set_state_def updateLastReceiveTime_def)

lemma shell_chan_op: "chan_op f w = Inr w' \<Longrightarrow> shell w' = shell w"
  by (auto simp: chan_op_def shell_def res_simps)

lemma shell_queue_rest: "queue_rest d w = Inr w' \<Longrightarrow> shell w' = shell w"
  by (auto simp: queue_rest_def res_simps Let_def dest: shell_chan_op split: if_splits)

lemma shell_sendInLoop: "sendInLoop tid wres d w = Inr w' \<Longrightarrow> shell w' = shell w"
  by (auto simp: sendInLoop_def res_simps Let_def dest!: shell_queue_rest split: if_splits prod.splits)

lemma shell_shutDownInLoop: "shutDownInLoop strerror tid sres w = Inr w' \<Longrightarrow> shell w' = shell w"
  by (auto simp: shutDownInLoop_def res_simps split: if_splits option.splits)

lemma shell_shutDown:
  "shutDown strerror tid sres w = Inr w' \<Longrightarrow> isInLoopThread (m_loop w) tid \<Longrightarrow> shell w' = shell w"
  by (auto simp: shutDown_def Let_def set_state_def dest!: shell_shutDownInLoop split: if_splits)
    (simp_all add: shell_def)

lemma shell_handleWrite: "conn_handleWrite strerror tid wres sres w = Inr w' \<Longrightarrow> shell w' = shell w"
  by (auto simp: conn_handleWrite_def res_simps Let_def split: if_splits sum.splits
      dest!: shell_shutDownInLoop shell_chan_op) (simp_all add: shell_def)

section \<open>Properties\<close>


text \<open>A failed read closes the connection whatever the error was.  \<open>handleRead\<close> reports
  every failure of \<open>readv\<close>, \<open>EAGAIN\<close> included, as errno 0, disconnects the connection,
  stops watching its descriptor and calls the close callback, exactly as for the end of the
  stream.\<close>

theorem read_error_closes:
  assumes "chan_of w c" "open_conn w" "isInLoopThread (m_loop w) tid" "calm close_callback"
    and "buf_inv (m_input_buffer (conn w))"
  shows "\<exists>w' c'. conn_handleRead message_callback close_callback strerror gso tid (Inl e) w = Inr w' \<and>
     m_state (conn w') = kDisconnected \<and> chan_of w' c' \<and> m_events c' = 0 \<and>
     (\<exists>w1. conn_handleRead message_callback close_callback strerror gso tid (Inr []) w = Inr w1 \<and>
        conn w1 = conn w' \<and> m_loop w1 = m_loop w')"
proof -
  obtain w1 c1 where w1: "handleClose close_callback tid w = Inr w1" "chan_of w1 c1" "m_events c1 = 0"
    "conn w1 = (conn w)\<lparr>m_state := kDisconnected\<rparr>"
    using handleClose_effect [OF assms(1-4)] by blast
  have "readFd (m_input_buffer (conn w)) 0 (Inr []) = Inr (0, m_input_buffer (conn w))"
    using assms(5) by (simp add: readFd_def overwrite_def buf_inv_def buf_defs Let_def)
  then show ?thesis using w1 assms(3)
    by (auto simp: conn_handleRead_def readFd_def handleError_def Let_def chan_of_def)
qed

text \<open>Received bytes reach the message callback in order.  As long as the bytes beyond the
  free part of the vector do not make it move its indices, a read of \<open>d\<close> calls the
  message callback on an input buffer whose unread bytes are the old ones followed by
  \<open>d\<close>, with the rest of the connection unchanged.\<close>

theorem read_reaches_callback:
  assumes "isInLoopThread (m_loop w) tid" "buf_inv (m_input_buffer (conn w))" "d \<noteq> []"
    and "int (length d) \<le> writeableBytes (m_input_buffer (conn w)) \<or>
         m_read_index (m_input_buffer (conn w)) <
           int (length d) - writeableBytes (m_input_buffer (conn w)) + kPrePendIndex"
  shows "\<exists>b. conn_handleRead message_callback close_callback strerror gso tid (Inr d) w =
       message_callback (w\<lparr>conn := (conn w)\<lparr>m_input_buffer := b\<rparr>\<rparr>) \<and>
     buf_inv b \<and> readable b = readable (m_input_buffer (conn w)) @ d"
proof -
  obtain b where "readFd (m_input_buffer (conn w)) 0 (Inr d) = Inr (int (length d), b)" "buf_inv b"
    "readable b = readable (m_input_buffer (conn w)) @ d"
    using readFd_within [OF assms(2), of d 0] readFd_beyond [OF assms(2), of d 0] assms(4) by force
  then show ?thesis using assms(1,3) by (auto simp: conn_handleRead_def)
qed

text \<open>Closing a connection and then running its \<open>connectionDestructor\<close> removes it from the
  reactor: the connection is disconnected, epoll and the channel map hold no reference to its
  channel any more, and the reactor invariant holds.\<close>

theorem close_then_destroy:
  assumes "chan_of w c" "open_conn w" "isInLoopThread (m_loop w) tid" "calm close_callback"
    and "calm connection_callback"
  shows "\<exists>w'. res_bind (handleClose close_callback tid w)
                 (connectionDestructor connection_callback tid) = Inr w' \<and>
     m_state (conn w') = kDisconnected \<and> reactor_inv (m_epoller (m_loop w')) \<and>
     \<not> referenced (m_epoller (m_loop w')) (m_channel (conn w))"
proof -
  obtain w1 c1 where w1: "handleClose close_callback tid w = Inr w1" "chan_of w1 c1"
    "conn w1 = (conn w)\<lparr>m_state := kDisconnected\<rparr>" "isInLoopThread (m_loop w1) tid"
    "m_channels (m_epoller (m_loop w1)) (m_fd c1) = Some (m_channel (conn w))"
    using handleClose_effect [OF assms(1-4)] by blast
  then show ?thesis using connectionDestructor_effect [OF w1(2) _ _ w1(4) assms(5)] by auto
qed

text \<open>The close callback runs at most once.  However reads, writable events, errors, sends,
  shutdowns, forced closes and the destructor are ordered, and whatever such calls the upper
  layer answers a message with, the callback has been called at most once, and if it has,
  the connection is disconnected and stays so.\<close>

theorem closed_at_most_once:
  assumes "env w = 0" "run_all (conn_round strerror tid reply) evs w = Inr w'"
  shows "env w' \<le> 1 \<and> (env w' = 1 \<longrightarrow> m_state (conn w') = kDisconnected)"
proof -
  have "run_all (conn_round strerror tid reply) evs w = Inr w' \<Longrightarrow> once_inv w \<Longrightarrow> once_inv w'" for evs w
    by (induction evs arbitrary: w) (auto simp: res_simps dest: conn_round_once)
  then have "once_inv w'" using assms by (simp add: once_inv_def)
  then show ?thesis by (auto simp: once_inv_def)
qed

text \<open>Establishing a connection.  For a connection as \<open>TcpServer\<close> makes it, whose
  descriptor the reactor does not know yet, \<open>connectionEstablished\<close> succeeds, marks it
  connected, ties the channel to it, registers it for reading, and calls the connection
  callback in a state from which the output path works.\<close>

theorem established:
  assumes "reactor_inv (m_epoller (m_loop w))" "isInLoopThread (m_loop w) tid"
    and "conn w = (TcpConnection_new i fd n p)\<lparr>m_ip_port := q\<rparr>"
    and "chans (m_epoller (m_loop w)) p = Some (connection_channel fd i)"
    and "m_channels (m_epoller (m_loop w)) fd = None" "\<not> wr_shut w" "wire w = []"
  shows "\<exists>w' c'. connectionEstablished connection_callback tid w = connection_callback w' \<and>
     pipe_inv tid w' \<and> m_state (conn w') = kConnected \<and> wire w' = [] \<and> outq w' = [] \<and> env w' = env w \<and>
     chan_of w' c' \<and> m_events c' = kReadEvent \<and> m_tied c' \<and> m_tie c' = Some i"
  using connectionEstablished_effect [OF assms, of connection_callback] by blast

text \<open>A connection with descriptor 8 on a loop of thread 1.\<close>

definition net_loop_sample :: "unit net_loop" where
  "net_loop_sample = \<lparr>m_looping = True, m_thread_id = 1,
     m_epoller = put_chan Reactor_new 300 (connection_channel 8 1), m_wakeup_fd = 5,
     m_wakeup_channel = 100, m_calling_pending_functors = False, m_active_channels = [],
     m_pending_functors = [], wakeup_writes = 0\<rparr>"

definition fresh_world :: "(unit, nat) ConnWorld" where
  "fresh_world = \<lparr>m_loop = net_loop_sample, conn = TcpConnection_new 1 8 0 300, wire = [],
     wr_shut = False, logged = [], env = 0\<rparr>"

lemma fresh_world_facts:
  "reactor_inv (m_epoller (m_loop fresh_world))" "isInLoopThread (m_loop fresh_world) 1"
  "conn fresh_world = (TcpConnection_new 1 8 0 300)\<lparr>m_ip_port := None\<rparr>"
  "chans (m_epoller (m_loop fresh_world)) 300 = Some (connection_channel 8 1)"
  "m_channels (m_epoller (m_loop fresh_world)) 8 = None" "\<not> wr_shut fresh_world" "wire fresh_world = []"
  "env fresh_world = 0"
  by (simp_all add: fresh_world_def net_loop_sample_def isInLoopThread_def inv_put_new reactor_inv_new
      connection_channel_def setErrorCallback_def setWriteCallback_def setReadCallback_def
      Channel_new_def TcpConnection_new_def Reactor_new_def [THEN arg_cong, of chans] Reactor_new_def [THEN arg_cong, of m_channels])

theorem established_witness:
  "\<exists>w' c'. connectionEstablished Inr 1 fresh_world = Inr w' \<and> pipe_inv 1 w' \<and>
     m_state (conn w') = kConnected \<and> chan_of w' c' \<and> m_events c' = 3"
  using established [OF fresh_world_facts(1-7), of Inr] by (auto simp: mask_values)

text \<open>The same connection once it is established.\<close>

definition live_world :: "(unit, nat) ConnWorld" where
  "live_world = (case connectionEstablished Inr 1 fresh_world of Inr w \<Rightarrow> w | Inl _ \<Rightarrow> fresh_world)"

lemma live_world_facts:
  "pipe_inv 1 live_world" "m_state (conn live_world) = kConnected" "wire live_world = []"
  "outq live_world = []" "env live_world = 0" "isInLoopThread (m_loop live_world) 1" "\<exists>c. chan_of live_world c"
proof -
  obtain w c where w: "connectionEstablished Inr 1 fresh_world = Inr w" "pipe_inv 1 w"
    "m_state (conn w) = kConnected" "wire w = []" "outq w = []" "env w = env fresh_world" "chan_of w c"
    using connectionEstablished_effect [OF fresh_world_facts(1-7), of Inr] by blast
  then have "live_world = w" by (simp add: live_world_def)
  with w show "pipe_inv 1 live_world" "m_state (conn live_world) = kConnected" "wire live_world = []"
    "outq live_world = []" "env live_world = 0" "isInLoopThread (m_loop live_world) 1"
    "\<exists>c. chan_of live_world c"
    by (auto simp: fresh_world_facts pipe_inv_def)
qed

lemma live_world_conn: "conn live_world = (TcpConnection_new 1 8 0 300)\<lparr>m_ip_port := None, m_state := kConnected\<rparr>"
proof -
  have "connectionEstablished Inr 1 fresh_world = Inr w \<Longrightarrow>
      conn w = (conn fresh_world)\<lparr>m_state := kConnected\<rparr>" for w
    by (auto simp: connectionEstablished_def res_simps dest!: chan_op_env)
  then show ?thesis using connectionEstablished_effect [OF fresh_world_facts(1-7), of Inr]
    by (auto simp: live_world_def fresh_world_facts)
qed

lemma live_world_input: "m_input_buffer (conn live_world) = Buffer_default"
  by (simp add: live_world_conn TcpConnection_new_def)

lemma calm_Inr: "calm Inr"
  by (simp add: calm_def)


theorem read_error_closes_witness:
  "\<exists>w'. conn_handleRead Inr counting_close (\<lambda>_. []) (Inr 0) 1 (Inl EAGAIN) live_world = Inr w' \<and>
     m_state (conn w') = kDisconnected"
proof -
  obtain c where c: "chan_of live_world c" using live_world_facts(7) ..
  have o: "open_conn live_world" using live_world_facts(2) by (simp add: open_conn_def)
  have "calm (counting_close :: (unit, nat) ConnWorld \<Rightarrow> _)" by (simp add: calm_def counting_close_def)
  from read_error_closes [OF c o live_world_facts(6) this, of Inr "\<lambda>_. []" "Inr 0" EAGAIN]
  show ?thesis by (auto simp: live_world_input buf_inv_default)
qed

theorem read_reaches_callback_witness:
  "\<exists>b. conn_handleRead Inr Inr (\<lambda>_. []) (Inr 0) 1 (Inr ''GET'') live_world =
       Inr (live_world\<lparr>conn := (conn live_world)\<lparr>m_input_buffer := b\<rparr>\<rparr>) \<and> readable b = ''GET''"
proof -
  have "int (length ''GET'') \<le> writeableBytes Buffer_default" by (simp add: buf_defs Buffer_default_def)
  then show ?thesis
    using read_reaches_callback [OF live_world_facts(6), of "''GET''" Inr Inr "\<lambda>_. []" "Inr 0"]
    by (auto simp: live_world_input buf_inv_default)
qed

theorem close_then_destroy_witness:
  "\<exists>w'. res_bind (handleClose Inr 1 live_world) (connectionDestructor Inr 1) = Inr w' \<and>
     \<not> referenced (m_epoller (m_loop w')) (m_channel (conn live_world))"
proof -
  obtain c where c: "chan_of live_world c" using live_world_facts(7) ..
  have "open_conn live_world" using live_world_facts(2) by (simp add: open_conn_def)
  from close_then_destroy [OF c this live_world_facts(6) calm_Inr calm_Inr] show ?thesis by blast
qed

theorem closed_at_most_once_witness:
  "\<exists>w'. run_all (conn_round (\<lambda>_. []) 1 (\<lambda>_. [])) [Inr CallForceCloseInLoop, Inr CallForceCloseInLoop]
       live_world = Inr w' \<and> env w' \<le> 1 \<and> m_state (conn w') = kDisconnected"
proof -
  obtain c where c: "chan_of live_world c" using live_world_facts(7) ..
  have o: "open_conn live_world" using live_world_facts(2) by (simp add: open_conn_def)
  have "calm (counting_close :: (unit, nat) ConnWorld \<Rightarrow> _)" by (simp add: calm_def counting_close_def)
  from handleClose_effect [OF c o live_world_facts(6) this] obtain w1 where
    w1: "handleClose counting_close 1 live_world = Inr w1" "m_state (conn w1) = kDisconnected"
    "isInLoopThread (m_loop w1) 1" by auto
  have "run_all (conn_round (\<lambda>_. []) 1 (\<lambda>_. [])) [Inr CallForceCloseInLoop, Inr CallForceCloseInLoop]
      live_world = Inr w1"
    using w1 live_world_facts(2,6) by (simp add: conn_round_def conn_call_step_def forceCloseInLoop_def)
  with closed_at_most_once [OF live_world_facts(5) this] w1(2) show ?thesis by auto
qed

end
