(* ===== verification/LoopPools.thy ===== *)
theory LoopPools
  imports Prelude "HOL-Library.Multiset"
begin

text \<open>
  The pool of event-loop threads, \<open>Net/loopthreadpool.h\<close> and
  \<open>Net/loopthreadpool.cpp\<close>.  A loop is a number; the loop a pool thread makes is the
  number of that thread.  \<open>start()\<close> is a step relation between the starting thread and the
  pool threads, at the granularity of the sections under \<open>m_loop_mutex\<close>.
\<close>

section \<open>State and operations\<close>

record LoopThreadPool =
  m_base_loop :: nat
  m_thread_num :: int
  m_next_loop_index :: int
  m_loops :: "nat list"
  m_threads :: nat

definition LoopThreadPool_new :: "nat \<Rightarrow> LoopThreadPool" where
  "LoopThreadPool_new loop = \<lparr>m_base_loop = loop, m_thread_num = 0, m_next_loop_index = 0,
     m_loops = [], m_threads = 0\<rparr>"

definition setThreadNum :: "int \<Rightarrow> LoopThreadPool \<Rightarrow> LoopThreadPool" where
  "setThreadNum num_threads p = p\<lparr>m_thread_num := num_threads\<rparr>"

text \<open>
  \<open>m_loops[i]\<close> outside the vector and \<open>%\<close> by zero are undefined in the source.
  Both operands of the remainder are not negative wherever it is reached with a positive number
  of threads; \<open>rem_trunc\<close> is C's remainder.
\<close>

definition rem_trunc :: "int \<Rightarrow> int \<Rightarrow> int" where
  "rem_trunc a b = sgn a * (\<bar>a\<bar> mod \<bar>b\<bar>)"

definition getNextLoop :: "LoopThreadPool \<Rightarrow> (nat \<times> LoopThreadPool) result" where
  "getNextLoop p =
     (if m_loops p = [] then Inr (m_base_loop p, p)
      else if m_next_loop_index p < 0 \<or> int (length (m_loops p)) \<le> m_next_loop_index p then Inl OutOfBounds
      else if m_thread_num p = 0 then Inl DivisionByZero
      else Inr (m_loops p ! nat (m_next_loop_index p),
                p\<lparr>m_next_loop_index := rem_trunc (m_next_loop_index p + 1) (m_thread_num p)\<rparr>))"

text \<open>The loops that \<open>k\<close> successive calls return.\<close>

fun next_loops :: "nat \<Rightarrow> LoopThreadPool \<Rightarrow> (nat list \<times> LoopThreadPool) result" where
  "next_loops 0 p = Inr ([], p)"
| "next_loops (Suc k) p =
     res_bind (getNextLoop p) (\<lambda>(l, p1).
       res_bind (next_loops k p1) (\<lambda>(ls, p2). Inr (l # ls, p2)))"

section \<open>Starting the threads\<close>

text \<open>
  The starting thread is in its creation loop, about to test the predicate of the condition
  variable under the lock, blocked on it, or past the wait.  The predicate compares an unsigned
  size with an \<open>int\<close>, which is converted: a negative number never equals a size.
\<close>

datatype starter = Creating int | Checking | Blocked | Started

record pool_sys =
  pool :: LoopThreadPool
  starter :: starter

definition pool_start :: "LoopThreadPool \<Rightarrow> pool_sys" where
  "pool_start p = \<lparr>pool = p, starter = Creating 0\<rparr>"

definition all_started :: "LoopThreadPool \<Rightarrow> bool" where
  "all_started p \<longleftrightarrow> int (length (m_loops p)) = m_thread_num p mod 2 ^ 64"

definition register_loop :: "nat \<Rightarrow> pool_sys \<Rightarrow> pool_sys" where
  "register_loop t s =
     (let p = (pool s)\<lparr>m_loops := m_loops (pool s) @ [t]\<rparr>
      in s\<lparr>pool := p,
           starter := (if all_started p \<and> starter s = Blocked then Checking else starter s)\<rparr>)"

inductive pool_step :: "pool_sys \<Rightarrow> pool_sys \<Rightarrow> bool" where
  create: "starter s = Creating i \<Longrightarrow> i < m_thread_num (pool s) \<Longrightarrow>
     pool_step s (s\<lparr>pool := (pool s)\<lparr>m_threads := m_threads (pool s) + 1\<rparr>, starter := Creating (i + 1)\<rparr>)"
| created: "starter s = Creating i \<Longrightarrow> \<not> i < m_thread_num (pool s) \<Longrightarrow>
     pool_step s (s\<lparr>starter := Checking\<rparr>)"
| check: "starter s = Checking \<Longrightarrow>
     pool_step s (s\<lparr>starter := (if all_started (pool s) then Started else Blocked)\<rparr>)"
| register: "t < m_threads (pool s) \<Longrightarrow> t \<notin> set (m_loops (pool s)) \<Longrightarrow>
     pool_step s (register_loop t s)"

text \<open>A condition variable may also wake up its waiter for no reason.\<close>

inductive pool_reach :: "LoopThreadPool \<Rightarrow> pool_sys \<Rightarrow> bool" for p where
  start: "pool_reach p (pool_start p)"
| step: "pool_reach p s \<Longrightarrow> pool_step s t \<Longrightarrow> pool_reach p t"
| spurious: "pool_reach p s \<Longrightarrow> starter s = Blocked \<Longrightarrow> pool_reach p (s\<lparr>starter := Checking\<rparr>)"

inductive_simps pool_step_iff: "pool_step s t"

section \<open>Invariant and progress\<close>

definition pool_inv :: "int \<Rightarrow> pool_sys \<Rightarrow> bool" where
  "pool_inv n s \<longleftrightarrow>
     m_thread_num (pool s) = n \<and> m_next_loop_index (pool s) = 0 \<and>
     distinct (m_loops (pool s)) \<and> set (m_loops (pool s)) \<subseteq> {..<m_threads (pool s)} \<and>
     (case starter s of
        Creating i \<Rightarrow> int (m_threads (pool s)) = i \<and> (i \<le> n \<or> i = 0)
      | _ \<Rightarrow> int (m_threads (pool s)) = max 0 n) \<and>
     (starter s = Blocked \<longrightarrow> \<not> all_started (pool s)) \<and>
     (starter s = Started \<longrightarrow> all_started (pool s))"

definition fresh_pool :: "int \<Rightarrow> LoopThreadPool \<Rightarrow> bool" where
  "fresh_pool n p \<longleftrightarrow> m_thread_num p = n \<and> m_next_loop_index p = 0 \<and> m_loops p = [] \<and> m_threads p = 0"

lemma loops_le_threads:
  assumes "pool_inv n s"
  shows "length (m_loops (pool s)) \<le> m_threads (pool s)"
proof -
  have "card (set (m_loops (pool s))) \<le> card {..<m_threads (pool s)}"
    using assms by (intro card_mono) (auto simp: pool_inv_def)
  then show ?thesis using assms by (simp add: pool_inv_def distinct_card)
qed

lemma unregistered:
  assumes "pool_inv n s" "length (m_loops (pool s)) < m_threads (pool s)"
  shows "\<exists>t. t < m_threads (pool s) \<and> t \<notin> set (m_loops (pool s))"
proof (rule ccontr)
  assume "\<not> ?thesis"
  then have "{..<m_threads (pool s)} \<subseteq> set (m_loops (pool s))" by auto
  then have "card {..<m_threads (pool s)} \<le> card (set (m_loops (pool s)))" by (intro card_mono) auto
  also have "\<dots> \<le> length (m_loops (pool s))" by (rule card_length)
  finally show False using assms(2) by simp
qed

text \<open>An \<open>int\<close> has 32 bits.\<close>

definition int_range :: "int \<Rightarrow> bool" where
  "int_range n \<longleftrightarrow> - (2 ^ 31) \<le> n \<and> n < 2 ^ 31"

lemma all_started_iff:
  assumes "pool_inv n s" "int_range n" "0 \<le> n"
  shows "all_started (pool s) \<longleftrightarrow> int (length (m_loops (pool s))) = n"
  using assms by (simp add: all_started_def pool_inv_def int_range_def)

lemma pool_step_inv:
  assumes "pool_step s t" "pool_inv n s" "int_range n"
  shows "pool_inv n t"
  using assms(1)
proof cases
  case (create i)
  then show ?thesis using assms(2) by (auto simp: pool_inv_def)
next
  case (created i)
  then show ?thesis using assms(2) by (auto simp: pool_inv_def)
next
  case check
  then show ?thesis using assms(2) by (auto simp: pool_inv_def)
next
  case (register t')
  have "starter s \<noteq> Started"
  proof
    assume st: "starter s = Started"
    have "insert t' (set (m_loops (pool s))) \<subseteq> {..<m_threads (pool s)}"
      using assms(2) register by (auto simp: pool_inv_def)
    from card_mono [OF _ this] have "length (m_loops (pool s)) < m_threads (pool s)"
      using register assms(2) by (simp add: pool_inv_def distinct_card)
    moreover have "all_started (pool s)" "int (m_threads (pool s)) = max 0 n"
      using st assms(2) by (auto simp: pool_inv_def)
    ultimately show False using all_started_iff [OF assms(2,3)] by (cases "0 \<le> n") auto
  qed
  then show ?thesis using assms(2) register
    by (auto simp: pool_inv_def register_loop_def Let_def split: starter.splits)
qed

lemma pool_reach_inv:
  assumes "pool_reach p s" "fresh_pool n p" "int_range n"
  shows "pool_inv n s"
  using assms
proof (induction rule: pool_reach.induct)
  case start
  then show ?case by (simp add: pool_inv_def pool_start_def fresh_pool_def)
next
  case (step s t)
  then show ?case using pool_step_inv by blast
next
  case (spurious s)
  then show ?case by (simp add: pool_inv_def)
qed

fun starter_rank :: "starter \<Rightarrow> nat" where
  "starter_rank (Creating _) = 3"
| "starter_rank Checking = 2"
| "starter_rank Blocked = 1"
| "starter_rank Started = 0"

definition start_measure :: "pool_sys \<Rightarrow> nat" where
  "start_measure s =
     (nat (m_thread_num (pool s)) - m_threads (pool s)) +
     2 * (nat (m_thread_num (pool s)) - length (m_loops (pool s))) + starter_rank (starter s)"

lemma pool_step_decreases:
  assumes "pool_step s t" "pool_inv n s" "0 \<le> n" "int_range n"
  shows "start_measure t < start_measure s"
  using assms(1)
proof cases
  case (create i)
  then show ?thesis using assms(2) by (auto simp: start_measure_def pool_inv_def)
next
  case (created i)
  then show ?thesis by (auto simp: start_measure_def)
next
  case check
  then show ?thesis by (auto simp: start_measure_def)
next
  case (register t')
  have "length (m_loops (pool s)) + 1 \<le> m_threads (pool s)"
    using loops_le_threads [OF pool_step_inv [OF assms(1,2,4)]] register
    by (simp add: register_loop_def Let_def)
  also have "int (m_threads (pool s)) \<le> n"
    using assms(2,3) by (auto simp: pool_inv_def split: starter.splits)
  finally show ?thesis using assms(2) register
    by (auto simp: start_measure_def register_loop_def Let_def pool_inv_def)
qed

lemma pool_not_stuck:
  assumes "pool_inv n s" "0 \<le> n" "int_range n" "starter s \<noteq> Started"
  shows "\<exists>t. pool_step s t"
proof (cases "starter s")
  case (Creating i)
  then show ?thesis using pool_step.create pool_step.created by blast
next
  case Checking
  then show ?thesis using pool_step.check by blast
next
  case Blocked
  then have "length (m_loops (pool s)) < m_threads (pool s)"
    using assms all_started_iff [OF assms(1,3,2)] loops_le_threads [OF assms(1)]
    by (auto simp: pool_inv_def)
  then show ?thesis using unregistered [OF assms(1)] pool_step.register by blast
next
  case Started
  then show ?thesis using assms by simp
qed

section \<open>Round robin\<close>

lemma rem_trunc_nonneg: "0 \<le> a \<Longrightarrow> 0 < b \<Longrightarrow> rem_trunc a b = a mod b"
  by (cases "a = 0") (simp_all add: rem_trunc_def)

definition pool_ready :: "LoopThreadPool \<Rightarrow> bool" where
  "pool_ready p \<longleftrightarrow> m_loops p \<noteq> [] \<and> m_thread_num p = int (length (m_loops p)) \<and>
     0 \<le> m_next_loop_index p \<and> m_next_loop_index p < m_thread_num p"

lemma getNextLoop_ready:
  assumes "pool_ready p"
  shows "getNextLoop p = Inr (m_loops p ! nat (m_next_loop_index p),
     p\<lparr>m_next_loop_index := (m_next_loop_index p + 1) mod m_thread_num p\<rparr>)"
  using assms by (auto simp: getNextLoop_def pool_ready_def rem_trunc_nonneg)

lemma next_loops_ready:
  assumes "pool_ready p"
  shows "next_loops k p =
     Inr (map (\<lambda>j. m_loops p ! ((nat (m_next_loop_index p) + j) mod length (m_loops p))) [0..<k],
          p\<lparr>m_next_loop_index := (m_next_loop_index p + int k) mod m_thread_num p\<rparr>)"
  using assms
proof (induction k arbitrary: p)
  case 0
  then show ?case by (simp add: pool_ready_def)
next
  case (Suc k)
  let ?n = "length (m_loops p)" and ?i = "nat (m_next_loop_index p)"
  let ?p = "p\<lparr>m_next_loop_index := (m_next_loop_index p + 1) mod m_thread_num p\<rparr>"
  have i: "?i < ?n" using Suc.prems by (auto simp: pool_ready_def)
  have ready: "pool_ready ?p" using Suc.prems by (auto simp: pool_ready_def)
  have idx: "nat ((m_next_loop_index p + 1) mod m_thread_num p) = (?i + 1) mod ?n"
    using Suc.prems by (simp add: pool_ready_def nat_mod_distrib nat_add_distrib)
  have shift: "((?i + 1) mod ?n + j) mod ?n = (?i + Suc j) mod ?n" for j
    by (simp add: mod_add_left_eq)
  have next_idx: "((m_next_loop_index p + 1) mod m_thread_num p + int k) mod m_thread_num p =
      (m_next_loop_index p + int (Suc k)) mod m_thread_num p"
    unfolding mod_add_left_eq by (simp add: ac_simps)
  have "[0..<Suc k] = 0 # map Suc [0..<k]" by (simp add: upt_conv_Cons map_Suc_upt)
  then show ?case
    using Suc.IH [OF ready] getNextLoop_ready [OF Suc.prems] i
    by (simp add: idx shift [simplified] next_idx [simplified] del: upt_Suc)
qed

lemma getNextLoop_no_threads: "m_loops p = [] \<Longrightarrow> getNextLoop p = Inr (m_base_loop p, p)"
  by (simp add: getNextLoop_def)

lemma full_round: "map (\<lambda>j. xs ! ((i + j) mod length xs)) [0..<length xs] = rotate i xs"
  by (rule nth_equalityI) (simp_all add: nth_rotate add.commute)

lemma mset_rotate: "mset (rotate n xs) = mset xs"
proof -
  have "mset (drop k xs @ take k xs) = mset xs" for k
    by (metis append_take_drop_id mset_append union_commute)
  then show ?thesis by (simp add: rotate_drop_take)
qed

lemma pool_started:
  assumes "pool_reach p s" "fresh_pool n p" "int_range n" "0 \<le> n" "starter s = Started"
  shows "mset (m_loops (pool s)) = mset [0..<nat n]" "0 < n \<Longrightarrow> pool_ready (pool s)"
proof -
  have inv: "pool_inv n s" using assms(1-3) by (rule pool_reach_inv)
  then have len: "int (length (m_loops (pool s))) = n" "int (m_threads (pool s)) = n"
    using all_started_iff [OF inv assms(3,4)] assms(4,5) by (auto simp: pool_inv_def)
  have sub: "set (m_loops (pool s)) \<subseteq> {..<nat n}" "distinct (m_loops (pool s))"
    using inv len by (auto simp: pool_inv_def)
  have "set (m_loops (pool s)) = {..<nat n}"
    using sub len by (intro card_subset_eq) (auto simp: distinct_card)
  then show "mset (m_loops (pool s)) = mset [0..<nat n]"
    using sub set_eq_iff_mset_eq_distinct [of "m_loops (pool s)" "[0..<nat n]"]
    by (simp add: atLeast0LessThan)
  show "pool_ready (pool s)" if "0 < n"
    using that inv len by (auto simp: pool_ready_def pool_inv_def)
qed

section \<open>Properties\<close>

text \<open>C24: Starting the pool with a thread number that is not negative always succeeds.  Whatever
  the interleaving of the creating thread, the pool threads and spurious wake-ups, the starting
  thread is never stuck waiting for a notification that will not come: as long as it has not
  passed the wait some step is possible, every step brings the end closer, and when it has
  passed, exactly one loop per thread is in the vector and the pool is ready for round robin.\<close>

theorem pool_start_completes:
  assumes "pool_reach p s" "fresh_pool n p" "int_range n" "0 \<le> n"
  shows "(starter s \<noteq> Started \<longrightarrow> (\<exists>t. pool_step s t)) \<and>
     (\<forall>t. pool_step s t \<longrightarrow> start_measure t < start_measure s) \<and>
     (starter s = Started \<longrightarrow>
        mset (m_loops (pool s)) = mset [0..<nat n] \<and> (0 < n \<longrightarrow> pool_ready (pool s)))"
proof (intro conjI impI allI)
  have inv: "pool_inv n s" using assms(1-3) by (rule pool_reach_inv)
  show "\<exists>t. pool_step s t" if "starter s \<noteq> Started" using pool_not_stuck inv assms that by blast
  show "start_measure t < start_measure s" if "pool_step s t" for t
    using pool_step_decreases inv assms that by blast
  show "mset (m_loops (pool s)) = mset [0..<nat n]" if "starter s = Started"
    using pool_started [OF assms that] by simp
  show "pool_ready (pool s)" if "starter s = Started" "0 < n" using pool_started [OF assms that(1)] that(2) by simp
qed

text \<open>Connections are spread evenly.  On a started pool whose next index is \<open>i\<close> the
  \<open>j\<close>-th of \<open>k\<close> calls of \<open>getNextLoop\<close> returns the loop at \<open>(i + j) mod n\<close>, no
  call goes out of the vector, and any \<open>n\<close> consecutive calls return each of the \<open>n\<close>
  loops exactly once.\<close>

theorem round_robin:
  assumes "pool_ready p"
  shows "(\<exists>p'. next_loops k p = Inr
            (map (\<lambda>j. m_loops p ! ((nat (m_next_loop_index p) + j) mod length (m_loops p))) [0..<k], p') \<and>
            pool_ready p' \<and> m_loops p' = m_loops p) \<and>
     (\<exists>ls p'. next_loops (length (m_loops p)) p = Inr (ls, p') \<and> mset ls = mset (m_loops p))"
  using assms next_loops_ready [OF assms] full_round [of "m_loops p" "nat (m_next_loop_index p)"]
  by (auto simp: mset_rotate pool_ready_def)

text \<open>A negative thread number blocks the starting thread for ever: no thread is created, and
  the comparison of the number of loops with the converted number never holds.\<close>

theorem negative_thread_num_blocks:
  assumes "pool_reach p s" "fresh_pool n p" "int_range n" "n < 0"
  shows "starter s \<noteq> Started \<and> m_loops (pool s) = []"
proof -
  have inv: "pool_inv n s" using assms(1-3) by (rule pool_reach_inv)
  then have "m_threads (pool s) = 0" using assms(4) by (auto simp: pool_inv_def split: starter.splits)
  then have "m_loops (pool s) = []" using loops_le_threads [OF inv] by simp
  moreover have "n mod 2 ^ 64 = n + 2 ^ 64"
    using assms(3,4) mod_pos_pos_trivial [of "n + 2 ^ 64" "2 ^ 64 :: int"]
    by (simp add: int_range_def)
  then have "n mod 2 ^ 64 \<noteq> 0" using assms(3) by (simp add: int_range_def)
  ultimately show ?thesis using inv by (auto simp: pool_inv_def all_started_def)
qed

text \<open>A pool of one thread that registers its loop before the starting thread tests.\<close>

definition one_thread :: LoopThreadPool where
  "one_thread = setThreadNum 1 (LoopThreadPool_new 9)"

definition one_started :: pool_sys where
  "one_started = \<lparr>pool = one_thread\<lparr>m_loops := [0], m_threads := 1\<rparr>, starter = Started\<rparr>"

lemmas one_thread_defs = one_thread_def setThreadNum_def LoopThreadPool_new_def

lemma one_started_reach: "pool_reach one_thread one_started"
proof -
  let ?s = "\<lambda>ls st. \<lparr>pool = one_thread\<lparr>m_loops := ls, m_threads := 1\<rparr>, starter = st\<rparr>"
  have "pool_step (pool_start one_thread) (?s [] (Creating 1))"
    using pool_step.create [of "pool_start one_thread" 0] by (simp add: pool_start_def one_thread_defs)
  from pool_reach.step [OF pool_reach.start this] have "pool_reach one_thread (?s [] (Creating 1))" .
  moreover have "pool_step (?s [] (Creating 1)) (?s [] Checking)"
    using pool_step.created [of "?s [] (Creating 1)" 1] by (simp add: one_thread_defs)
  moreover have "pool_step (?s [] Checking) (?s [0] Checking)"
    using pool_step.register [of 0 "?s [] Checking"] by (simp add: register_loop_def Let_def one_thread_defs)
  moreover have "pool_step (?s [0] Checking) one_started"
    using pool_step.check [of "?s [0] Checking"] by (simp add: one_started_def all_started_def one_thread_defs)
  ultimately show ?thesis by (meson pool_reach.step)
qed

theorem pool_start_completes_witness:
  "starter one_started = Started \<and> mset (m_loops (pool one_started)) = mset [0..<1] \<and>
   pool_ready (pool one_started)"
  using pool_start_completes [OF one_started_reach, of 1]
  by (simp add: fresh_pool_def one_thread_defs int_range_def one_started_def)

definition three_loops :: LoopThreadPool where
  "three_loops = \<lparr>m_base_loop = 9, m_thread_num = 3, m_next_loop_index = 2, m_loops = [20, 21, 22],
     m_threads = 3\<rparr>"

theorem round_robin_witness:
  "\<exists>p'. next_loops 4 three_loops = Inr ([22, 20, 21, 22], p') \<and> pool_ready p'"
  using round_robin [of three_loops 4]
  by (auto simp: three_loops_def pool_ready_def upt_rec)

definition minus_one :: LoopThreadPool where
  "minus_one = setThreadNum (-1) (LoopThreadPool_new 9)"

theorem negative_thread_num_blocks_witness:
  "starter (pool_start minus_one) \<noteq> Started \<and> m_loops (pool (pool_start minus_one)) = []"
  using negative_thread_num_blocks [OF pool_reach.start [of minus_one], of "-1"]
  by (simp add: fresh_pool_def minus_one_def setThreadNum_def LoopThreadPool_new_def int_range_def)

end
