(* ===== verification/TcpServers.thy ===== *)
theory TcpServers
  imports TcpConnections LoopPools
begin

text \<open>
  The acceptor and the TCP server, \<open>Net/acceptor.h\<close>, \<open>Net/acceptor.cpp\<close>,
  \<open>Net/tcpserver.h\<close> and \<open>Net/tcpserver.cpp\<close>.  A server world holds the server, every event
  loop by its number, every connection object by its address, the log and the state of the
  layers above.  An operation of one connection runs in the connection's view of the world
  (\<open>focus\<close>) and its effect is put back (\<open>unfocus\<close>), so that the callbacks of the connection
  can act on the whole server.
\<close>

section \<open>State\<close>

record Address =
  m_ip :: string
  m_port :: int

record Acceptor =
  m_listen_fd :: int
  m_idle_fd :: int
  m_address :: Address
  m_accept_channel :: nat

record TcpServer =
  srv_loop :: nat
  m_next_connection_id :: int
  m_acceptor :: Acceptor
  m_loop_thread_pool :: LoopThreadPool
  m_connections :: "int \<rightharpoonup> nat"
  m_ipport :: string

text \<open>
  A connection object with the loop it belongs to and what the kernel has taken from it; the
  connections the kernel holds for \<open>accept\<close> and the descriptors that were closed.
  \<open>ntoa_buf\<close> is the static buffer of \<open>inet_ntoa\<close>, to which the address pointer of every
  connection points.
\<close>

record ConnObj =
  co_conn :: TcpConnection
  co_loop :: nat
  co_wire :: "char list"
  co_shut :: bool

record ('f, 'x) ServerWorld =
  srv :: TcpServer
  loops :: "nat \<rightharpoonup> 'f net_loop"
  objs :: "nat \<rightharpoonup> ConnObj"
  backlog :: "Address list"
  ntoa_buf :: string
  closed_fds :: "int list"
  srv_log :: "string list"
  upper :: 'x

type_synonym ('f, 'x) conn_view = "('f, ('f, 'x) ServerWorld) ConnWorld"

definition deref_loop :: "('f, 'x) ServerWorld \<Rightarrow> nat \<Rightarrow> 'f net_loop result" where
  "deref_loop s i = (case loops s i of None \<Rightarrow> Inl OutOfBounds | Some l \<Rightarrow> Inr l)"

definition put_loop :: "nat \<Rightarrow> 'f net_loop \<Rightarrow> ('f, 'x) ServerWorld \<Rightarrow> ('f, 'x) ServerWorld" where
  "put_loop i l s = s\<lparr>loops := (loops s)(i \<mapsto> l)\<rparr>"

definition srv_log_line :: "string \<Rightarrow> ('f, 'x) ServerWorld \<Rightarrow> ('f, 'x) ServerWorld" where
  "srv_log_line msg s = s\<lparr>srv_log := srv_log s @ [msg @ [CHR 0x0A]]\<rparr>"

definition deref_obj :: "('f, 'x) ServerWorld \<Rightarrow> nat \<Rightarrow> ConnObj result" where
  "deref_obj s obj = (case objs s obj of None \<Rightarrow> Inl OutOfBounds | Some ob \<Rightarrow> Inr ob)"

definition focus :: "nat \<Rightarrow> ('f, 'x) ServerWorld \<Rightarrow> ('f, 'x) conn_view result" where
  "focus obj s =
     res_bind (deref_obj s obj) (\<lambda>ob.
       res_bind (deref_loop s (co_loop ob)) (\<lambda>l.
         Inr \<lparr>m_loop = l, conn = co_conn ob, wire = co_wire ob, wr_shut = co_shut ob,
              logged = srv_log s, env = s\<rparr>))"

definition unfocus :: "nat \<Rightarrow> nat \<Rightarrow> ('f, 'x) conn_view \<Rightarrow> ('f, 'x) ServerWorld" where
  "unfocus obj i w =
     (env w)\<lparr>loops := (loops (env w))(i \<mapsto> m_loop w),
       objs := (objs (env w))(obj \<mapsto> \<lparr>co_conn = conn w, co_loop = i, co_wire = wire w, co_shut = wr_shut w\<rparr>),
       srv_log := logged w\<rparr>"

text \<open>An operation of the connection \<open>obj\<close>.\<close>

definition on_conn ::
  "(('f, 'x) conn_view \<Rightarrow> ('f, 'x) conn_view result) \<Rightarrow> nat \<Rightarrow> ('f, 'x) ServerWorld \<Rightarrow> ('f, 'x) ServerWorld result" where
  "on_conn op obj s =
     res_bind (deref_obj s obj) (\<lambda>ob.
       res_bind (focus obj s) (\<lambda>w. res_bind (op w) (\<lambda>w'. Inr (unfocus obj (co_loop ob) w'))))"

section \<open>Removing a connection\<close>

definition remove_message :: "string \<Rightarrow> int \<Rightarrow> string" where
  "remove_message ip port =
     ''TcpServer::HandleCloseInLoop - remove connection '' @ ''['' @ ip @ '':'' @ int_dec port @ '']''"

definition handleRemoveConnectionInLoop ::
  "nat \<Rightarrow> nat \<Rightarrow> ('f, 'x) ServerWorld \<Rightarrow> ('f, 'x) ServerWorld result" where
  "handleRemoveConnectionInLoop tid obj s =
     res_bind (deref_loop s (srv_loop (srv s))) (\<lambda>base.
       res_bind (assertInLoopThread base tid) (\<lambda>_.
         res_bind (deref_obj s obj) (\<lambda>ob.
           let s1 = s\<lparr>srv := (srv s)\<lparr>m_connections := (m_connections (srv s))(m_conn_fd (co_conn ob) := None)\<rparr>\<rparr>
           in case m_ip_port (co_conn ob) of
                None \<Rightarrow> Inl OutOfBounds
              | Some (_, port) \<Rightarrow>
                  let s2 = srv_log_line (remove_message (ntoa_buf s1) port) s1
                  in res_bind (deref_loop s2 (co_loop ob)) (\<lambda>l.
                       Inr (put_loop (co_loop ob) (queueInLoop l tid (FDestructor obj)) s2)))))"

text \<open>\<open>m_loop->runInLoop\<close> of the bound function: at once on the base loop's thread, queued otherwise.\<close>

definition handleRemoveConnection ::
  "nat \<Rightarrow> nat \<Rightarrow> ('f, 'x) ServerWorld \<Rightarrow> ('f, 'x) ServerWorld result" where
  "handleRemoveConnection tid obj s =
     res_bind (deref_loop s (srv_loop (srv s))) (\<lambda>base.
       if isInLoopThread base tid then handleRemoveConnectionInLoop tid obj s
       else Inr (put_loop (srv_loop (srv s)) (queueInLoop base tid (FRemoveConnection obj)) s))"

text \<open>The close callback \<open>handleNewConnection\<close> gives to a connection.\<close>

definition server_close ::
  "nat \<Rightarrow> nat \<Rightarrow> nat \<Rightarrow> ('f, 'x) conn_view \<Rightarrow> ('f, 'x) conn_view result" where
  "server_close tid obj i w = res_bind (handleRemoveConnection tid obj (unfocus obj i w)) (focus obj)"

section \<open>Functors of the server\<close>

definition run_server_functor ::
  "(('f, 'x) conn_view \<Rightarrow> ('f, 'x) conn_view result) \<Rightarrow> nat \<Rightarrow> 'f loop_task \<Rightarrow>
   ('f, 'x) ServerWorld \<Rightarrow> ('f, 'x) ServerWorld result" where
  "run_server_functor connection_callback tid f s =
     (case f of
        FEstablished obj \<Rightarrow> on_conn (connectionEstablished connection_callback tid) obj s
      | FDestructor obj \<Rightarrow> on_conn (connectionDestructor connection_callback tid) obj s
      | FRemoveConnection obj \<Rightarrow> handleRemoveConnectionInLoop tid obj s
      | _ \<Rightarrow> Inr s)"

definition server_runInLoop ::
  "(('f, 'x) conn_view \<Rightarrow> ('f, 'x) conn_view result) \<Rightarrow> nat \<Rightarrow> nat \<Rightarrow> 'f loop_task \<Rightarrow>
   ('f, 'x) ServerWorld \<Rightarrow> ('f, 'x) ServerWorld result" where
  "server_runInLoop connection_callback tid i f s =
     res_bind (deref_loop s i) (\<lambda>l.
       if isInLoopThread l tid then run_server_functor connection_callback tid f s
       else Inr (put_loop i (queueInLoop l tid f) s))"

section \<open>A new connection\<close>

definition int_max :: int where "int_max = 2147483647"

definition new_message :: "TcpServer \<Rightarrow> Address \<Rightarrow> string" where
  "new_message sv con_addr =
     ''New connection: '' @ m_ipport sv @ '' #'' @ int_dec (m_next_connection_id sv) @ '' from '' @
     m_ip con_addr @ '':'' @ int_dec (m_port con_addr)"

text \<open>\<open>self\<close> and \<open>chan\<close> are where the connection object and its channel were allocated.\<close>

definition handleNewConnection ::
  "(('f, 'x) conn_view \<Rightarrow> ('f, 'x) conn_view result) \<Rightarrow> nat \<Rightarrow> nat \<Rightarrow> nat \<Rightarrow> int \<Rightarrow> Address \<Rightarrow>
   ('f, 'x) ServerWorld \<Rightarrow> ('f, 'x) ServerWorld result" where
  "handleNewConnection connection_callback tid self chan conn_fd con_addr s =
     res_bind (getNextLoop (m_loop_thread_pool (srv s))) (\<lambda>(i, tp).
       res_bind (deref_loop s i) (\<lambda>l.
         let c = TcpConnection_new self conn_fd (m_next_connection_id (srv s)) chan;
             l1 = l\<lparr>m_epoller := put_chan (m_epoller l) chan (connection_channel conn_fd self)\<rparr>;
             next = m_next_connection_id (srv s) + 1;
             sv = (srv s)\<lparr>m_loop_thread_pool := tp, m_connections := (m_connections (srv s))(conn_fd \<mapsto> self),
                          m_next_connection_id := (if next = int_max then 0 else next)\<rparr>;
             s1 = srv_log_line (new_message sv con_addr) ((put_loop i l1 s)\<lparr>srv := sv\<rparr>);
             c1 = setIPPort (m_ip con_addr) (m_port con_addr) c;
             s2 = s1\<lparr>objs := (objs s1)(self \<mapsto> \<lparr>co_conn = c1, co_loop = i, co_wire = [], co_shut = False\<rparr>)\<rparr>
         in server_runInLoop connection_callback tid i (FEstablished self) s2))"

text \<open>
  The destructor of the connection object, when its last shared pointer goes: it closes the
  descriptor and destroys the channel.
\<close>

definition TcpConnection_destroy :: "nat \<Rightarrow> ('f, 'x) ServerWorld \<Rightarrow> ('f, 'x) ServerWorld result" where
  "TcpConnection_destroy obj s =
     res_bind (deref_obj s obj) (\<lambda>ob.
       let s1 = s\<lparr>closed_fds := closed_fds s @ [m_conn_fd (co_conn ob)]\<rparr> in
       res_bind (deref_loop s1 (co_loop ob)) (\<lambda>l.
         res_bind (Channel_destroy (m_epoller l) (m_channel (co_conn ob))) (\<lambda>r.
           Inr ((put_loop (co_loop ob) (l\<lparr>m_epoller := r\<rparr>) s1)\<lparr>objs := (objs s1)(obj := None)\<rparr>))))"

text \<open>
  The destructor of the server, over the descriptors of its map: the entry is reset and the
  connection is destroyed on its own loop.
\<close>

fun destroy_connections ::
  "(('f, 'x) conn_view \<Rightarrow> ('f, 'x) conn_view result) \<Rightarrow> nat \<Rightarrow> int list \<Rightarrow>
   ('f, 'x) ServerWorld \<Rightarrow> ('f, 'x) ServerWorld result" where
  "destroy_connections connection_callback tid [] s = Inr s"
| "destroy_connections connection_callback tid (fd # fds) s =
     (case m_connections (srv s) fd of
        None \<Rightarrow> destroy_connections connection_callback tid fds s
      | Some obj \<Rightarrow>
          let s1 = s\<lparr>srv := (srv s)\<lparr>m_connections := (m_connections (srv s))(fd := None)\<rparr>\<rparr> in
          res_bind (deref_obj s1 obj) (\<lambda>ob.
            res_bind (server_runInLoop connection_callback tid (co_loop ob) (FDestructor obj) s1)
              (destroy_connections connection_callback tid fds)))"

section \<open>The acceptor\<close>

definition accept_channel :: "int \<Rightarrow> chan_cb Channel" where
  "accept_channel listen_fd =
     setEvents (setIndex (setReadCallback CbAccept (Channel_new listen_fd)) kNew) (EPOLLIN OR EPOLLET)"

text \<open>
  The constructor: the descriptors \<open>socket\<close> and \<open>open\<close> returned and whether setting
  \<open>SO_REUSEADDR\<close> and \<open>bind\<close> succeeded; a failure of the first, third or fourth exits.
\<close>

definition setReuseAddr :: "bool \<Rightarrow> unit result" where
  "setReuseAddr ok = (if ok then Inr () else Inl ExitCalled)"

definition setKeepAlive :: "bool \<Rightarrow> unit result" where
  "setKeepAlive ok = (if ok then Inr () else Inl ExitCalled)"

definition setTcpNoDelay :: "bool \<Rightarrow> unit result" where
  "setTcpNoDelay ok = (if ok then Inr () else Inl ExitCalled)"

definition Bind :: "bool \<Rightarrow> unit result" where
  "Bind ok = (if ok then Inr () else Inl ExitCalled)"

definition Acceptor_new ::
  "int \<Rightarrow> int \<Rightarrow> bool \<Rightarrow> bool \<Rightarrow> nat \<Rightarrow> Address \<Rightarrow> 'f net_loop \<Rightarrow> ('f net_loop \<times> Acceptor) result" where
  "Acceptor_new listen_fd idle_fd reuse_ok bind_ok chan address l =
     (if listen_fd < 0 then Inl ExitCalled
      else res_bind (setReuseAddr reuse_ok) (\<lambda>_. res_bind (Bind bind_ok) (\<lambda>_.
        Inr (l\<lparr>m_epoller := put_chan (m_epoller l) chan (accept_channel listen_fd)\<rparr>,
             \<lparr>m_listen_fd = listen_fd, m_idle_fd = idle_fd, m_address = address, m_accept_channel = chan\<rparr>))))"

definition Listen :: "bool \<Rightarrow> ('f, 'x) ServerWorld \<Rightarrow> ('f, 'x) ServerWorld result" where
  "Listen listen_ok s =
     assert_then listen_ok
       (res_bind (deref_loop s (srv_loop (srv s))) (\<lambda>l.
          res_bind (enableReading (m_epoller l) (m_accept_channel (m_acceptor (srv s)))) (\<lambda>r.
            Inr (put_loop (srv_loop (srv s)) (l\<lparr>m_epoller := r\<rparr>) s))))"

definition Acceptor_destroy :: "('f, 'x) ServerWorld \<Rightarrow> ('f, 'x) ServerWorld" where
  "Acceptor_destroy s =
     s\<lparr>closed_fds := closed_fds s @ [m_listen_fd (m_acceptor (srv s)), m_idle_fd (m_acceptor (srv s))]\<rparr>"

text \<open>
  \<open>handleConnect\<close>: \<open>acc\<close> is what \<open>accept4\<close> returned for the first waiting connection,
  \<open>acc2\<close> what \<open>accept\<close> returned on the freed descriptor and \<open>null_fd\<close> the descriptor
  of the reopened \<open>/dev/null\<close>.  \<open>inet_ntoa\<close> writes the peer's address to its buffer.  A successful \<open>accept\<close> takes the first waiting connection.
\<close>

definition set_idle :: "int \<Rightarrow> ('f, 'x) ServerWorld \<Rightarrow> ('f, 'x) ServerWorld" where
  "set_idle fd s = s\<lparr>srv := (srv s)\<lparr>m_acceptor := (m_acceptor (srv s))\<lparr>m_idle_fd := fd\<rparr>\<rparr>\<rparr>"

definition close_idle :: "('f, 'x) ServerWorld \<Rightarrow> ('f, 'x) ServerWorld" where
  "close_idle s = s\<lparr>closed_fds := closed_fds s @ [m_idle_fd (m_acceptor (srv s))]\<rparr>"

definition take_waiting :: "('f, 'x) ServerWorld \<Rightarrow> ('f, 'x) ServerWorld" where
  "take_waiting s = s\<lparr>backlog := tl (backlog s)\<rparr>"

definition handleConnect ::
  "(int \<Rightarrow> Address \<Rightarrow> ('f, 'x) ServerWorld \<Rightarrow> ('f, 'x) ServerWorld result) \<Rightarrow> bool \<Rightarrow> bool \<Rightarrow> errno + int \<Rightarrow>
   errno + int \<Rightarrow> int \<Rightarrow> ('f, 'x) ServerWorld \<Rightarrow> ('f, 'x) ServerWorld result" where
  "handleConnect new_connection_callback keep_ok delay_ok acc acc2 null_fd s =
     (case acc of
        Inl e \<Rightarrow>
          if e = EMFILE then
            let s1 = close_idle (srv_log_line ''acceptor: too many open files'' s);
                s2 = (case acc2 of Inl _ \<Rightarrow> set_idle (-1) s1 | Inr fd \<Rightarrow> set_idle fd (take_waiting s1))
            in Inr (set_idle null_fd (close_idle s2))
          else Inr s
      | Inr conn_fd \<Rightarrow>
          res_bind (setKeepAlive keep_ok) (\<lambda>_. res_bind (setTcpNoDelay delay_ok) (\<lambda>_.
            case backlog s of
              [] \<Rightarrow> Inr s
            | peer # _ \<Rightarrow>
                new_connection_callback conn_fd peer ((take_waiting s)\<lparr>ntoa_buf := m_ip peer\<rparr>))))"

section \<open>The server\<close>

definition TcpServer_new :: "nat \<Rightarrow> Acceptor \<Rightarrow> Address \<Rightarrow> TcpServer" where
  "TcpServer_new loop acc address =
     \<lparr>srv_loop = loop, m_next_connection_id = 0, m_acceptor = acc,
      m_loop_thread_pool = LoopThreadPool_new loop, m_connections = Map.empty,
      m_ipport = m_ip address @ '':'' @ int_dec (m_port address)\<rparr>"

definition server_setThreadNum :: "int \<Rightarrow> TcpServer \<Rightarrow> TcpServer" where
  "server_setThreadNum num_threads sv =
     sv\<lparr>m_loop_thread_pool := setThreadNum num_threads (m_loop_thread_pool sv)\<rparr>"

text \<open>\<open>Start\<close>: \<open>tp\<close> is the pool when \<open>LoopThreadPool::start\<close> has returned.\<close>

definition server_Start :: "LoopThreadPool \<Rightarrow> bool \<Rightarrow> ('f, 'x) ServerWorld \<Rightarrow> ('f, 'x) ServerWorld result" where
  "server_Start tp listen_ok s = Listen listen_ok (s\<lparr>srv := (srv s)\<lparr>m_loop_thread_pool := tp\<rparr>\<rparr>)"

section \<open>Invariant\<close>

text \<open>
  Every entry of the connection map is a live connection object with that descriptor, on a loop
  that exists; every loop's reactor satisfies its invariant; and the next number is in range.
\<close>

definition entry_ok :: "('f, 'x) ServerWorld \<Rightarrow> int \<Rightarrow> nat \<Rightarrow> bool" where
  "entry_ok s fd obj =
     (case objs s obj of
        None \<Rightarrow> False
      | Some ob \<Rightarrow> m_conn_fd (co_conn ob) = fd \<and> loops s (co_loop ob) \<noteq> None \<and> m_ip_port (co_conn ob) \<noteq> None)"

definition srv_inv :: "('f, 'x) ServerWorld \<Rightarrow> bool" where
  "srv_inv s \<longleftrightarrow>
     0 \<le> m_next_connection_id (srv s) \<and> m_next_connection_id (srv s) < int_max \<and>
     (\<forall>fd obj. m_connections (srv s) fd = Some obj \<longrightarrow> entry_ok s fd obj) \<and>
     (\<forall>i l. loops s i = Some l \<longrightarrow> reactor_inv (m_epoller l)) \<and>
     loops s (srv_loop (srv s)) \<noteq> None"

lemma put_loop_fields [simp]:
  "srv (put_loop i l s) = srv s" "loops (put_loop i l s) = (loops s)(i \<mapsto> l)" "objs (put_loop i l s) = objs s"
  "ntoa_buf (put_loop i l s) = ntoa_buf s" "upper (put_loop i l s) = upper s" "closed_fds (put_loop i l s) = closed_fds s"
  "backlog (put_loop i l s) = backlog s"
  by (simp_all add: put_loop_def)

lemma srv_log_line_fields [simp]:
  "srv (srv_log_line m s) = srv s" "loops (srv_log_line m s) = loops s" "objs (srv_log_line m s) = objs s"
  "ntoa_buf (srv_log_line m s) = ntoa_buf s" "upper (srv_log_line m s) = upper s"
  "closed_fds (srv_log_line m s) = closed_fds s" "backlog (srv_log_line m s) = backlog s"
  by (simp_all add: srv_log_line_def)

lemma deref_loop_Some [simp]: "loops s i = Some l \<Longrightarrow> deref_loop s i = Inr l"
  by (simp add: deref_loop_def)

lemma deref_obj_Some [simp]: "objs s obj = Some ob \<Longrightarrow> deref_obj s obj = Inr ob"
  by (simp add: deref_obj_def)

lemma queueInLoop_fields [simp]:
  "m_epoller (queueInLoop l tid f) = m_epoller l" "m_thread_id (queueInLoop l tid f) = m_thread_id l"
  "m_pending_functors (queueInLoop l tid f) = m_pending_functors l @ [f]"
  by (simp_all add: queueInLoop_def push_functor_def wakeup_def Let_def)

text \<open>The view of one connection.\<close>

definition view :: "('f, 'x) ServerWorld \<Rightarrow> ConnObj \<Rightarrow> 'f net_loop \<Rightarrow> ('f, 'x) conn_view" where
  "view s ob l = \<lparr>m_loop = l, conn = co_conn ob, wire = co_wire ob, wr_shut = co_shut ob, logged = srv_log s, env = s\<rparr>"

lemma view_fields [simp]:
  "m_loop (view s ob l) = l" "conn (view s ob l) = co_conn ob" "wire (view s ob l) = co_wire ob"
  "wr_shut (view s ob l) = co_shut ob" "env (view s ob l) = s" "logged (view s ob l) = srv_log s"
  by (simp_all add: view_def)

lemma focus_view: "objs s obj = Some ob \<Longrightarrow> loops s (co_loop ob) = Some l \<Longrightarrow> focus obj s = Inr (view s ob l)"
  by (simp add: focus_def view_def)

lemma on_conn_view:
  "objs s obj = Some ob \<Longrightarrow> loops s (co_loop ob) = Some l \<Longrightarrow>
   on_conn op obj s = res_bind (op (view s ob l)) (\<lambda>w. Inr (unfocus obj (co_loop ob) w))"
  by (simp add: on_conn_def focus_view)

lemma unfocus_fields [simp]:
  "srv (unfocus obj i w) = srv (env w)" "loops (unfocus obj i w) = (loops (env w))(i \<mapsto> m_loop w)"
  "objs (unfocus obj i w) =
     (objs (env w))(obj \<mapsto> \<lparr>co_conn = conn w, co_loop = i, co_wire = wire w, co_shut = wr_shut w\<rparr>)"
  "ntoa_buf (unfocus obj i w) = ntoa_buf (env w)" "closed_fds (unfocus obj i w) = closed_fds (env w)"
  "srv_log (unfocus obj i w) = logged w" "upper (unfocus obj i w) = upper (env w)" "backlog (unfocus obj i w) = backlog (env w)"
  by (simp_all add: unfocus_def)

section \<open>Lemmas\<close>

lemma next_id_range: "0 \<le> n \<Longrightarrow> n < int_max \<Longrightarrow>
   0 \<le> (if n + 1 = int_max then 0 else n + 1) \<and> (if n + 1 = int_max then 0 else n + 1) < int_max"
  by (auto simp: int_max_def)

lemma srv_inv_update:
  assumes "srv_inv s" "loops s' = (loops s)(i \<mapsto> l)" "reactor_inv (m_epoller l)" "srv_loop (srv s') = srv_loop (srv s)"
    and "0 \<le> m_next_connection_id (srv s')" "m_next_connection_id (srv s') < int_max"
    and "\<And>obj. obj \<notin> X \<Longrightarrow> objs s' obj = objs s obj"
    and "\<And>fd obj. obj \<notin> X \<Longrightarrow> m_connections (srv s') fd = Some obj \<Longrightarrow> m_connections (srv s) fd = Some obj"
    and "\<And>fd obj. obj \<in> X \<Longrightarrow> m_connections (srv s') fd = Some obj \<Longrightarrow> entry_ok s' fd obj"
  shows "srv_inv s'"
proof -
  have "entry_ok s' fd obj" if "m_connections (srv s') fd = Some obj" for fd obj
  proof (cases "obj \<in> X")
    case False
    then have "entry_ok s fd obj" using assms(1,8) that by (auto simp: srv_inv_def)
    then show ?thesis using assms(2,7) False by (auto simp: entry_ok_def split: option.splits)
  qed (use assms(9) that in blast)
  then show ?thesis using assms(1-6) by (auto simp: srv_inv_def)
qed

definition next_id :: "int \<Rightarrow> int" where
  "next_id n = (if n + 1 = int_max then 0 else n + 1)"

definition new_obj :: "nat \<Rightarrow> nat \<Rightarrow> int \<Rightarrow> int \<Rightarrow> nat \<Rightarrow> Address \<Rightarrow> ConnObj" where
  "new_obj i self conn_fd n chan addr =
     \<lparr>co_conn = (TcpConnection_new self conn_fd n chan)\<lparr>m_ip_port := Some (m_ip addr, m_port addr)\<rparr>,
      co_loop = i, co_wire = [], co_shut = False\<rparr>"

lemma handleNewConnection_queued:
  assumes "srv_inv s" "pool_ready (m_loop_thread_pool (srv s))"
    and "i = m_loops (m_loop_thread_pool (srv s)) ! nat (m_next_loop_index (m_loop_thread_pool (srv s)))"
    and "loops s i = Some l" "\<not> isInLoopThread l tid" "chans (m_epoller l) chan = None" "objs s self = None"
  shows "\<exists>s' l'. handleNewConnection connection_callback tid self chan conn_fd addr s = Inr s' \<and> srv_inv s' \<and>
     pool_ready (m_loop_thread_pool (srv s')) \<and> srv_loop (srv s') = srv_loop (srv s) \<and>
     m_connections (srv s') = (m_connections (srv s))(conn_fd \<mapsto> self) \<and>
     m_next_connection_id (srv s') = next_id (m_next_connection_id (srv s)) \<and>
     loops s' = (loops s)(i \<mapsto> l') \<and> m_thread_id l' = m_thread_id l \<and>
     m_epoller l' = put_chan (m_epoller l) chan (connection_channel conn_fd self) \<and>
     m_pending_functors l' = m_pending_functors l @ [FEstablished self] \<and>
     objs s' = (objs s)(self \<mapsto> new_obj i self conn_fd (m_next_connection_id (srv s)) chan addr) \<and>
     closed_fds s' = closed_fds s \<and> backlog s' = backlog s \<and> upper s' = upper s \<and>
     l' = queueInLoop (l\<lparr>m_epoller := put_chan (m_epoller l) chan (connection_channel conn_fd self)\<rparr>) tid (FEstablished self)"
proof -
  let ?n = "m_next_connection_id (srv s)"
  obtain tp where tp: "getNextLoop (m_loop_thread_pool (srv s)) = Inr (i, tp)" "pool_ready tp"
    using getNextLoop_ready [OF assms(2)] assms(2,3) by (auto simp: pool_ready_def)
  define l1 where "l1 = l\<lparr>m_epoller := put_chan (m_epoller l) chan (connection_channel conn_fd self)\<rparr>"
  define sv where "sv = (srv s)\<lparr>m_loop_thread_pool := tp, m_connections := (m_connections (srv s))(conn_fd \<mapsto> self),
     m_next_connection_id := next_id ?n\<rparr>"
  define s2 where "s2 = (srv_log_line (new_message sv addr) ((put_loop i l1 s)\<lparr>srv := sv\<rparr>))
     \<lparr>objs := (objs s)(self \<mapsto> new_obj i self conn_fd ?n chan addr)\<rparr>"
  define s' where "s' = put_loop i (queueInLoop l1 tid (FEstablished self)) s2"
  have "handleNewConnection connection_callback tid self chan conn_fd addr s = Inr s'"
    using tp(1) assms(4,5)
    by (simp add: handleNewConnection_def Let_def l1_def sv_def s2_def s'_def new_obj_def setIPPort_def
        server_runInLoop_def isInLoopThread_def next_id_def)
  moreover have "reactor_inv (m_epoller l1)"
    using assms(1,4,6) by (auto simp: l1_def srv_inv_def connection_channel_def setErrorCallback_def
        setWriteCallback_def setReadCallback_def Channel_new_def intro!: inv_put_new)
  then have "srv_inv s'"
  proof (intro srv_inv_update [OF assms(1), of s' i "queueInLoop l1 tid (FEstablished self)" "{self}"])
    have absent: "m_connections (srv s) fd \<noteq> Some self" for fd
      using assms(1,7) by (fastforce simp: srv_inv_def entry_ok_def)
    show "entry_ok s' fd obj" if "obj \<in> {self}" "m_connections (srv s') fd = Some obj" for fd obj
      using that absent [of fd]
      by (auto simp: s'_def s2_def sv_def new_obj_def entry_ok_def TcpConnection_new_def split: if_splits)
  qed (use next_id_range [of ?n] assms(1) in \<open>auto simp: s'_def s2_def sv_def next_id_def srv_inv_def split: if_splits\<close>)
  ultimately show ?thesis
    by (intro exI [of _ s'] exI [of _ "queueInLoop l1 tid (FEstablished self)"])
      (simp add: s'_def s2_def sv_def tp(2), simp add: l1_def)
qed

text \<open>
  A callback of the layers above that, run on a thread other than the base loop's, leaves the
  server and the connection alone, except that it may drain the input buffer and queue functors
  in the base loop.
\<close>

definition touched :: "('f, 'x) conn_view \<Rightarrow> Buffer \<Rightarrow> 'f net_loop \<Rightarrow> 'x \<Rightarrow> ('f, 'x) conn_view" where
  "touched w b base u = w\<lparr>conn := (conn w)\<lparr>m_input_buffer := b\<rparr>,
     env := put_loop (srv_loop (srv (env w))) base ((env w)\<lparr>upper := u\<rparr>)\<rparr>"

definition gentle :: "nat \<Rightarrow> (('f, 'x) conn_view \<Rightarrow> ('f, 'x) conn_view result) \<Rightarrow> bool" where
  "gentle t cb \<longleftrightarrow> (\<forall>w base. loops (env w) (srv_loop (srv (env w))) = Some base \<and> \<not> isInLoopThread base t \<longrightarrow>
     (\<exists>b base' u fs. cb w = Inr (touched w b base' u) \<and> (buf_inv (m_input_buffer (conn w)) \<longrightarrow> buf_inv b) \<and>
        m_epoller base' = m_epoller base \<and> m_thread_id base' = m_thread_id base \<and>
        m_pending_functors base' = m_pending_functors base @ fs))"

lemma gentleD:
  assumes "gentle t cb" "loops (env w) (srv_loop (srv (env w))) = Some base" "\<not> isInLoopThread base t"
  shows "\<exists>b base' u fs. cb w = Inr (touched w b base' u) \<and> (buf_inv (m_input_buffer (conn w)) \<longrightarrow> buf_inv b) \<and>
     m_epoller base' = m_epoller base \<and> m_thread_id base' = m_thread_id base \<and>
     m_pending_functors base' = m_pending_functors base @ fs"
  using assms unfolding gentle_def by blast

lemma touched_fields [simp]:
  "m_loop (touched w b base u) = m_loop w" "conn (touched w b base u) = (conn w)\<lparr>m_input_buffer := b\<rparr>"
  "wire (touched w b base u) = wire w" "wr_shut (touched w b base u) = wr_shut w"
  "logged (touched w b base u) = logged w"
  "env (touched w b base u) = put_loop (srv_loop (srv (env w))) base ((env w)\<lparr>upper := u\<rparr>)"
  by (simp_all add: touched_def)

text \<open>The stages of a connection of a server, on a loop that is not the base loop.\<close>

definition conn_live :: "('f, 'x) ServerWorld \<Rightarrow> nat \<Rightarrow> ConnObj \<Rightarrow> 'f net_loop \<Rightarrow> chan_cb Channel \<Rightarrow> bool" where
  "conn_live s obj ob l c \<longleftrightarrow> objs s obj = Some ob \<and> loops s (co_loop ob) = Some l \<and> chan_of (view s ob l) c \<and>
     m_fd c = m_conn_fd (co_conn ob) \<and> m_channels (m_epoller l) (m_fd c) = Some (m_channel (co_conn ob)) \<and>
     m_ip_port (co_conn ob) \<noteq> None \<and> co_loop ob \<noteq> srv_loop (srv s)"

lemma established_server:
  assumes "objs s self = Some (new_obj i self conn_fd n chan addr)" "loops s i = Some l" "i \<noteq> srv_loop (srv s)"
    and "reactor_inv (m_epoller l)" "isInLoopThread l t" "chans (m_epoller l) chan = Some (connection_channel conn_fd self)"
    and "m_channels (m_epoller l) conn_fd = None" "gentle t connection_callback"
    and "loops s (srv_loop (srv s)) = Some base" "\<not> isInLoopThread base t"
  shows "\<exists>s' ob l' c base'. run_server_functor connection_callback t (FEstablished self) s = Inr s' \<and>
     conn_live s' self ob l' c \<and> m_state (co_conn ob) = kConnected \<and> m_conn_fd (co_conn ob) = conn_fd \<and> co_loop ob = i \<and>
     isInLoopThread l' t \<and> m_events c = kReadEvent \<and> m_channel (co_conn ob) = chan \<and> srv s' = srv s \<and>
     buf_inv (m_input_buffer (co_conn ob)) \<and>
     closed_fds s' = closed_fds s \<and> loops s' (srv_loop (srv s)) = Some base' \<and> m_thread_id base' = m_thread_id base"
proof -
  let ?ob = "new_obj i self conn_fd n chan addr"
  let ?w = "view s ?ob l"
  have ob: "co_conn ?ob = (TcpConnection_new self conn_fd n chan)\<lparr>m_ip_port := Some (m_ip addr, m_port addr)\<rparr>"
    "co_loop ?ob = i" "co_wire ?ob = []" "\<not> co_shut ?ob" by (simp_all add: new_obj_def)
  have w: "reactor_inv (m_epoller (m_loop ?w))" "isInLoopThread (m_loop ?w) t"
    "conn ?w = (TcpConnection_new self conn_fd n chan)\<lparr>m_ip_port := Some (m_ip addr, m_port addr)\<rparr>"
    "chans (m_epoller (m_loop ?w)) chan = Some (connection_channel conn_fd self)"
    "m_channels (m_epoller (m_loop ?w)) conn_fd = None" "\<not> wr_shut ?w" "wire ?w = []"
    using assms ob by simp_all
  obtain w' c where w': "connectionEstablished connection_callback t ?w = connection_callback w'"
    "m_state (conn w') = kConnected" "env w' = s" "chan_of w' c" "m_events c = kReadEvent" "m_fd c = conn_fd"
    "m_channels (m_epoller (m_loop w')) conn_fd = Some chan"
    "w' = ?w\<lparr>conn := (conn ?w)\<lparr>m_state := kConnected\<rparr>, m_loop := (m_loop ?w)\<lparr>m_epoller := m_epoller (m_loop w')\<rparr>\<rparr>"
    using connectionEstablished_effect [OF w, of connection_callback] by auto
  obtain b base' u fs where cb: "connection_callback w' = Inr (touched w' b base' u)"
    "buf_inv (m_input_buffer (conn w')) \<longrightarrow> buf_inv b" "m_thread_id base' = m_thread_id base"
    using gentleD [OF assms(8), of w' base] assms(9,10) w'(3) by auto
  define w2 where "w2 = touched w' b base' u"
  have c': "conn w' = (co_conn ?ob)\<lparr>m_state := kConnected\<rparr>" "m_thread_id (m_loop w') = m_thread_id l"
    using arg_cong [OF w'(8), of conn] arg_cong [OF w'(8), of "\<lambda>x. m_thread_id (m_loop x)"] by simp_all
  let ?s = "unfocus self i w2"
  have run: "run_server_functor connection_callback t (FEstablished self) s = Inr ?s"
    using assms(1,2) ob(2) w'(1) cb(1) by (simp add: run_server_functor_def on_conn_view w2_def)
  have live: "conn_live ?s self \<lparr>co_conn = conn w2, co_loop = i, co_wire = wire w2, co_shut = wr_shut w2\<rparr> (m_loop w2) c"
    using w'(3,4,6,7) assms(3) ob c' by (simp add: conn_live_def w2_def chan_of_def TcpConnection_new_def)
  have rest: "m_state (conn w2) = kConnected" "m_conn_fd (conn w2) = conn_fd" "m_channel (conn w2) = chan"
    "isInLoopThread (m_loop w2) t" "srv ?s = srv s" "closed_fds ?s = closed_fds s" "buf_inv (m_input_buffer (conn w2))"
    using w'(2,3) c' ob assms(5) cb(2) by (simp_all add: w2_def TcpConnection_new_def isInLoopThread_def buf_inv_default)
  have "loops ?s (srv_loop (srv s)) = Some base'" using assms(3) w'(3) by (simp add: w2_def)
  then show ?thesis using run live rest w'(5) cb(3) by fastforce
qed

lemma closed_by_peer:
  assumes "conn_live s obj ob l c" "open_conn (view s ob l)" "isInLoopThread l t" "buf_inv (m_input_buffer (co_conn ob))"
    and "loops s (srv_loop (srv s)) = Some base" "\<not> isInLoopThread base t"
  shows "\<exists>s' ob' l' c' base'. on_conn (conn_handleRead message_callback (server_close t obj (co_loop ob)) strerror gso t (Inr [])) obj s
       = Inr s' \<and> conn_live s' obj ob' l' c' \<and> m_events c' = 0 \<and> isInLoopThread l' t \<and>
     co_conn ob' = (co_conn ob)\<lparr>m_state := kDisconnected\<rparr> \<and> co_loop ob' = co_loop ob \<and>
     srv s' = srv s \<and> closed_fds s' = closed_fds s \<and> loops s' (srv_loop (srv s)) = Some base' \<and>
     m_thread_id base' = m_thread_id base \<and>
     m_pending_functors base' = m_pending_functors base @ [FRemoveConnection obj]"
proof -
  let ?i = "co_loop ob" and ?b = "srv_loop (srv s)" and ?w = "view s ob l"
  have a: "objs s obj = Some ob" "loops s ?i = Some l" "chan_of ?w c" "?i \<noteq> ?b" "m_ip_port (co_conn ob) \<noteq> None"
    "m_fd c = m_conn_fd (co_conn ob)"
    using assms(1) by (simp_all add: conn_live_def)
  have thr: "isInLoopThread (m_loop ?w) t" using assms(3) by simp
  obtain w1 c1 where w1: "\<forall>cb. handleClose cb t ?w = cb w1" "chan_of w1 c1" "m_events c1 = 0" "m_fd c1 = m_fd c"
    "w1 = ?w\<lparr>conn := (conn ?w)\<lparr>m_state := kDisconnected\<rparr>,
            m_loop := (m_loop ?w)\<lparr>m_epoller := m_epoller (m_loop w1)\<rparr>\<rparr>"
    "m_channels (m_epoller (m_loop w1)) (m_fd c1) = Some (m_channel (conn ?w))"
    using handleClose_calls [OF a(3) assms(2) thr] by blast
  have f: "conn w1 = (co_conn ob)\<lparr>m_state := kDisconnected\<rparr>" "env w1 = s" "m_thread_id (m_loop w1) = m_thread_id l"
    using arg_cong [OF w1(5), of conn] arg_cong [OF w1(5), of env] arg_cong [OF w1(5), of "\<lambda>x. m_thread_id (m_loop x)"]
    by simp_all
  define base' where "base' = queueInLoop base t (FRemoveConnection obj)"
  define s1 where "s1 = put_loop ?b base' (unfocus obj ?i w1)"
  define ob1 where "ob1 = \<lparr>co_conn = conn w1, co_loop = ?i, co_wire = wire w1, co_shut = wr_shut w1\<rparr>"
  have s1: "objs s1 obj = Some ob1" "loops s1 ?i = Some (m_loop w1)" "loops s1 ?b = Some base'" "srv s1 = srv s"
    "closed_fds s1 = closed_fds s"
    using a(4) f(2) by (simp_all add: s1_def ob1_def)
  have cb: "server_close t obj ?i w1 = Inr (view s1 ob1 (m_loop w1))"
    using assms(5,6) a(4) f(2) s1(1,2)
    by (simp add: server_close_def handleRemoveConnection_def s1_def [symmetric] base'_def [symmetric] focus_view ob1_def)
  have "readFd (m_input_buffer (co_conn ob)) 0 (Inr []) = Inr (0, m_input_buffer (co_conn ob))"
    using assms(4) by (simp add: readFd_def overwrite_def buf_inv_def buf_defs Let_def)
  then have "conn_handleRead message_callback (server_close t obj ?i) strerror gso t (Inr []) ?w = Inr (view s1 ob1 (m_loop w1))"
    using thr w1(1) cb by (simp add: conn_handleRead_def view_def)
  then have run: "on_conn (conn_handleRead message_callback (server_close t obj ?i) strerror gso t (Inr [])) obj s =
      Inr (unfocus obj ?i (view s1 ob1 (m_loop w1)))"
    using a(1,2) by (simp add: on_conn_view)
  let ?s = "unfocus obj ?i (view s1 ob1 (m_loop w1))"
  have "conn_live ?s obj ob1 (m_loop w1) c1"
    using a w1(2,4,6) f s1 by (simp add: conn_live_def ob1_def chan_of_def)
  moreover have "isInLoopThread (m_loop w1) t" using f(3) assms(3) by (simp add: isInLoopThread_def)
  moreover have "loops ?s ?b = Some base'" using s1(3) a(4) by simp
  ultimately show ?thesis using run w1(3) f(1) s1(4,5)
    by (intro exI [of _ ?s] exI [of _ ob1] exI [of _ "m_loop w1"] exI [of _ c1] exI [of _ base'])
      (simp add: ob1_def, simp add: base'_def)
qed

lemma removed_in_base:
  assumes "conn_live s obj ob l c" "loops s (srv_loop (srv s)) = Some base" "isInLoopThread base tb"
  shows "\<exists>s' l'. run_server_functor connection_callback tb (FRemoveConnection obj) s = Inr s' \<and>
     conn_live s' obj ob l' c \<and> m_thread_id l' = m_thread_id l \<and>
     m_pending_functors l' = m_pending_functors l @ [FDestructor obj] \<and> closed_fds s' = closed_fds s \<and>
     srv_loop (srv s') = srv_loop (srv s) \<and> loops s' (srv_loop (srv s)) = Some base \<and>
     m_connections (srv s') = (m_connections (srv s))(m_conn_fd (co_conn ob) := None)"
proof -
  let ?i = "co_loop ob"
  have a: "objs s obj = Some ob" "loops s ?i = Some l" "?i \<noteq> srv_loop (srv s)"
    using assms(1) by (simp_all add: conn_live_def)
  obtain ip port where ipp: "m_ip_port (co_conn ob) = Some (ip, port)" using assms(1) by (auto simp: conn_live_def)
  let ?sv = "(srv s)\<lparr>m_connections := (m_connections (srv s))(m_conn_fd (co_conn ob) := None)\<rparr>"
  let ?s = "put_loop ?i (queueInLoop l tb (FDestructor obj)) (srv_log_line (remove_message (ntoa_buf s) port) (s\<lparr>srv := ?sv\<rparr>))"
  have "run_server_functor connection_callback tb (FRemoveConnection obj) s = Inr ?s"
    using a ipp assms(2,3) by (simp add: run_server_functor_def handleRemoveConnectionInLoop_def Let_def)
  moreover have "conn_live ?s obj ob (queueInLoop l tb (FDestructor obj)) c"
    using assms(1) by (auto simp: conn_live_def chan_of_def)
  ultimately show ?thesis
    using a(3) assms(2) by (intro exI [of _ ?s] exI [of _ "queueInLoop l tb (FDestructor obj)"]) simp
qed

lemma destructed_in_loop:
  assumes "conn_live s obj ob l c" "m_state (co_conn ob) = kDisconnected" "isInLoopThread l t" "gentle t connection_callback"
    and "loops s (srv_loop (srv s)) = Some base" "\<not> isInLoopThread base t"
  shows "\<exists>s1 s'. run_server_functor connection_callback t (FDestructor obj) s = Inr s1 \<and>
     TcpConnection_destroy obj s1 = Inr s' \<and> objs s' obj = None \<and> srv s' = srv s \<and>
     closed_fds s' = closed_fds s @ [m_conn_fd (co_conn ob)] \<and>
     (\<exists>l'. loops s' (co_loop ob) = Some l' \<and> reactor_inv (m_epoller l') \<and>
        chans (m_epoller l') (m_channel (co_conn ob)) = None \<and> \<not> referenced (m_epoller l') (m_channel (co_conn ob)))"
proof -
  let ?i = "co_loop ob" and ?w = "view s ob l" and ?p = "m_channel (co_conn ob)"
  have a: "objs s obj = Some ob" "loops s ?i = Some l" "reactor_inv (m_epoller l)" "chans (m_epoller l) ?p = Some c"
    "m_channels (m_epoller l) (m_fd c) = Some ?p"
    using assms(1) by (auto simp: conn_live_def chan_of_def)
  obtain b base' u fs where cb: "connection_callback ?w = Inr (touched ?w b base' u)"
    using gentleD [OF assms(4), of ?w base] assms(5,6) by auto
  obtain r where r: "removeChannel (m_epoller l) ?p = Inr r" "reactor_inv r" "chans r ?p \<noteq> None"
    using removeChannel_effect [OF a(3-5)] by auto
  let ?w1 = "(touched ?w b base' u)\<lparr>m_loop := l\<lparr>m_epoller := r\<rparr>\<rparr>"
  have "connectionDestructor connection_callback t ?w = Inr ?w1"
    using assms(2,3) cb r(1) by (simp add: connectionDestructor_def chan_op_def)
  then have run: "run_server_functor connection_callback t (FDestructor obj) s = Inr (unfocus obj ?i ?w1)"
    using a(1,2) by (simp add: run_server_functor_def on_conn_view)
  obtain c' where "chans r ?p = Some c'" using r(3) by auto
  then obtain r' where r': "Channel_destroy r ?p = Inr r'" "reactor_inv r'" "chans r' ?p = None" "\<not> referenced r' ?p"
    using Channel_destroy_effect [OF r(2)] by blast
  then show ?thesis using run by (simp add: TcpConnection_destroy_def Let_def)
qed

section \<open>Reachable servers\<close>

text \<open>The pool's loops exist and belong to other threads than the base loop's thread \<open>tb\<close>.\<close>

definition workers :: "nat \<Rightarrow> ('f, 'x) ServerWorld \<Rightarrow> bool" where
  "workers tb s \<longleftrightarrow> pool_ready (m_loop_thread_pool (srv s)) \<and>
     (\<forall>i \<in> set (m_loops (m_loop_thread_pool (srv s))). \<exists>l. loops s i = Some l \<and> \<not> isInLoopThread l tb)"

definition fresh_for :: "nat \<Rightarrow> nat \<Rightarrow> ('f, 'x) ServerWorld \<Rightarrow> bool" where
  "fresh_for self chan s \<longleftrightarrow> objs s self = None \<and> (\<forall>i l. loops s i = Some l \<longrightarrow> chans (m_epoller l) chan = None)"

text \<open>The base thread's view of a started server: connections come and are removed.\<close>

inductive srv_reach ::
  "(('f, 'x) conn_view \<Rightarrow> ('f, 'x) conn_view result) \<Rightarrow> nat \<Rightarrow> ('f, 'x) ServerWorld \<Rightarrow> bool" for cb tb where
  started: "srv_inv s \<Longrightarrow> workers tb s \<Longrightarrow> m_connections (srv s) = Map.empty \<Longrightarrow> srv_reach cb tb s"
| accepted: "srv_reach cb tb s \<Longrightarrow> fresh_for self chan s \<Longrightarrow>
     handleNewConnection cb tb self chan conn_fd addr s = Inr s' \<Longrightarrow> srv_reach cb tb s'"
| removed: "srv_reach cb tb s \<Longrightarrow> handleRemoveConnectionInLoop tb obj s = Inr s' \<Longrightarrow> srv_reach cb tb s'"

lemma next_loop_member:
  assumes "pool_ready p"
  shows "m_loops p ! nat (m_next_loop_index p) \<in> set (m_loops p)"
  using assms by (auto simp: pool_ready_def intro!: nth_mem)

lemma next_worker:
  assumes "workers tb s" "i = m_loops (m_loop_thread_pool (srv s)) ! nat (m_next_loop_index (m_loop_thread_pool (srv s)))"
  shows "\<exists>l. loops s i = Some l \<and> \<not> isInLoopThread l tb"
  using assms next_loop_member [of "m_loop_thread_pool (srv s)"] by (simp add: workers_def)

lemma new_connection_inv:
  assumes "srv_inv s" "workers tb s" "fresh_for self chan s"
  shows "\<exists>s'. handleNewConnection cb tb self chan conn_fd addr s = Inr s' \<and> srv_inv s' \<and> workers tb s' \<and>
     m_connections (srv s') = (m_connections (srv s))(conn_fd \<mapsto> self) \<and> backlog s' = backlog s"
proof -
  let ?tp = "m_loop_thread_pool (srv s)"
  define i where "i = m_loops ?tp ! nat (m_next_loop_index ?tp)"
  have ready: "pool_ready ?tp" using assms(2) by (simp add: workers_def)
  obtain l where l: "loops s i = Some l" "\<not> isInLoopThread l tb" using next_worker [OF assms(2) i_def] by blast
  have fresh: "chans (m_epoller l) chan = None" "objs s self = None"
    using assms(3) l(1) by (auto simp: fresh_for_def)
  obtain s' l' where s': "handleNewConnection cb tb self chan conn_fd addr s = Inr s'" "srv_inv s'"
    "pool_ready (m_loop_thread_pool (srv s'))" "m_connections (srv s') = (m_connections (srv s))(conn_fd \<mapsto> self)"
    "loops s' = (loops s)(i \<mapsto> l')" "m_thread_id l' = m_thread_id l" "backlog s' = backlog s"
    using handleNewConnection_queued [OF assms(1) ready i_def l fresh, of cb conn_fd addr] by blast
  have "m_loops (m_loop_thread_pool (srv s')) = m_loops ?tp"
    using s'(1) getNextLoop_ready [OF ready] l
    by (auto simp: handleNewConnection_def server_runInLoop_def Let_def i_def [symmetric] isInLoopThread_def)
  then have "workers tb s'" using assms(2) l s'(3,5,6) by (auto simp: workers_def isInLoopThread_def)
  with s' show ?thesis by blast
qed

lemma remove_keeps:
  assumes "handleRemoveConnectionInLoop tb obj s = Inr s'" "srv_inv s" "workers tb s"
  shows "srv_inv s' \<and> workers tb s'"
proof -
  obtain base ob l port where a: "loops s (srv_loop (srv s)) = Some base" "objs s obj = Some ob"
    "loops s (co_loop ob) = Some l"
    "s' = put_loop (co_loop ob) (queueInLoop l tb (FDestructor obj)) (srv_log_line (remove_message (ntoa_buf s) port)
       (s\<lparr>srv := (srv s)\<lparr>m_connections := (m_connections (srv s))(m_conn_fd (co_conn ob) := None)\<rparr>\<rparr>))"
    using assms(1)
    by (auto simp: handleRemoveConnectionInLoop_def deref_loop_def deref_obj_def res_simps Let_def split: option.splits)
  have "reactor_inv (m_epoller (queueInLoop l tb (FDestructor obj)))" using assms(2) a(3) by (simp add: srv_inv_def)
  then have "srv_inv s'"
    by (intro srv_inv_update [OF assms(2), of s' "co_loop ob" "queueInLoop l tb (FDestructor obj)" "{}"])
      (use assms(2) in \<open>auto simp: a(4) srv_inv_def split: if_splits\<close>)
  moreover have "workers tb s'" using assms(3) a(3) by (auto simp: workers_def a(4) isInLoopThread_def)
  ultimately show ?thesis ..
qed

lemma srv_reach_inv: "srv_reach cb tb s \<Longrightarrow> srv_inv s \<and> workers tb s"
proof (induction rule: srv_reach.induct)
  case (accepted s self chan conn_fd addr s')
  then show ?case using new_connection_inv [of s tb self chan cb conn_fd addr] by auto
next
  case (removed s obj s')
  then show ?case using remove_keeps by blast
qed simp

text \<open>Taking a connection from the backlog touches nothing these speak of.\<close>

lemma taken_keeps:
  "srv_inv ((take_waiting s)\<lparr>ntoa_buf := x\<rparr>) = srv_inv s" "workers tb ((take_waiting s)\<lparr>ntoa_buf := x\<rparr>) = workers tb s"
  "fresh_for self chan ((take_waiting s)\<lparr>ntoa_buf := x\<rparr>) = fresh_for self chan s"
proof -
  have "entry_ok ((take_waiting s)\<lparr>ntoa_buf := x\<rparr>) = entry_ok s"
    by (intro ext) (simp add: entry_ok_def take_waiting_def cong: option.case_cong)
  then show "srv_inv ((take_waiting s)\<lparr>ntoa_buf := x\<rparr>) = srv_inv s" by (simp add: srv_inv_def) (simp add: take_waiting_def)
qed (simp_all add: workers_def fresh_for_def take_waiting_def)

lemma arrival:
  assumes "srv_inv s" "workers tb s" "gentle t (cb t)"
    and "i = m_loops (m_loop_thread_pool (srv s)) ! nat (m_next_loop_index (m_loop_thread_pool (srv s)))"
    and "loops s i = Some l" "isInLoopThread l t" "loops s (srv_loop (srv s)) = Some base" "isInLoopThread base tb"
    and "fresh_for self chan s" "m_channels (m_epoller l) conn_fd = None"
  shows "\<exists>s1 l1 s2 ob2 l2 c2 base2. handleNewConnection (cb tb) tb self chan conn_fd addr s = Inr s1 \<and>
     m_connections (srv s1) conn_fd = Some self \<and> loops s1 i = Some l1 \<and> FEstablished self \<in> set (m_pending_functors l1) \<and>
     run_server_functor (cb t) t (FEstablished self) s1 = Inr s2 \<and> conn_live s2 self ob2 l2 c2 \<and>
     m_state (co_conn ob2) = kConnected \<and> m_conn_fd (co_conn ob2) = conn_fd \<and> co_loop ob2 = i \<and> isInLoopThread l2 t \<and>
     m_channel (co_conn ob2) = chan \<and> srv_loop (srv s2) = srv_loop (srv s) \<and> buf_inv (m_input_buffer (co_conn ob2)) \<and>
     closed_fds s2 = closed_fds s \<and> loops s2 (srv_loop (srv s2)) = Some base2 \<and> m_thread_id base2 = m_thread_id base \<and>
     \<not> isInLoopThread base2 t"
proof -
  have ready: "pool_ready (m_loop_thread_pool (srv s))" using assms(2) by (simp add: workers_def)
  have l: "\<not> isInLoopThread l tb" using next_worker [OF assms(2,4)] assms(5) by auto
  have ib: "i \<noteq> srv_loop (srv s)" "\<not> isInLoopThread base t" using l assms(5-8) by (auto simp: isInLoopThread_def)
  have fresh: "chans (m_epoller l) chan = None" "objs s self = None"
    using assms(5,9) by (auto simp: fresh_for_def)
  obtain s1 l1 where s1: "handleNewConnection (cb tb) tb self chan conn_fd addr s = Inr s1" "srv_inv s1"
    "srv_loop (srv s1) = srv_loop (srv s)" "m_connections (srv s1) = (m_connections (srv s))(conn_fd \<mapsto> self)"
    "loops s1 = (loops s)(i \<mapsto> l1)" "m_thread_id l1 = m_thread_id l"
    "m_epoller l1 = put_chan (m_epoller l) chan (connection_channel conn_fd self)"
    "m_pending_functors l1 = m_pending_functors l @ [FEstablished self]"
    "objs s1 self = Some (new_obj i self conn_fd (m_next_connection_id (srv s)) chan addr)" "closed_fds s1 = closed_fds s"
    using handleNewConnection_queued [OF assms(1) ready assms(4,5) l fresh, of "cb tb" conn_fd addr] by auto
  have l1: "loops s1 i = Some l1" "i \<noteq> srv_loop (srv s1)" "isInLoopThread l1 t"
    "chans (m_epoller l1) chan = Some (connection_channel conn_fd self)" "m_channels (m_epoller l1) conn_fd = None"
    using s1 ib(1) assms(6,10) by (simp_all add: isInLoopThread_def)
  have r1: "reactor_inv (m_epoller l1)" using s1(2) l1(1) unfolding srv_inv_def by blast
  have b1: "loops s1 (srv_loop (srv s1)) = Some base" using s1(3,5) ib(1) assms(7) by simp
  obtain s2 ob2 l2 c2 base2 where s2: "run_server_functor (cb t) t (FEstablished self) s1 = Inr s2" "conn_live s2 self ob2 l2 c2"
    "m_state (co_conn ob2) = kConnected" "m_conn_fd (co_conn ob2) = conn_fd" "co_loop ob2 = i" "isInLoopThread l2 t"
    "m_channel (co_conn ob2) = chan" "srv s2 = srv s1" "buf_inv (m_input_buffer (co_conn ob2))"
    "closed_fds s2 = closed_fds s1" "loops s2 (srv_loop (srv s1)) = Some base2" "m_thread_id base2 = m_thread_id base"
    using established_server [OF s1(9) l1(1,2) r1 l1(3-5) assms(3) b1 ib(2)] by blast
  then show ?thesis using s1 l1 ib
    by (intro exI [of _ s1] exI [of _ l1] exI [of _ s2] exI [of _ ob2] exI [of _ l2] exI [of _ c2] exI [of _ base2])
      (simp add: isInLoopThread_def)
qed

section \<open>Properties\<close>

text \<open>The connection map of a started server.  However connections come and are removed on the
  base thread, every entry of the map is a live connection object with that descriptor on an
  existing loop, every loop's reactor satisfies its invariant, the next connection number is
  between 0 and the largest \<open>int\<close>, and a further connection can always be taken, which puts
  it into the map.\<close>

theorem server_map_invariant:
  assumes "srv_reach cb tb s"
  shows "srv_inv s \<and> (fresh_for self chan s \<longrightarrow>
    (\<exists>s'. handleNewConnection cb tb self chan conn_fd addr s = Inr s' \<and> srv_reach cb tb s' \<and>
       m_connections (srv s') = (m_connections (srv s))(conn_fd \<mapsto> self)))"
proof (intro conjI impI)
  show "srv_inv s" using srv_reach_inv [OF assms] by simp
  assume fresh: "fresh_for self chan s"
  then obtain s' where "handleNewConnection cb tb self chan conn_fd addr s = Inr s'"
    "m_connections (srv s') = (m_connections (srv s))(conn_fd \<mapsto> self)"
    using new_connection_inv [of s tb self chan cb conn_fd addr] srv_reach_inv [OF assms] by blast
  then show "\<exists>s'. handleNewConnection cb tb self chan conn_fd addr s = Inr s' \<and> srv_reach cb tb s' \<and>
       m_connections (srv s') = (m_connections (srv s))(conn_fd \<mapsto> self)"
    using srv_reach.accepted [OF assms fresh] by blast
qed

text \<open>The life of a connection.  A new connection is put into the map and its
  \<open>connectionEstablished\<close> queued in the loop the pool chose; when that has run and the peer
  closes, the removal is queued in the base loop; when that has run the map has no entry for the
  descriptor and \<open>connectionDestructor\<close> is queued in the connection's loop; and when that has
  run and the object is released, the descriptor has been closed once and the channel is freed
  with no reference to it left in epoll or the channel map.  The connection callback may drain
  the input and queue functors in the base loop, as the one of the HTTP server does.\<close>

theorem connection_lifecycle:
  assumes "srv_inv s" "workers tb s" "gentle t (cb t)"
    and "i = m_loops (m_loop_thread_pool (srv s)) ! nat (m_next_loop_index (m_loop_thread_pool (srv s)))"
    and "loops s i = Some l" "isInLoopThread l t" "loops s (srv_loop (srv s)) = Some base" "isInLoopThread base tb"
    and "fresh_for self chan s" "m_channels (m_epoller l) conn_fd = None"
  shows "\<exists>s1 s2 s3 s4 s5 s6 l1 base3 l4 l6.
     handleNewConnection (cb tb) tb self chan conn_fd addr s = Inr s1 \<and> m_connections (srv s1) conn_fd = Some self \<and>
       loops s1 i = Some l1 \<and> FEstablished self \<in> set (m_pending_functors l1) \<and>
     run_server_functor (cb t) t (FEstablished self) s1 = Inr s2 \<and>
     on_conn (conn_handleRead message_callback (server_close t self i) strerror gso t (Inr [])) self s2 = Inr s3 \<and>
       loops s3 (srv_loop (srv s)) = Some base3 \<and> FRemoveConnection self \<in> set (m_pending_functors base3) \<and>
     run_server_functor (cb tb) tb (FRemoveConnection self) s3 = Inr s4 \<and> m_connections (srv s4) conn_fd = None \<and>
       loops s4 i = Some l4 \<and> FDestructor self \<in> set (m_pending_functors l4) \<and>
     run_server_functor (cb t) t (FDestructor self) s4 = Inr s5 \<and>
     TcpConnection_destroy self s5 = Inr s6 \<and> objs s6 self = None \<and> m_connections (srv s6) conn_fd = None \<and>
       closed_fds s6 = closed_fds s @ [conn_fd] \<and> loops s6 i = Some l6 \<and>
       chans (m_epoller l6) chan = None \<and> \<not> referenced (m_epoller l6) chan"
proof -
  obtain s1 l1 s2 ob2 l2 c2 base2 where s1: "handleNewConnection (cb tb) tb self chan conn_fd addr s = Inr s1"
    "m_connections (srv s1) conn_fd = Some self" "loops s1 i = Some l1" "FEstablished self \<in> set (m_pending_functors l1)"
    and s2: "run_server_functor (cb t) t (FEstablished self) s1 = Inr s2" "conn_live s2 self ob2 l2 c2"
    "m_state (co_conn ob2) = kConnected" "m_conn_fd (co_conn ob2) = conn_fd" "co_loop ob2 = i" "isInLoopThread l2 t"
    "m_channel (co_conn ob2) = chan" "srv_loop (srv s2) = srv_loop (srv s)" "buf_inv (m_input_buffer (co_conn ob2))"
    "closed_fds s2 = closed_fds s" "loops s2 (srv_loop (srv s2)) = Some base2" "\<not> isInLoopThread base2 t" "m_thread_id base2 = m_thread_id base"
    using arrival [where cb = cb, OF assms, of addr] by blast
  have op: "open_conn (view s2 ob2 l2)" using s2(3) by (simp add: open_conn_def)
  obtain s3 ob3 l3 c3 base3 where s3: "on_conn (conn_handleRead message_callback (server_close t self i) strerror gso t (Inr [])) self s2
      = Inr s3" "conn_live s3 self ob3 l3 c3" "isInLoopThread l3 t" "co_conn ob3 = (co_conn ob2)\<lparr>m_state := kDisconnected\<rparr>"
    "co_loop ob3 = i" "srv s3 = srv s2" "closed_fds s3 = closed_fds s2" "loops s3 (srv_loop (srv s2)) = Some base3"
    "m_thread_id base3 = m_thread_id base2" "m_pending_functors base3 = m_pending_functors base2 @ [FRemoveConnection self]"
    using closed_by_peer [OF s2(2) op s2(6,9,11,12), of message_callback strerror gso] s2(5) by auto
  have base3: "loops s3 (srv_loop (srv s3)) = Some base3" "isInLoopThread base3 tb"
    using s2(13) s3(6,8,9) assms(8) by (simp_all add: isInLoopThread_def)
  obtain s4 l4 where s4: "run_server_functor (cb tb) tb (FRemoveConnection self) s3 = Inr s4" "conn_live s4 self ob3 l4 c3"
    "m_thread_id l4 = m_thread_id l3" "m_pending_functors l4 = m_pending_functors l3 @ [FDestructor self]"
    "closed_fds s4 = closed_fds s3" "srv_loop (srv s4) = srv_loop (srv s3)"
    "loops s4 (srv_loop (srv s4)) = Some base3" "m_connections (srv s4) = (m_connections (srv s3))(conn_fd := None)"
    using removed_in_base [OF s3(2) base3, of "cb tb"] s3(4) s2(4) by auto
  have l4: "m_state (co_conn ob3) = kDisconnected" "isInLoopThread l4 t" "loops s4 i = Some l4"
    using s3(3-5) s4(2,3) by (auto simp: isInLoopThread_def conn_live_def)
  have nb: "\<not> isInLoopThread base3 t" using s3(9) s2(12) by (simp add: isInLoopThread_def)
  obtain s5 s6 where s6: "run_server_functor (cb t) t (FDestructor self) s4 = Inr s5" "TcpConnection_destroy self s5 = Inr s6"
    "objs s6 self = None" "srv s6 = srv s4" "closed_fds s6 = closed_fds s4 @ [conn_fd]"
    "\<exists>l'. loops s6 i = Some l' \<and> chans (m_epoller l') chan = None \<and> \<not> referenced (m_epoller l') chan"
    using destructed_in_loop [OF s4(2) l4(1,2) assms(3) s4(7) nb] s3(4,5) s2(4,7) by auto
  then obtain l6 where l6: "loops s6 i = Some l6" "chans (m_epoller l6) chan = None" "\<not> referenced (m_epoller l6) chan"
    by blast
  show ?thesis
    by (rule exI [of _ s1], rule exI [of _ s2], rule exI [of _ s3], rule exI [of _ s4], rule exI [of _ s5],
        rule exI [of _ s6], rule exI [of _ l1], rule exI [of _ base3], rule exI [of _ l4], rule exI [of _ l6])
      (use s1 s2 s3 s4 s6 l4 l6 in simp)
qed

text \<open>C35: One event accepts one connection.  With connections waiting, a successful
  \<open>accept4\<close> registers exactly the first of them and leaves the others waiting, although the
  listening channel asks for edge-triggered events; when the process is out of descriptors the
  first waiting connection is accepted on the reserved descriptor and closed at once, and the
  reserve is reopened; after any other error nothing has changed.\<close>

theorem accept_outcomes:
  assumes "srv_reach cb tb s" "backlog s = peer # rest" "fresh_for self chan s"
  defines "accept \<equiv> handleConnect (handleNewConnection cb tb self chan) True True"
  shows "\<exists>s1 s2. accept (Inr conn_fd) acc2 null_fd s = Inr s1 \<and> backlog s1 = rest \<and>
       m_connections (srv s1) = (m_connections (srv s))(conn_fd \<mapsto> self) \<and> srv_inv s1 \<and>
     accept (Inl EMFILE) (Inr fd2) null_fd s = Inr s2 \<and> backlog s2 = rest \<and>
       m_connections (srv s2) = m_connections (srv s) \<and> m_idle_fd (m_acceptor (srv s2)) = null_fd \<and>
       closed_fds s2 = closed_fds s @ [m_idle_fd (m_acceptor (srv s)), fd2] \<and>
     (e \<noteq> EMFILE \<longrightarrow> accept (Inl e) acc2 null_fd s = Inr s) \<and>
     m_events (accept_channel lfd) AND EPOLLET \<noteq> 0"
proof -
  let ?s = "(take_waiting s)\<lparr>ntoa_buf := m_ip peer\<rparr>"
  have "srv_inv ?s" "workers tb ?s" "fresh_for self chan ?s"
    using srv_reach_inv [OF assms(1)] assms(3) by (simp_all add: taken_keeps)
  then obtain s1 where s1: "handleNewConnection cb tb self chan conn_fd peer ?s = Inr s1" "srv_inv s1"
    "m_connections (srv s1) = (m_connections (srv ?s))(conn_fd \<mapsto> self)" "backlog s1 = backlog ?s"
    using new_connection_inv by blast
  then have "accept (Inr conn_fd) acc2 null_fd s = Inr s1" "backlog s1 = rest"
    "m_connections (srv s1) = (m_connections (srv s))(conn_fd \<mapsto> self)"
    using assms(2) by (simp_all add: accept_def handleConnect_def setKeepAlive_def setTcpNoDelay_def take_waiting_def)
  moreover have "m_events (accept_channel lfd) AND EPOLLET \<noteq> 0"
    by (simp add: accept_channel_def setEvents_def epoll_flags)
  ultimately show ?thesis using s1(2) assms(2)
    by (auto simp: accept_def handleConnect_def close_idle_def set_idle_def take_waiting_def Let_def)
qed

text \<open>A server with one pool thread: base loop 0 of thread 1, pool loop 1 of thread 2.\<close>

definition idle_loop :: "nat \<Rightarrow> unit net_loop" where
  "idle_loop tid = \<lparr>m_looping = True, m_thread_id = tid, m_epoller = Reactor_new, m_wakeup_fd = 5,
     m_wakeup_channel = 100, m_calling_pending_functors = False, m_active_channels = [],
     m_pending_functors = [], wakeup_writes = 0\<rparr>"

definition sample_server :: "(unit, unit) ServerWorld" where
  "sample_server = \<lparr>srv = (TcpServer_new 0 \<lparr>m_listen_fd = 3, m_idle_fd = 4,
         m_address = \<lparr>m_ip = ''0.0.0.0'', m_port = 9090\<rparr>, m_accept_channel = 200\<rparr> \<lparr>m_ip = ''0.0.0.0'', m_port = 9090\<rparr>)
       \<lparr>m_loop_thread_pool := \<lparr>m_base_loop = 0, m_thread_num = 1, m_next_loop_index = 0, m_loops = [1], m_threads = 1\<rparr>\<rparr>,
     loops = [0 \<mapsto> idle_loop 1, 1 \<mapsto> idle_loop 2], objs = Map.empty,
     backlog = [\<lparr>m_ip = ''10.0.0.1'', m_port = 1234\<rparr>, \<lparr>m_ip = ''10.0.0.2'', m_port = 1235\<rparr>],
     ntoa_buf = [], closed_fds = [], srv_log = [], upper = ()\<rparr>"

lemma sample_server_facts:
  "srv_inv sample_server" "workers 1 sample_server" "fresh_for 50 60 sample_server"
  "m_connections (srv sample_server) = Map.empty" "closed_fds sample_server = []"
  by (auto simp: sample_server_def srv_inv_def TcpServer_new_def int_max_def idle_loop_def reactor_inv_new
      workers_def pool_ready_def isInLoopThread_def fresh_for_def Reactor_new_def [THEN arg_cong, of chans] split: if_splits)

lemma sample_server_reach: "srv_reach Inr 1 sample_server"
  by (rule srv_reach.started [OF sample_server_facts(1,2,4)])

lemma gentle_Inr: "gentle t Inr"
  unfolding gentle_def
proof (intro allI impI, elim conjE)
  fix w :: "('a, 'b) conn_view" and base assume "loops (env w) (srv_loop (srv (env w))) = Some base"
  then have "w = touched w (m_input_buffer (conn w)) base (upper (env w))"
    by (simp add: touched_def put_loop_def fun_upd_idem)
  then show "\<exists>b base' u fs. Inr w = Inr (touched w b base' u) \<and> (buf_inv (m_input_buffer (conn w)) \<longrightarrow> buf_inv b) \<and>
      m_epoller base' = m_epoller base \<and> m_thread_id base' = m_thread_id base \<and>
      m_pending_functors base' = m_pending_functors base @ fs"
    by (intro exI [of _ "m_input_buffer (conn w)"] exI [of _ base] exI [of _ "upper (env w)"] exI [of _ "[]"]) simp
qed

theorem server_map_invariant_witness:
  "\<exists>s'. handleNewConnection Inr 1 50 60 8 \<lparr>m_ip = ''10.0.0.1'', m_port = 1234\<rparr> sample_server = Inr s' \<and> srv_inv s' \<and>
     m_connections (srv s') = [8 \<mapsto> 50]"
  using server_map_invariant [OF sample_server_reach, of 50 60 8 "\<lparr>m_ip = ''10.0.0.1'', m_port = 1234\<rparr>"]
    sample_server_facts srv_reach_inv by fastforce

theorem connection_lifecycle_witness:
  "\<exists>s1 s2 s3 s4 s5 s6.
     handleNewConnection Inr 1 50 60 8 \<lparr>m_ip = ''10.0.0.1'', m_port = 1234\<rparr> sample_server = Inr s1 \<and>
     run_server_functor Inr 2 (FEstablished 50) s1 = Inr s2 \<and>
     on_conn (conn_handleRead Inr (server_close 2 50 1) (\<lambda>_. []) (Inr 0) 2 (Inr [])) 50 s2 = Inr s3 \<and>
     run_server_functor Inr 1 (FRemoveConnection 50) s3 = Inr s4 \<and>
     run_server_functor Inr 2 (FDestructor 50) s4 = Inr s5 \<and> TcpConnection_destroy 50 s5 = Inr s6 \<and>
     m_connections (srv s6) 8 = None \<and> closed_fds s6 = [8]"
proof -
  have "1 = m_loops (m_loop_thread_pool (srv sample_server)) ! nat (m_next_loop_index (m_loop_thread_pool (srv sample_server)))"
    "loops sample_server 1 = Some (idle_loop 2)" "isInLoopThread (idle_loop 2) 2"
    "loops sample_server (srv_loop (srv sample_server)) = Some (idle_loop 1)" "isInLoopThread (idle_loop 1) 1"
    "m_channels (m_epoller (idle_loop 2)) 8 = None"
    by (simp_all add: sample_server_def TcpServer_new_def isInLoopThread_def idle_loop_def Reactor_new_def)
  note a = this
  from connection_lifecycle [where cb = "\<lambda>_. Inr", OF sample_server_facts(1,2) gentle_Inr [where t = 2] a(1-5) sample_server_facts(3) a(6),
      of "\<lparr>m_ip = ''10.0.0.1'', m_port = 1234\<rparr>" Inr "\<lambda>_. []" "Inr 0"]
  show ?thesis using sample_server_facts(5) by auto
qed

theorem accept_outcomes_witness:
  "\<exists>s1. handleConnect (handleNewConnection Inr 1 50 60) True True (Inr 8) (Inr 9) 4 sample_server = Inr s1 \<and>
     backlog s1 = [\<lparr>m_ip = ''10.0.0.2'', m_port = 1235\<rparr>] \<and> m_connections (srv s1) 8 = Some 50"
  using accept_outcomes [OF sample_server_reach, of "\<lparr>m_ip = ''10.0.0.1'', m_port = 1234\<rparr>"
      "[\<lparr>m_ip = ''10.0.0.2'', m_port = 1235\<rparr>]" 50 60 8 "Inr 9" 4 9 EAGAIN 3] sample_server_facts(3)
  by (auto simp: sample_server_def)

end
