(* ===== verification/HttpResponses.thy ===== *)
theory HttpResponses
  imports HttpParser
begin

text \<open>
  The response value and its serialisation, \<open>Http/httpresponse.h\<close>,
  \<open>Http/httpresponse.cpp\<close> and the status codes of \<open>Http/httpstate.h\<close>.  The bytes are
  related to what a client that splits head and body at the first empty line reads back.
\<close>

section \<open>The response\<close>

datatype HttpStatusCode = k100Continue | k200OK | k400BadRequest | k403Forbidden | k404NotFound
  | k500InternalServerErrno

fun status_int :: "HttpStatusCode \<Rightarrow> int" where
  "status_int k100Continue = 100"
| "status_int k200OK = 200"
| "status_int k400BadRequest = 400"
| "status_int k403Forbidden = 403"
| "status_int k404NotFound = 404"
| "status_int k500InternalServerErrno = 500"

record HttpResponse =
  m_status_code :: HttpStatusCode
  m_status_message :: string
  m_body :: string
  m_type :: string
  m_close_connection :: bool

definition m_server_name :: string where "m_server_name = ''Ymirth server''"

definition HttpResponse_new :: "bool \<Rightarrow> HttpResponse" where
  "HttpResponse_new close = \<lparr>m_status_code = k200OK, m_status_message = '''', m_body = '''',
     m_type = ''text/html'', m_close_connection = close\<rparr>"

definition setStatusCode :: "HttpStatusCode \<Rightarrow> HttpResponse \<Rightarrow> HttpResponse" where
  "setStatusCode code r = r\<lparr>m_status_code := code\<rparr>"

definition setStatusMessage :: "string \<Rightarrow> HttpResponse \<Rightarrow> HttpResponse" where
  "setStatusMessage msg r = r\<lparr>m_status_message := msg\<rparr>"

definition setCloseConnection :: "bool \<Rightarrow> HttpResponse \<Rightarrow> HttpResponse" where
  "setCloseConnection on r = r\<lparr>m_close_connection := on\<rparr>"

definition setContentType :: "string \<Rightarrow> HttpResponse \<Rightarrow> HttpResponse" where
  "setContentType ty r = r\<lparr>m_type := ty\<rparr>"

definition setBody :: "string \<Rightarrow> HttpResponse \<Rightarrow> HttpResponse" where
  "setBody body r = r\<lparr>m_body := body\<rparr>"

definition closeConnection :: "HttpResponse \<Rightarrow> bool" where
  "closeConnection r = m_close_connection r"

definition appendToBuffer :: "HttpResponse \<Rightarrow> Buffer \<Rightarrow> Buffer result" where
  "appendToBuffer r buffer =
     (let code = status_int (m_status_code r) in
      res_bind (append_string buffer
        (''HTTP/1.1 '' @ int_dec code @ '' '' @ m_status_message r @ kCRLF)) (\<lambda>b1.
      res_bind
        (if m_close_connection r then append_string b1 (''Connection: close'' @ kCRLF)
         else res_bind (append_string b1
                (''Content-length: '' @ int_dec (int (length (m_body r))) @ kCRLF))
                (\<lambda>b. append_string b (''Connection: Keep-Alive'' @ kCRLF))) (\<lambda>b2.
      res_bind (append_string b2 (''Content-type: '' @ m_type r @ kCRLF)) (\<lambda>b3.
      res_bind (append_string b3 (''Server: '' @ m_server_name @ kCRLF)) (\<lambda>b4.
      res_bind (append_string b4 kCRLF) (\<lambda>b5.
      append_string b5 (m_body r)))))))"

section \<open>Specification\<close>

definition head_lines :: "HttpResponse \<Rightarrow> string list" where
  "head_lines r =
     [''HTTP/1.1 '' @ int_dec (status_int (m_status_code r)) @ '' '' @ m_status_message r] @
     (if m_close_connection r then [''Connection: close'']
      else [''Content-length: '' @ nat_dec (length (m_body r)), ''Connection: Keep-Alive'']) @
     [''Content-type: '' @ m_type r, ''Server: '' @ m_server_name]"

definition response_text :: "HttpResponse \<Rightarrow> string" where
  "response_text r = unlines_crlf (head_lines r) @ kCRLF @ m_body r"

text \<open>How a client reads a message: lines up to the first empty one, then the body.\<close>

function read_message :: "string \<Rightarrow> (string list \<times> string) option" where
  "read_message xs =
     (case search_crlf xs of
        None \<Rightarrow> None
      | Some i \<Rightarrow>
          if i = 0 then Some ([], drop 2 xs)
          else map_option (\<lambda>(ls, body). (take i xs # ls, body)) (read_message (drop (i + 2) xs)))"
  by pat_completeness auto
termination
  by (relation "measure length") (auto dest: search_crlf_length)

declare read_message.simps [simp del]

section \<open>Lemmas\<close>

lemma read_message_empty: "read_message (kCRLF @ body) = Some ([], body)"
  using search_crlf_line [of "[]" body] by (subst read_message.simps) (simp add: kCRLF_def)

lemma read_message_line:
  assumes "search_crlf l = None" "l \<noteq> []" "read_message xs = Some (ls, body)"
  shows "read_message (l @ kCRLF @ xs) = Some (l # ls, body)"
proof -
  have "drop (length l + 2) (l @ kCRLF @ xs) = xs"
    by (simp add: kCRLF_def)
  then show ?thesis
    using assms by (subst read_message.simps) (simp add: search_crlf_line)
qed

lemma read_message_lines:
  "list_all (\<lambda>l. search_crlf l = None \<and> l \<noteq> []) ls \<Longrightarrow>
     read_message (unlines_crlf ls @ kCRLF @ body) = Some (ls, body)"
proof (induction ls)
  case Nil
  then show ?case by (simp add: unlines_crlf_def read_message_empty)
next
  case (Cons l ls)
  then show ?case
    using read_message_line [of l "unlines_crlf ls @ kCRLF @ body"] by (simp add: unlines_crlf_def)
qed

lemma head_lines_crlf_free:
  assumes "CHR 0x0A \<notin> set (m_status_message r)" "CHR 0x0A \<notin> set (m_type r)"
  shows "list_all (\<lambda>l. search_crlf l = None \<and> l \<noteq> []) (head_lines r)"
proof -
  have "CHR 0x0A \<notin> set (nat_dec n)" for n
    by (rule nat_dec_notin) simp
  then have "CHR 0x0A \<notin> set (int_dec i)" for i
    by (simp add: int_dec_def)
  then have "\<forall>l \<in> set (head_lines r). CHR 0x0A \<notin> set l \<and> l \<noteq> []"
    using assms \<open>\<And>n. CHR 0x0A \<notin> set (nat_dec n)\<close>
    by (auto simp: head_lines_def m_server_name_def)
  then show ?thesis
    by (auto simp: list_all_iff intro: no_LF_no_crlf)
qed

lemma append_string_front:
  "front_inv b \<Longrightarrow> \<exists>b'. append_string b d = Inr b' \<and> front_inv b' \<and> readable b' = readable b @ d"
  unfolding append_string_def by (rule fq.put_total)

lemma append_string_chain:
  assumes "front_inv b"
    and "\<And>b'. front_inv b' \<Longrightarrow> readable b' = readable b @ d \<Longrightarrow>
      \<exists>c. k b' = Inr c \<and> front_inv c \<and> readable c = readable b' @ e"
  shows "\<exists>c. res_bind (append_string b d) k = Inr c \<and> front_inv c \<and> readable c = readable b @ d @ e"
  using append_string_front [OF assms(1), of d] assms(2) by fastforce

lemma appendToBuffer_front:
  assumes "front_inv b"
  shows "\<exists>b'. appendToBuffer r b = Inr b' \<and> front_inv b' \<and> readable b' = readable b @ response_text r"
proof -
  have tail: "\<exists>c. res_bind (append_string b2 (''Content-type: '' @ m_type r @ kCRLF)) (\<lambda>b3.
      res_bind (append_string b3 (''Server: '' @ m_server_name @ kCRLF)) (\<lambda>b4.
      res_bind (append_string b4 kCRLF) (\<lambda>b5. append_string b5 (m_body r)))) = Inr c \<and>
      front_inv c \<and> readable c = readable b2 @ (''Content-type: '' @ m_type r @ kCRLF) @
        (''Server: '' @ m_server_name @ kCRLF) @ kCRLF @ m_body r" if "front_inv b2" for b2
    by (intro append_string_chain append_string_front that)
  let ?S = "''HTTP/1.1 '' @ int_dec (status_int (m_status_code r)) @ '' '' @ m_status_message r @ kCRLF"
  let ?T = "(''Content-type: '' @ m_type r @ kCRLF) @ (''Server: '' @ m_server_name @ kCRLF) @ kCRLF @ m_body r"
  let ?L = "''Content-length: '' @ int_dec (int (length (m_body r))) @ kCRLF"
  have bytes: "m_close_connection r \<Longrightarrow> response_text r = ?S @ (''Connection: close'' @ kCRLF) @ ?T"
    "\<not> m_close_connection r \<Longrightarrow>
       response_text r = ?S @ ?L @ (''Connection: Keep-Alive'' @ kCRLF) @ ?T"
    by (simp_all add: response_text_def head_lines_def unlines_crlf_def int_dec_def)
  show ?thesis
  proof (cases "m_close_connection r")
    case True
    then show ?thesis
      unfolding appendToBuffer_def Let_def bytes(1) [OF True] if_P [OF True]
      by (intro append_string_chain tail assms)
  next
    case False
    then show ?thesis
      unfolding appendToBuffer_def Let_def bytes(2) [OF False] if_not_P [OF False] res_bind_assoc
      by (intro append_string_chain tail assms)
  qed
qed

section \<open>Properties\<close>

text \<open>C29: serialising a response into a fresh or drained buffer never faults and queues exactly
  the status line, the header lines, the empty line and the body; a client that reads lines up
  to the first empty one gets those lines and the whole body back, whatever the body contains,
  and on a connection that stays open the announced content length is the body's length.\<close>

theorem response_readback:
  assumes "front_inv b" and "readable b = []"
    and "CHR 0x0A \<notin> set (m_status_message r)" and "CHR 0x0A \<notin> set (m_type r)"
  shows "\<exists>b'. appendToBuffer r b = Inr b' \<and>
     read_message (readable b') = Some (head_lines r, m_body r) \<and>
     (\<not> m_close_connection r \<longrightarrow>
        (\<exists>n. ''Content-length: '' @ n \<in> set (head_lines r) \<and> dec_nat n = length (m_body r)))"
proof -
  obtain b' where b': "appendToBuffer r b = Inr b'" "readable b' = response_text r"
    using appendToBuffer_front [OF assms(1), of r] assms(2) by auto
  have "read_message (response_text r) = Some (head_lines r, m_body r)"
    unfolding response_text_def by (rule read_message_lines [OF head_lines_crlf_free [OF assms(3,4)]])
  moreover have "\<not> m_close_connection r \<longrightarrow>
      (\<exists>n. ''Content-length: '' @ n \<in> set (head_lines r) \<and> dec_nat n = length (m_body r))"
    using dec_nat_nat_dec by (auto simp: head_lines_def intro!: exI [of _ "nat_dec (length (m_body r))"])
  ultimately show ?thesis
    using b' by auto
qed

theorem response_readback_witness:
  "\<exists>b'. appendToBuffer (setBody ''Hello'' (HttpResponse_new False)) Buffer_default = Inr b' \<and>
     read_message (readable b') =
       Some ([''HTTP/1.1 200 '', ''Content-length: 5'', ''Connection: Keep-Alive'',
              ''Content-type: text/html'', ''Server: Ymirth server''], ''Hello'')"
proof -
  have h: "head_lines (setBody ''Hello'' (HttpResponse_new False)) =
      [''HTTP/1.1 200 '', ''Content-length: 5'', ''Connection: Keep-Alive'',
       ''Content-type: text/html'', ''Server: Ymirth server'']"
    by code_simp
  show ?thesis
    using response_readback [OF front_inv_default readable_default,
        of "setBody ''Hello'' (HttpResponse_new False)"] h
    by (auto simp: setBody_def HttpResponse_new_def)
qed

end
