(* ===== verification/HttpServers.thy ===== *)
theory HttpServers
  imports TcpConnections HttpResponses
begin

text \<open>
  The HTTP server, \<open>Http/httpserver.h\<close> and \<open>Http/httpserver.cpp\<close>, and the response callback
  of \<open>main.cpp\<close>.  The server's own state, behind a connection, is the base loop with its
  timer queue; a connection lives in a loop of the pool, which the program never leaves empty.
  An idle timer's callback is the connection it was bound to.  The log level is \<open>INFO\<close>, so the
  \<open>LOG_DEBUG\<close> statements write nothing.
\<close>

section \<open>State\<close>

definition kIdleConnectionTimeOuts :: rat where "kIdleConnectionTimeOuts = 8"

text \<open>The callbacks of the timers of the base loop: \<open>timerEvent\<close> of \<open>main.cpp\<close> and the idle test of a connection.\<close>

datatype timer_cb = TimerEvent | IdleConnection nat

record 'f HttpEnv =
  base_loop :: "'f net_loop"
  base_timer :: "timer_cb RBTreeTimer"
  m_auto_close_idle_connection :: bool

type_synonym 'f http_world = "('f, 'f HttpEnv) ConnWorld"

text \<open>The environment of the calls: clock readings, kernel time, and the results of system calls.\<close>

record call_env =
  ce_tid :: nat
  ce_now :: Timestamp
  ce_write :: "errno + nat"
  ce_shutdown :: "errno option"
  ce_strerror :: "int \<Rightarrow> string"

section \<open>Response callbacks\<close>

definition defaultHttpCallback :: "HttpRequest \<Rightarrow> HttpResponse \<Rightarrow> HttpResponse" where
  "defaultHttpCallback request response =
     setCloseConnection True (setStatusMessage ''Not Found'' (setStatusCode k404NotFound response))"

text \<open>\<open>resCallback\<close> of \<open>main.cpp\<close>; the page and the icon are data of \<open>httpresponsefile.h\<close>.\<close>

definition resCallback :: "string \<Rightarrow> string \<Rightarrow> HttpRequest \<Rightarrow> HttpResponse \<Rightarrow> HttpResponse" where
  "resCallback website favicon request response =
     (if m_method request \<noteq> kGet then
        setCloseConnection True (setStatusMessage ''Bad Request'' (setStatusCode k400BadRequest response))
      else if m_path request = ''/'' then
        setBody website (setContentType ''text/html'' (setStatusMessage ''OK'' (setStatusCode k200OK response)))
      else if m_path request = ''/hello'' then
        setBody (''Hello, world!'' @ [CHR 0x0A])
          (setContentType ''text/html'' (setStatusMessage ''OK'' (setStatusCode k200OK response)))
      else if m_path request = ''/favicon.ico'' \<or> m_path request = ''/favicon'' then
        setBody favicon (setContentType ''image/png'' (setStatusMessage ''OK'' (setStatusCode k200OK response)))
      else setCloseConnection True (setStatusMessage ''Not Found'' (setStatusCode k404NotFound response)))"

section \<open>Handlers\<close>

text \<open>
  \<open>handleRequest\<close>.  A missing header is a reference to a destroyed string: \<open>junk\<close> is what
  the two comparisons find there.
\<close>

definition read_header :: "string \<Rightarrow> HttpRequest \<Rightarrow> string \<Rightarrow> string" where
  "read_header junk request field = (case header request field of Some v \<Rightarrow> v | None \<Rightarrow> junk)"

definition wants_close :: "string \<times> string \<Rightarrow> HttpRequest \<Rightarrow> bool" where
  "wants_close junk request =
     (let close = (read_header (fst junk) request ''Connection'' = ''close'')
      in if m_version request = kHttp11 then read_header (snd junk) request ''Connection'' \<noteq> ''Keep-Alive''
         else close)"

definition handleRequest ::
  "(HttpRequest \<Rightarrow> HttpResponse \<Rightarrow> HttpResponse) \<Rightarrow> string \<times> string \<Rightarrow> call_env \<Rightarrow> HttpRequest \<Rightarrow>
   'f http_world \<Rightarrow> 'f http_world result" where
  "handleRequest response_callback junk e request w =
     (let response = response_callback request (HttpResponse_new (wants_close junk request)) in
      res_bind (appendToBuffer response Buffer_default) (\<lambda>buf.
        res_bind (send_buffer (ce_tid e) (ce_write e) 0 buf w) (\<lambda>(_, w1).
          if closeConnection response then shutDown (ce_strerror e) (ce_tid e) (ce_shutdown e) w1
          else Inr w1)))"

definition set_input :: "Buffer \<Rightarrow> 'f http_world \<Rightarrow> 'f http_world" where
  "set_input b w = w\<lparr>conn := (conn w)\<lparr>m_input_buffer := b\<rparr>\<rparr>"

definition bad_request_text :: string where
  "bad_request_text = ''HTTP/1.1 400 Bad Request'' @ kCRLF @ kCRLF"

definition parse_error_message :: "TcpConnection \<Rightarrow> string" where
  "parse_error_message c = ''parse error for connection '' @ int_dec (m_conn_id c) @ '' close connection''"

definition onMessage ::
  "(HttpRequest \<Rightarrow> HttpResponse \<Rightarrow> HttpResponse) \<Rightarrow> string \<times> string \<Rightarrow> call_env \<Rightarrow>
   'f http_world \<Rightarrow> 'f http_world result" where
  "onMessage response_callback junk e w =
     (let w1 = (if m_auto_close_idle_connection (env w)
                then w\<lparr>conn := updateLastReceiveTime (ce_now e) (conn w)\<rparr> else w) in
      res_bind (parseContent (m_parser (conn w1)) (m_input_buffer (conn w1))) (\<lambda>(parser_state, p, b).
        let w2 = set_input (retrieveAll b) (w1\<lparr>conn := (conn w1)\<lparr>m_parser := p\<rparr>\<rparr>) in
        if parser_state = kParseErrno then
          res_bind (send_string (ce_tid e) (ce_write e) 0 bad_request_text
              (log_line (parse_error_message (conn w2)) w2))
            (shutDown (ce_strerror e) (ce_tid e) (ce_shutdown e))
        else if parser_state = kParseGotCompleteRequest then
          handleRequest response_callback junk e (getRequest p) w2
        else Inr w2))"

text \<open>
  \<open>onConnection\<close> runs in the connection's loop; the idle timer is queued in the base loop.
  \<open>k\<close> is the kernel's time when the timer is set at once.
\<close>

definition base_runAfter ::
  "(timer_cb Timer \<Rightarrow> 'f loop_task) \<Rightarrow> nat \<Rightarrow> Timestamp \<Rightarrow> Timestamp \<Rightarrow> int \<Rightarrow> nat \<Rightarrow> 'f HttpEnv \<Rightarrow> 'f HttpEnv result" where
  "base_runAfter mk tid now now' k obj s =
     res_bind (runAfter mk tid now now' k kIdleConnectionTimeOuts (IdleConnection obj) (base_loop s, base_timer s))
       (\<lambda>(l, rb). Inr (s\<lparr>base_loop := l, base_timer := rb\<rparr>))"

definition onConnection ::
  "(timer_cb Timer \<Rightarrow> 'f loop_task) \<Rightarrow> nat \<Rightarrow> Timestamp \<Rightarrow> Timestamp \<Rightarrow> int \<Rightarrow> 'f http_world \<Rightarrow> 'f http_world result" where
  "onConnection mk tid now now' k w =
     (if isConnected (conn w) then
        res_bind (if m_auto_close_idle_connection (env w)
                  then base_runAfter mk tid now now' k (m_self (conn w)) (env w) else Inr (env w))
          (\<lambda>s. Inr (set_input (retrieveAll (m_input_buffer (conn w))) (w\<lparr>env := s\<rparr>)))
      else Inr (set_input (retrieveAll (m_input_buffer (conn w))) w))"

text \<open>
  \<open>handleIdleConnection\<close>, on the base loop's thread; \<open>locked\<close> says whether the weak pointer
  could be locked, \<open>now\<close> is the reading the decision uses.
\<close>

definition idle_message :: "TcpConnection \<Rightarrow> string" where
  "idle_message c = ''Connection : '' @ int_dec (m_conn_id c) @ '' is Idle For a Long Time : 8s''"

definition handleIdleConnection ::
  "(timer_cb Timer \<Rightarrow> 'f loop_task) \<Rightarrow> call_env \<Rightarrow> Timestamp \<Rightarrow> Timestamp \<Rightarrow> Timestamp \<Rightarrow> int \<Rightarrow> bool \<Rightarrow>
   'f http_world \<Rightarrow> 'f http_world result" where
  "handleIdleConnection mk e now now1 now2 k locked w =
     (if locked then
        if ts_less (addTime (m_last_receive_time (conn w)) kIdleConnectionTimeOuts) now then
          shutDown (ce_strerror e) (ce_tid e) (ce_shutdown e)
            (log_line (idle_message (conn w)) w)
        else res_bind (base_runAfter mk (ce_tid e) now1 now2 k (m_self (conn w)) (env w))
               (\<lambda>s. Inr (w\<lparr>env := s\<rparr>))
      else Inr w)"

section \<open>Sending a reply\<close>

text \<open>An open connection on its loop's thread, and a \<open>write\<close> that takes part of \<open>d\<close>.\<close>

definition serving :: "call_env \<Rightarrow> ('f, 'x) ConnWorld \<Rightarrow> bool" where
  "serving e w \<longleftrightarrow> pipe_inv (ce_tid e) w \<and> m_state (conn w) = kConnected \<and> ce_shutdown e = None"

definition reply_fits :: "call_env \<Rightarrow> ('f, 'x) ConnWorld \<Rightarrow> char list \<Rightarrow> bool" where
  "reply_fits e w d \<longleftrightarrow> write_ok (length d) (ce_write e) \<and>
     (outq w \<noteq> [] \<longrightarrow> \<not> compacts (m_output_buffer (conn w)) (int (length d)))"

lemma pipe_inv_cong:
  fixes w :: "('f, 'x) ConnWorld" and w' :: "('f, 'y) ConnWorld"
  shows "m_loop w' = m_loop w \<Longrightarrow> m_channel (conn w') = m_channel (conn w) \<Longrightarrow>
   m_output_buffer (conn w') = m_output_buffer (conn w) \<Longrightarrow> m_state (conn w') = m_state (conn w) \<Longrightarrow>
   wr_shut w' = wr_shut w \<Longrightarrow> pipe_inv tid w' \<longleftrightarrow> pipe_inv tid w"
  by (simp add: pipe_inv_def flow_inv_def outq_def chan_of_def)

lemma send_reply:
  assumes "serving e w" "reply_fits e w d"
  shows "\<exists>w'. sendInLoop (ce_tid e) (ce_write e) d w = Inr w' \<and> serving e w' \<and>
     wire w' @ outq w' = wire w @ outq w @ d \<and> same_frame w w' \<and> isInLoopThread (m_loop w) (ce_tid e)"
proof -
  have p: "flow_inv w" "isInLoopThread (m_loop w) (ce_tid e)" "m_state (conn w) = kConnected" "\<not> wr_shut w"
    "ce_shutdown e = None"
    using assms(1) by (auto simp: serving_def pipe_inv_def)
  then obtain w' where w': "sendInLoop (ce_tid e) (ce_write e) d w = Inr w'" "flow_inv w'"
    "wire w' @ outq w' = wire w @ outq w @ d" "wr_shut w' = wr_shut w" "same_frame w w'"
    using sendInLoop_flow [OF p(1,2), of d "ce_write e"] assms(2) by (auto simp: reply_fits_def)
  then have "serving e w'" using p by (simp add: serving_def pipe_inv_def same_frame_thread) (simp add: same_frame_def)
  then show ?thesis using w' p(2) by blast
qed

lemma send_then_shutDown:
  assumes "serving e w" "reply_fits e w d"
  shows "\<exists>w1 w'. sendInLoop (ce_tid e) (ce_write e) d w = Inr w1 \<and> serving e w1 \<and> same_frame w w1 \<and>
     wire w1 @ outq w1 = wire w @ outq w @ d \<and>
     shutDown (ce_strerror e) (ce_tid e) (ce_shutdown e) w1 = Inr w' \<and> pipe_inv (ce_tid e) w' \<and>
     m_state (conn w') = kDisconnecting \<and> wire w' @ outq w' = wire w @ outq w @ d \<and>
     m_parser (conn w') = m_parser (conn w) \<and> m_input_buffer (conn w') = m_input_buffer (conn w)"
proof -
  obtain w1 where w1: "sendInLoop (ce_tid e) (ce_write e) d w = Inr w1" "serving e w1" "same_frame w w1"
    "wire w1 @ outq w1 = wire w @ outq w @ d"
    using send_reply [OF assms] by blast
  then show ?thesis using shutDown_pipe [of "ce_tid e" w1 "ce_strerror e"]
    by (auto simp: serving_def same_frame_def)
qed

text \<open>The response the server composes, and what the connection becomes.\<close>

definition reply_of ::
  "(HttpRequest \<Rightarrow> HttpResponse \<Rightarrow> HttpResponse) \<Rightarrow> string \<times> string \<Rightarrow> HttpRequest \<Rightarrow> HttpResponse" where
  "reply_of response_callback junk request =
     response_callback request (HttpResponse_new (wants_close junk request))"

lemma handleRequest_effect:
  fixes w :: "'f http_world"
  assumes "serving e w" "reply_fits e w (response_text (reply_of rc junk request))"
  shows "\<exists>w'. handleRequest rc junk e request w = Inr w' \<and> pipe_inv (ce_tid e) w' \<and>
     wire w' @ outq w' = wire w @ outq w @ response_text (reply_of rc junk request) \<and>
     m_state (conn w') = (if closeConnection (reply_of rc junk request) then kDisconnecting else kConnected) \<and>
     m_parser (conn w') = m_parser (conn w) \<and> m_input_buffer (conn w') = m_input_buffer (conn w)"
proof -
  obtain b where b: "appendToBuffer (reply_of rc junk request) Buffer_default = Inr b"
    "readable b = response_text (reply_of rc junk request)"
    using appendToBuffer_front [OF front_inv_default] by auto
  have bytes: "Prelude.slice (m_buffer b) (peek b) (peek b + readableBytes b) = readable b"
    by (simp add: readable_def peek_def buf_defs)
  obtain w1 w' where w1: "sendInLoop (ce_tid e) (ce_write e) (readable b) w = Inr w1" "serving e w1" "same_frame w w1"
    "wire w1 @ outq w1 = wire w @ outq w @ readable b"
    and w': "shutDown (ce_strerror e) (ce_tid e) (ce_shutdown e) w1 = Inr w'" "pipe_inv (ce_tid e) w'"
    "m_state (conn w') = kDisconnecting" "wire w' @ outq w' = wire w @ outq w @ readable b"
    "m_parser (conn w') = m_parser (conn w)" "m_input_buffer (conn w') = m_input_buffer (conn w)"
    using send_then_shutDown [OF assms(1), of "readable b"] assms(2) b(2) by auto
  have "send_buffer (ce_tid e) (ce_write e) 0 b w = Inr (retrieveAll b, w1)"
    using w1(1) assms(1) by (simp add: send_buffer_def bytes serving_def pipe_inv_def Let_def)
  then have "handleRequest rc junk e request w =
      (if closeConnection (reply_of rc junk request) then Inr w' else Inr w1)"
    using b(1) w'(1) by (simp add: handleRequest_def reply_of_def Let_def)
  then show ?thesis using w1 w' b(2) by (auto simp: serving_def same_frame_def)
qed

text \<open>The two outcomes of a message that matter, for whatever the parser made of it.\<close>

lemma onMessage_parsed:
  fixes w :: "'f http_world"
  assumes "parseContent (m_parser (conn w)) (m_input_buffer (conn w)) = Inr (st, p, b)" "serving e w"
  shows "\<exists>w2. serving e w2 \<and> wire w2 = wire w \<and> outq w2 = outq w \<and> m_output_buffer (conn w2) = m_output_buffer (conn w) \<and>
     m_parser (conn w2) = p \<and> m_input_buffer (conn w2) = retrieveAll b \<and>
     onMessage rc junk e w =
       (if st = kParseErrno then
          res_bind (sendInLoop (ce_tid e) (ce_write e) bad_request_text w2) (shutDown (ce_strerror e) (ce_tid e) (ce_shutdown e))
        else if st = kParseGotCompleteRequest then handleRequest rc junk e (m_request p) w2 else Inr w2)"
proof -
  define w1 where "w1 = (if m_auto_close_idle_connection (env w)
    then w\<lparr>conn := updateLastReceiveTime (ce_now e) (conn w)\<rparr> else w)"
  define w2 where "w2 = set_input (retrieveAll b) (w1\<lparr>conn := (conn w1)\<lparr>m_parser := p\<rparr>\<rparr>)"
  define w3 where "w3 = (if st = kParseErrno then
    log_line (parse_error_message (conn w2)) w2 else w2)"
  have same: "m_loop w3 = m_loop w" "m_channel (conn w3) = m_channel (conn w)"
    "m_output_buffer (conn w3) = m_output_buffer (conn w)" "m_state (conn w3) = m_state (conn w)"
    "wr_shut w3 = wr_shut w" "wire w3 = wire w" "m_parser (conn w3) = p" "m_input_buffer (conn w3) = retrieveAll b"
    by (simp_all add: w3_def w2_def w1_def set_input_def updateLastReceiveTime_def)
  have parse: "parseContent (m_parser (conn w1)) (m_input_buffer (conn w1)) = Inr (st, p, b)"
    using assms(1) by (simp add: w1_def updateLastReceiveTime_def)
  have w3: "serving e w3" "outq w3 = outq w" using assms(2) same by (simp_all add: serving_def pipe_inv_cong [of w3 w] outq_def)
  have thread: "m_state (conn w3) = kConnected" "isInLoopThread (m_loop w3) (ce_tid e)"
    using w3(1) by (simp_all add: serving_def pipe_inv_def)
  have "onMessage rc junk e w =
       (if st = kParseErrno then
          res_bind (sendInLoop (ce_tid e) (ce_write e) bad_request_text w3) (shutDown (ce_strerror e) (ce_tid e) (ce_shutdown e))
        else if st = kParseGotCompleteRequest then handleRequest rc junk e (m_request p) w3 else Inr w3)"
  proof (cases "st = kParseErrno")
    case True
    then have w3_log: "log_line (parse_error_message (conn w2)) w2 = w3" by (simp add: w3_def)
    moreover have "m_state (conn w2) = kConnected" "isInLoopThread (m_loop w2) (ce_tid e)"
      using thread unfolding w3_log [symmetric] by simp_all
    ultimately show ?thesis using True parse thread
      by (simp add: onMessage_def w1_def [symmetric] w2_def [symmetric] w3_log send_string_def send_bytes_def Let_def)
  next
    case False
    then have "w2 = w3" by (simp add: w3_def)
    then show ?thesis using False parse
      by (simp add: onMessage_def w1_def [symmetric] w2_def [symmetric] getRequest_def Let_def)
  qed
  then show ?thesis using w3 same by blast
qed

lemma shell_set_input [simp]: "shell (set_input b w) = shell w"
  by (simp add: set_input_def)

lemma shell_thread: "shell w' = shell w \<Longrightarrow> isInLoopThread (m_loop w') tid \<longleftrightarrow> isInLoopThread (m_loop w) tid"
  by (drule arg_cong [where f = "\<lambda>x. m_thread_id (fst x)"]) (simp add: shell_def isInLoopThread_def)

lemma shell_send_buffer:
  "send_buffer tid wres src b w = Inr (b', w') \<Longrightarrow> isInLoopThread (m_loop w) tid \<Longrightarrow> shell w' = shell w"
  by (auto simp: send_buffer_def res_simps Let_def dest: shell_sendInLoop split: if_splits)

lemma shell_send_string:
  "send_string tid wres src d w = Inr w' \<Longrightarrow> isInLoopThread (m_loop w) tid \<Longrightarrow> shell w' = shell w"
  by (auto simp: send_string_def send_bytes_def dest: shell_sendInLoop split: if_splits)

lemma shell_handleRequest:
  assumes "handleRequest rc junk e request w = Inr w'" "isInLoopThread (m_loop w) (ce_tid e)"
  shows "shell w' = shell w"
proof -
  obtain b b' w1 where w1: "send_buffer (ce_tid e) (ce_write e) 0 b w = Inr (b', w1)"
    "w' = w1 \<or> shutDown (ce_strerror e) (ce_tid e) (ce_shutdown e) w1 = Inr w'"
    using assms(1) by (auto simp: handleRequest_def res_simps Let_def split: if_splits)
  have same: "shell w1 = shell w" using shell_send_buffer [OF w1(1) assms(2)] .
  then have "isInLoopThread (m_loop w1) (ce_tid e)" using shell_thread assms(2) by blast
  then show ?thesis using w1(2) shell_shutDown same by fastforce
qed

lemma shell_onMessage:
  assumes "onMessage rc junk e w = Inr w'" "isInLoopThread (m_loop w) (ce_tid e)"
  shows "shell w' = shell w"
proof -
  define w1 where "w1 = (if m_auto_close_idle_connection (env w)
    then w\<lparr>conn := updateLastReceiveTime (ce_now e) (conn w)\<rparr> else w)"
  obtain st p b where p: "parseContent (m_parser (conn w1)) (m_input_buffer (conn w1)) = Inr (st, p, b)"
    using assms(1) by (auto simp: onMessage_def w1_def [symmetric] res_simps Let_def)
  define w2 where "w2 = set_input (retrieveAll b) (w1\<lparr>conn := (conn w1)\<lparr>m_parser := p\<rparr>\<rparr>)"
  have w2: "shell w2 = shell w" by (simp add: w2_def w1_def)
  then have thr: "isInLoopThread (m_loop w2) (ce_tid e)" using shell_thread assms(2) by blast
  consider w3 where "send_string (ce_tid e) (ce_write e) 0 bad_request_text (log_line (parse_error_message (conn w2)) w2) = Inr w3"
      "shutDown (ce_strerror e) (ce_tid e) (ce_shutdown e) w3 = Inr w'"
    | "handleRequest rc junk e (getRequest p) w2 = Inr w'" | "w' = w2"
    using assms(1) p by (auto simp: onMessage_def w1_def [symmetric] w2_def [symmetric] res_simps Let_def split: if_splits)
  then have "shell w' = shell w2"
  proof cases
    case 1
    have same: "shell w3 = shell w2" using shell_send_string [OF 1(1)] thr by simp
    then have "isInLoopThread (m_loop w3) (ce_tid e)" using shell_thread thr by blast
    then show ?thesis using shell_shutDown [OF 1(2)] same by simp
  next
    case 2
    then show ?thesis using shell_handleRequest thr by blast
  qed simp
  then show ?thesis using w2 by simp
qed

section \<open>One read of a serving connection\<close>

text \<open>Every message leaves the input buffer drained, so a read starts from a drained one.\<close>

definition input_drained :: "('f, 'x) ConnWorld \<Rightarrow> bool" where
  "input_drained w \<longleftrightarrow> buf_inv (m_input_buffer (conn w)) \<and> readable (m_input_buffer (conn w)) = [] \<and>
     m_read_index (m_input_buffer (conn w)) \<le> kPrePendIndex"

lemma input_drained_retrieveAll:
  "buf_inv b \<Longrightarrow> m_input_buffer (conn w) = retrieveAll b \<Longrightarrow> input_drained w"
  using front_inv_retrieveAll [of b] by (simp add: input_drained_def front_inv_def)

lemma read_message_runs:
  assumes "serving e w" "input_drained w" "d \<noteq> []"
  shows "\<exists>b w1. conn_handleRead message_callback close_callback strerror gso (ce_tid e) (Inr d) w = message_callback w1 \<and>
     w1 = w\<lparr>conn := (conn w)\<lparr>m_input_buffer := b\<rparr>\<rparr> \<and> buf_inv b \<and> readable b = d \<and> serving e w1"
proof -
  let ?b = "m_input_buffer (conn w)"
  have b: "buf_inv ?b" "readable ?b = []" "m_read_index ?b \<le> kPrePendIndex"
    using assms(2) by (auto simp: input_drained_def)
  obtain b' where b': "readFd ?b 0 (Inr d) = Inr (int (length d), b')" "buf_inv b'" "readable b' = d"
    using readFd_within [OF b(1), of d 0] readFd_beyond [OF b(1), of d 0] b(2,3) by force
  let ?w = "w\<lparr>conn := (conn w)\<lparr>m_input_buffer := b'\<rparr>\<rparr>"
  have "serving e ?w" using assms(1) by (simp add: serving_def pipe_inv_cong [of ?w w])
  moreover have "isInLoopThread (m_loop w) (ce_tid e)" using assms(1) by (simp add: serving_def pipe_inv_def)
  ultimately show ?thesis using b' assms(3) by (auto simp: conn_handleRead_def)
qed

lemma reply_fits_cong:
  "outq w' = outq w \<Longrightarrow> m_output_buffer (conn w') = m_output_buffer (conn w) \<Longrightarrow>
   reply_fits e w' d \<longleftrightarrow> reply_fits e w d"
  by (simp add: reply_fits_def)

text \<open>What one read makes of a serving connection, by the state its lines bring the parser to.\<close>

lemma read_outcome:
  fixes w :: "'f http_world"
  assumes "serving e w" "input_drained w" "d \<noteq> []"
    and p: "snd (run_lines (m_parser (conn w)) (lines_of d)) = p"
    and run_def: "conn_handleRead (onMessage rc junk e) close_callback strerror gso (ce_tid e) (Inr d) w = run"
  shows "m_parse_state p = kParseErrno \<Longrightarrow> reply_fits e w bad_request_text \<Longrightarrow>
      \<exists>w'. run = Inr w' \<and> wire w' @ outq w' = wire w @ outq w @ bad_request_text \<and>
        m_state (conn w') = kDisconnecting \<and> pipe_inv (ce_tid e) w' \<and> m_parser (conn w') = p \<and> input_drained w'"
    and "m_parse_state p = kParseGotCompleteRequest \<Longrightarrow>
      reply_fits e w (response_text (reply_of rc junk (m_request p))) \<Longrightarrow>
      \<exists>w'. run = Inr w' \<and>
        wire w' @ outq w' = wire w @ outq w @ response_text (reply_of rc junk (m_request p)) \<and>
        m_state (conn w') = (if closeConnection (reply_of rc junk (m_request p)) then kDisconnecting else kConnected) \<and>
        pipe_inv (ce_tid e) w' \<and> m_parser (conn w') = p \<and> input_drained w'"
    and "m_parse_state p \<noteq> kParseErrno \<Longrightarrow> m_parse_state p \<noteq> kParseGotCompleteRequest \<Longrightarrow>
      \<exists>w'. run = Inr w' \<and> serving e w' \<and> wire w' = wire w \<and> outq w' = outq w \<and>
        m_parser (conn w') = p \<and> input_drained w'"
proof -
  obtain b w1 where w1: "run = onMessage rc junk e w1"
    "w1 = w\<lparr>conn := (conn w)\<lparr>m_input_buffer := b\<rparr>\<rparr>" "buf_inv b" "readable b = d" "serving e w1"
    using read_message_runs [OF assms(1-3), of "onMessage rc junk e" close_callback strerror gso]
    unfolding run_def by blast
  obtain b' where b': "parseContent (m_parser (conn w1)) (m_input_buffer (conn w1)) = Inr (m_parse_state p, p, b')"
    "buf_inv b'"
    using parseContent_run [OF w1(3), of "m_parser (conn w)"] p by (auto simp: w1(2,4))
  obtain w2 where w2: "serving e w2" "wire w2 = wire w" "outq w2 = outq w"
    "m_output_buffer (conn w2) = m_output_buffer (conn w)" "m_parser (conn w2) = p"
    "m_input_buffer (conn w2) = retrieveAll b'"
    "run = (if m_parse_state p = kParseErrno then
        res_bind (sendInLoop (ce_tid e) (ce_write e) bad_request_text w2) (shutDown (ce_strerror e) (ce_tid e) (ce_shutdown e))
      else if m_parse_state p = kParseGotCompleteRequest then handleRequest rc junk e (m_request p) w2 else Inr w2)"
    using onMessage_parsed [OF b'(1) w1(5), of rc junk] by (auto simp: w1(1,2) outq_def)
  note fits = reply_fits_cong [OF w2(3,4)] and drained = input_drained_retrieveAll [OF b'(2)]
  show "\<exists>w'. run = Inr w' \<and> wire w' @ outq w' = wire w @ outq w @ bad_request_text \<and>
        m_state (conn w') = kDisconnecting \<and> pipe_inv (ce_tid e) w' \<and> m_parser (conn w') = p \<and> input_drained w'"
    if "m_parse_state p = kParseErrno" "reply_fits e w bad_request_text"
    using send_then_shutDown [OF w2(1), of bad_request_text] that w2 fits drained by auto
  show "\<exists>w'. run = Inr w' \<and>
        wire w' @ outq w' = wire w @ outq w @ response_text (reply_of rc junk (m_request p)) \<and>
        m_state (conn w') = (if closeConnection (reply_of rc junk (m_request p)) then kDisconnecting else kConnected) \<and>
        pipe_inv (ce_tid e) w' \<and> m_parser (conn w') = p \<and> input_drained w'"
    if "m_parse_state p = kParseGotCompleteRequest" "reply_fits e w (response_text (reply_of rc junk (m_request p)))"
    using handleRequest_effect [OF w2(1), of rc junk "m_request p"] that w2 fits drained by auto
  show "\<exists>w'. run = Inr w' \<and> serving e w' \<and> wire w' = wire w \<and> outq w' = outq w \<and>
        m_parser (conn w') = p \<and> input_drained w'"
    if "m_parse_state p \<noteq> kParseErrno" "m_parse_state p \<noteq> kParseGotCompleteRequest"
    using that w2 drained by auto
qed

lemma parsed_state:
  assumes "request_ok m t v hs" "search_crlf xs = None" "m_parse_state p = kParseRequestLine"
  shows "snd (run_lines p (lines_of (request_text m t v hs @ xs))) =
    p\<lparr>m_request := parsed_request (m_request p) m t v hs, m_parse_state := kParseGotCompleteRequest\<rparr>"
  using lines_of_request [OF assms(1,2)] run_request_lines [OF assms(1,3)] by simp

lemma request_text_ne [simp]: "request_text m t v hs @ xs \<noteq> []"
  by (simp add: request_text_def request_lines_def unlines_crlf_def kCRLF_def)

section \<open>Properties\<close>


text \<open>A message the parser rejects is answered with a bare 400 and the connection starts
  closing.  This covers a first line that is no request line, and, because the parser is never
  reset, every message that carries a complete line after the first request: a second request on
  a connection that was told to stay open is refused whatever it asks.\<close>

theorem rejected_message:
  fixes w :: "'f http_world"
  assumes "serving e w" "input_drained w" "lines_of d = l # ls" "reply_fits e w bad_request_text"
    and "m_parse_state (m_parser (conn w)) = kParseGotCompleteRequest \<or>
         m_parse_state (m_parser (conn w)) = kParseRequestLine \<and>
         \<not> fst (parseRequestLine (m_request (m_parser (conn w))) l)"
  shows "\<exists>w'. conn_handleRead (onMessage rc junk e) close_callback strerror gso (ce_tid e) (Inr d) w = Inr w' \<and>
     wire w' @ outq w' = wire w @ outq w @ bad_request_text \<and> m_state (conn w') = kDisconnecting"
proof -
  have ne: "d \<noteq> []" using assms(3) by (auto simp: lines_of_def split_lines.simps)
  have "m_parse_state (snd (run_lines (m_parser (conn w)) (lines_of d))) = kParseErrno"
    using assms(3,5) by (auto simp: parse_line_def split: prod.splits)
  from read_outcome(1) [OF assms(1,2) ne refl refl this assms(4)] show ?thesis by blast
qed



text \<open>A connection of the sample world, served on thread 1, with the base loop on thread 2.\<close>

definition http_env :: "unit HttpEnv" where
  "http_env = (let (l, rb) = RBTreeTimer_new (net_loop_sample\<lparr>m_thread_id := 2\<rparr>) 6 200 CbTimer
     in \<lparr>base_loop = l, base_timer = rb, m_auto_close_idle_connection = True\<rparr>)"

definition http_live :: "unit http_world" where
  "http_live = \<lparr>m_loop = m_loop live_world, conn = conn live_world, wire = [], wr_shut = False,
     logged = [], env = http_env\<rparr>"

definition env_at :: "nat \<Rightarrow> call_env" where
  "env_at tid = \<lparr>ce_tid = tid, ce_now = Timestamp_at 5000, ce_write = Inr 10, ce_shutdown = None,
     ce_strerror = (\<lambda>_. [])\<rparr>"

lemma http_live_serving: "serving (env_at 1) http_live" "input_drained http_live"
  and http_live_facts: "wire http_live = []" "outq http_live = []" "m_state (conn http_live) = kConnected"
    "m_parser (conn http_live) = HttpRequestParser_new" "env http_live = http_env"
    "m_self (conn http_live) = 1" "m_last_receive_time (conn http_live) = Timestamp_default"
proof -
  have "\<not> wr_shut live_world" using live_world_facts(1,2) by (simp add: pipe_inv_def)
  then have "pipe_inv 1 http_live \<longleftrightarrow> pipe_inv 1 live_world"
    by (intro pipe_inv_cong) (simp_all add: http_live_def)
  then show "serving (env_at 1) http_live"
    using live_world_facts(1,2) by (simp add: serving_def env_at_def http_live_def)
  show "input_drained http_live"
    using front_inv_default by (simp add: input_drained_def front_inv_def http_live_def live_world_input)
qed (use live_world_facts(4) in \<open>simp_all add: http_live_def live_world_conn TcpConnection_new_def outq_def\<close>)

lemma http_live_fits: "10 \<le> length d \<Longrightarrow> reply_fits (env_at 1) http_live d"
  by (simp add: reply_fits_def http_live_facts env_at_def)

lemma bad_request_length: "10 \<le> length bad_request_text" by code_simp

definition hello_reply :: string where
  "hello_reply = unlines_crlf [''HTTP/1.1 200 OK'', ''Content-length: 14'', ''Connection: Keep-Alive'',
     ''Content-type: text/html'', ''Server: Ymirth server''] @ kCRLF @ ''Hello, world!'' @ [CHR 0x0A]"


theorem rejected_message_witness:
  "\<exists>w'. conn_handleRead (onMessage (resCallback [] []) ([], []) (env_at 1)) Inr (\<lambda>_. []) (Inr 0) 1
        (Inr (unlines_crlf [''nonsense''])) http_live = Inr w' \<and>
     wire w' @ outq w' = bad_request_text \<and> m_state (conn w') = kDisconnecting"
proof -
  have l: "lines_of (unlines_crlf [''nonsense'']) = ''nonsense'' # []"
    using lines_of_unlines [of "[''nonsense'']" "[]"] by (simp add: kCRLF_def)
  have s: "m_parse_state (m_parser (conn http_live)) = kParseGotCompleteRequest \<or>
      m_parse_state (m_parser (conn http_live)) = kParseRequestLine \<and>
      \<not> fst (parseRequestLine (m_request (m_parser (conn http_live))) ''nonsense'')"
    unfolding http_live_facts by code_simp
  from rejected_message [OF http_live_serving l http_live_fits [OF bad_request_length] s, of "resCallback [] []" "([], [])"
      Inr "\<lambda>_. []" "Inr 0"]
  show ?thesis by (auto simp: http_live_facts env_at_def)
qed



end
