(* ===== verification/HttpRuns.thy ===== *)
theory HttpRuns
  imports TcpServers HttpServers
begin

text \<open>
  The running HTTP server: the callbacks of \<open>Http/httpserver.cpp\<close> acting in the world of
  \<open>Net/tcpserver.cpp\<close>, every channel callback and every functor of the program, and one round of
  an event loop over that world (\<open>Net/eventloop.cpp\<close>).  What system calls return, clock
  readings and addresses of new objects are the fields of \<open>results\<close>, one record for each
  callback or functor that runs.
\<close>

section \<open>State\<close>

record HttpUpper =
  up_timer :: "timer_cb RBTreeTimer"
  up_auto :: bool

text \<open>A queued functor that is not of a connection or the server adds a timer.\<close>

type_synonym http_server = "(timer_cb Timer, HttpUpper) ServerWorld"
type_synonym http_conn = "(timer_cb Timer, HttpUpper) conn_view"

record results =
  rs_read :: "errno + char list"
  rs_so_error :: "errno + int"
  rs_write :: "errno + nat"
  rs_shutdown :: "errno option"
  rs_junk :: "string \<times> string"
  rs_mem :: "nat \<Rightarrow> char list"
  rs_accept :: "errno + int"
  rs_accept2 :: "errno + int"
  rs_null_fd :: int
  rs_sockopt :: "bool \<times> bool"
  rs_self :: nat
  rs_chan :: nat
  rs_timer_read :: int
  rs_clock :: "nat \<Rightarrow> Timestamp"
  rs_now :: "nat \<Rightarrow> Timestamp"
  rs_now1 :: "nat \<Rightarrow> Timestamp"
  rs_now2 :: "nat \<Rightarrow> Timestamp"
  rs_kernel :: int

text \<open>The response callback of the server and \<open>strerror\<close>.\<close>

record config =
  m_response_callback :: "HttpRequest \<Rightarrow> HttpResponse \<Rightarrow> HttpResponse"
  cf_strerror :: "int \<Rightarrow> string"

definition call_env_of :: "config \<Rightarrow> results \<Rightarrow> nat \<Rightarrow> nat \<Rightarrow> call_env" where
  "call_env_of cf rs tid obj = \<lparr>ce_tid = tid, ce_now = rs_now rs obj, ce_write = rs_write rs,
     ce_shutdown = rs_shutdown rs, ce_strerror = cf_strerror cf\<rparr>"

section \<open>The handlers in the server's world\<close>

text \<open>
  A handler of the HTTP server sees its own state, the base loop and its timers, behind the
  connection; a connection never lives in the base loop.
\<close>

definition http_of :: "http_conn \<Rightarrow> timer_cb Timer net_loop \<Rightarrow> timer_cb Timer http_world" where
  "http_of w base = \<lparr>m_loop = m_loop w, conn = conn w, wire = wire w, wr_shut = wr_shut w, logged = logged w,
     env = \<lparr>base_loop = base, base_timer = up_timer (upper (env w)),
            m_auto_close_idle_connection = up_auto (upper (env w))\<rparr>\<rparr>"

definition of_http :: "http_server \<Rightarrow> timer_cb Timer http_world \<Rightarrow> http_conn" where
  "of_http s v = \<lparr>m_loop = m_loop v, conn = conn v, wire = wire v, wr_shut = wr_shut v, logged = logged v,
     env = put_loop (srv_loop (srv s)) (base_loop (env v))
       (s\<lparr>upper := \<lparr>up_timer = base_timer (env v), up_auto = m_auto_close_idle_connection (env v)\<rparr>\<rparr>)\<rparr>"

definition with_http ::
  "(timer_cb Timer http_world \<Rightarrow> timer_cb Timer http_world result) \<Rightarrow> http_conn \<Rightarrow> http_conn result" where
  "with_http op w =
     res_bind (deref_loop (env w) (srv_loop (srv (env w)))) (\<lambda>base.
       res_bind (op (http_of w base)) (\<lambda>v. Inr (of_http (env w) v)))"

definition server_onConnection :: "results \<Rightarrow> nat \<Rightarrow> http_conn \<Rightarrow> http_conn result" where
  "server_onConnection rs tid w =
     (let obj = m_self (conn w)
      in with_http (onConnection FOther tid (rs_now1 rs obj) (rs_now2 rs obj) (rs_kernel rs)) w)"

definition server_onMessage :: "config \<Rightarrow> results \<Rightarrow> nat \<Rightarrow> http_conn \<Rightarrow> http_conn result" where
  "server_onMessage cf rs tid w =
     with_http (onMessage (m_response_callback cf) (rs_junk rs) (call_env_of cf rs tid (m_self (conn w)))) w"

section \<open>Timers\<close>

definition put_timer :: "timer_cb RBTreeTimer \<Rightarrow> http_server \<Rightarrow> http_server" where
  "put_timer rb s = s\<lparr>upper := (upper s)\<lparr>up_timer := rb\<rparr>\<rparr>"

text \<open>
  Running the callback of a timer: \<open>timerEvent\<close> of \<open>main.cpp\<close> does nothing, an idle test locks the
  weak pointer to its connection.
\<close>

definition run_timer_cb ::
  "config \<Rightarrow> results \<Rightarrow> nat \<Rightarrow> timer_cb \<Rightarrow> http_server \<times> timer_cb RBTreeTimer \<Rightarrow>
   (http_server \<times> timer_cb RBTreeTimer) result" where
  "run_timer_cb cf rs tid cb = (\<lambda>(s, rb).
     case cb of
       TimerEvent \<Rightarrow> Inr (s, rb)
     | IdleConnection obj \<Rightarrow>
         (case objs s obj of
            None \<Rightarrow> Inr (s, rb)
          | Some _ \<Rightarrow>
              res_bind (on_conn (with_http (handleIdleConnection FOther (call_env_of cf rs tid obj) (rs_now rs obj)
                    (rs_now1 rs obj) (rs_now2 rs obj) (rs_kernel rs) True)) obj (put_timer rb s))
                (\<lambda>s'. Inr (s', up_timer (upper s')))))"

text \<open>\<open>RBTreeTimer::handleRead\<close> of the base loop, whose callbacks act on the whole server.\<close>

definition server_timer_event :: "config \<Rightarrow> results \<Rightarrow> nat \<Rightarrow> http_server \<Rightarrow> http_server result" where
  "server_timer_event cf rs tid s =
     res_bind (deref_loop s (srv_loop (srv s))) (\<lambda>l.
       res_bind (assertInLoopThread l tid) (\<lambda>_.
         if rs_timer_read rs \<noteq> 8 then Inr s
         else
           let rb = up_timer (upper s);
               (expired, rest) = lower_bound_split (rs_clock rs 0) (m_timer rb)
           in res_bind (run_expired (run_timer_cb cf rs tid) (rs_clock rs) 1 expired
                  (s, rb\<lparr>m_timer := rest, deadline := None\<rparr>)) (\<lambda>(s2, rb2).
                case m_timer rb2 of
                  [] \<Rightarrow> Inr (put_timer rb2 s2)
                | t # _ \<Rightarrow>
                    res_bind (deref_loop s2 (srv_loop (srv s2))) (\<lambda>l2.
                      res_bind (resetTimerFd l2 tid (rs_clock rs (1 + length expired)) (rs_kernel rs) t rb2)
                        (\<lambda>rb3. Inr (put_timer rb3 s2))))))"

section \<open>Callbacks and functors\<close>

definition run_callback :: "config \<Rightarrow> results \<Rightarrow> nat \<Rightarrow> nat \<Rightarrow> chan_cb \<Rightarrow> http_server \<Rightarrow> http_server result" where
  "run_callback cf rs tid i cb s =
     (case cb of
        CbWakeup \<Rightarrow> res_bind (deref_loop s i) (\<lambda>l. Inr (put_loop i (handleRead_wakeup l) s))
      | CbTimer \<Rightarrow> server_timer_event cf rs tid s
      | CbAccept \<Rightarrow>
          handleConnect (handleNewConnection (server_onConnection rs tid) tid (rs_self rs) (rs_chan rs))
            (fst (rs_sockopt rs)) (snd (rs_sockopt rs)) (rs_accept rs) (rs_accept2 rs) (rs_null_fd rs) s
      | CbRead obj \<Rightarrow>
          on_conn (conn_handleRead (server_onMessage cf rs tid) (server_close tid obj i) (cf_strerror cf)
            (rs_so_error rs) tid (rs_read rs)) obj s
      | CbWrite obj \<Rightarrow> on_conn (conn_handleWrite (cf_strerror cf) tid (rs_write rs) (rs_shutdown rs)) obj s
      | CbError obj \<Rightarrow> on_conn (handleError (cf_strerror cf) (rs_so_error rs)) obj s)"

text \<open>
  \<open>rs_mem\<close> is what the memory holds to which a send of another thread points.
\<close>

definition add_timer_functor :: "results \<Rightarrow> nat \<Rightarrow> timer_cb Timer \<Rightarrow> http_server \<Rightarrow> http_server result" where
  "add_timer_functor rs tid t s =
     res_bind (deref_loop s (srv_loop (srv s))) (\<lambda>l.
       res_bind (addTimerInLoop tid (rs_clock rs 0) (rs_kernel rs) t (l, up_timer (upper s)))
         (\<lambda>(l', rb). Inr (put_timer rb (put_loop (srv_loop (srv s)) l' s))))"

definition run_functor :: "config \<Rightarrow> results \<Rightarrow> nat \<Rightarrow> nat \<Rightarrow> timer_cb Timer loop_task \<Rightarrow> http_server \<Rightarrow> http_server result" where
  "run_functor cf rs tid i f s =
     (let conn_functor = (\<lambda>obj. on_conn (run_conn_functor (server_close tid obj i) (cf_strerror cf) (rs_mem rs) tid
            (rs_write rs) (rs_shutdown rs) f) obj s)
      in case f of
           FSendInLoop obj src len \<Rightarrow> conn_functor obj
         | FShutDownInLoop obj \<Rightarrow> conn_functor obj
         | FForceCloseInLoop obj \<Rightarrow> conn_functor obj
         | FOther t \<Rightarrow> add_timer_functor rs tid t s
         | _ \<Rightarrow> run_server_functor (server_onConnection rs tid) tid f s)"

section \<open>A round of a loop\<close>

text \<open>
  \<open>doPendingFunctors\<close>, the dispatch of one active channel, and the body of \<open>loop\<close>, for loop \<open>i\<close>
  on thread \<open>tid\<close>.  A callback runs at most once in a round, so the results are given by callback;
  those of the functors are given by position.
\<close>

definition world_doPendingFunctors ::
  "config \<Rightarrow> (nat \<Rightarrow> results) \<Rightarrow> nat \<Rightarrow> nat \<Rightarrow> http_server \<Rightarrow> http_server result" where
  "world_doPendingFunctors cf rsf tid i s =
     res_bind (deref_loop s i) (\<lambda>l.
       let (functors, l2) = swap_functors (l\<lparr>m_calling_pending_functors := True\<rparr>)
       in res_bind (run_all (\<lambda>(k, f). run_functor cf (rsf k) tid i f) (enumerate 0 functors) (put_loop i l2 s))
            (\<lambda>s2. res_bind (deref_loop s2 i) (\<lambda>l3.
               Inr (put_loop i (l3\<lparr>m_calling_pending_functors := False\<rparr>) s2))))"

definition world_handle_channel ::
  "config \<Rightarrow> (chan_cb \<Rightarrow> results) \<Rightarrow> nat \<Rightarrow> nat \<Rightarrow> nat \<Rightarrow> http_server \<Rightarrow> http_server result" where
  "world_handle_channel cf rsc tid i p s =
     res_bind (deref_loop s i) (\<lambda>l.
       res_bind (deref (m_epoller l) p) (\<lambda>c.
         run_all (\<lambda>cb. run_callback cf (rsc cb) tid i cb) (handleEvent (\<lambda>obj. objs s obj \<noteq> None) c) s))"

definition world_loop_once ::
  "config \<Rightarrow> (chan_cb \<Rightarrow> results) \<Rightarrow> (nat \<Rightarrow> results) \<Rightarrow> errno + (32 word \<times> nat) list \<Rightarrow> nat \<Rightarrow> nat \<Rightarrow>
   http_server \<Rightarrow> http_server result" where
  "world_loop_once cf rsc rsf wait tid i s =
     res_bind (deref_loop s i) (\<lambda>l.
       res_bind (epoller_poll (m_epoller l) wait []) (\<lambda>(ep, active).
         res_bind (run_all (world_handle_channel cf rsc tid i) active
                     (put_loop i (l\<lparr>m_epoller := ep, m_active_channels := active\<rparr>) s))
           (world_doPendingFunctors cf rsf tid i)))"

section \<open>The handlers are gentle\<close>

lemma http_of_fields [simp]:
  "m_loop (http_of w base) = m_loop w" "conn (http_of w base) = conn w" "wire (http_of w base) = wire w"
  "wr_shut (http_of w base) = wr_shut w" "logged (http_of w base) = logged w"
  "base_loop (env (http_of w base)) = base" "base_timer (env (http_of w base)) = up_timer (upper (env w))"
  "m_auto_close_idle_connection (env (http_of w base)) = up_auto (upper (env w))"
  by (simp_all add: http_of_def)

lemma of_http_fields [simp]:
  "m_loop (of_http s v) = m_loop v" "conn (of_http s v) = conn v" "wire (of_http s v) = wire v"
  "wr_shut (of_http s v) = wr_shut v" "logged (of_http s v) = logged v"
  "env (of_http s v) = put_loop (srv_loop (srv s)) (base_loop (env v))
     (s\<lparr>upper := \<lparr>up_timer = base_timer (env v), up_auto = m_auto_close_idle_connection (env v)\<rparr>\<rparr>)"
  by (simp_all add: of_http_def)

lemma with_http_base:
  "loops (env w) (srv_loop (srv (env w))) = Some base \<Longrightarrow>
   with_http op w = res_bind (op (http_of w base)) (\<lambda>v. Inr (of_http (env w) v))"
  by (simp add: with_http_def)

text \<open>What \<open>onConnection\<close> leaves, on a thread that is not the base loop's.\<close>

definition idle_timer :: "results \<Rightarrow> nat \<Rightarrow> timer_cb Timer" where
  "idle_timer rs obj = Timer_new (Some (IdleConnection obj)) (addTime (rs_now1 rs obj) kIdleConnectionTimeOuts) 0"

lemma of_http_touched:
  assumes "m_loop v = m_loop w" "conn v = (conn w)\<lparr>m_input_buffer := b\<rparr>" "wire v = wire w" "wr_shut v = wr_shut w"
    and "logged v = logged w" "base_timer (env v) = up_timer (upper (env w))"
    and "m_auto_close_idle_connection (env v) = up_auto (upper (env w))"
  shows "of_http (env w) v = touched w b (base_loop (env v)) (upper (env w))"
proof -
  have "\<lparr>up_timer = base_timer (env v), up_auto = m_auto_close_idle_connection (env v)\<rparr> = upper (env w)"
    using assms(6,7) by simp
  then show ?thesis using assms(1-5) by (simp add: of_http_def touched_def)
qed

lemma server_onConnection_effect:
  assumes "loops (env w) (srv_loop (srv (env w))) = Some base" "\<not> isInLoopThread base t"
  shows "server_onConnection rs t w = Inr (touched w (retrieveAll (m_input_buffer (conn w)))
     (if isConnected (conn w) \<and> up_auto (upper (env w))
      then queueInLoop base t (FOther (idle_timer rs (m_self (conn w)))) else base) (upper (env w)))"
proof -
  let ?on = "isConnected (conn w) \<and> up_auto (upper (env w))"
  let ?base = "if ?on then queueInLoop base t (FOther (idle_timer rs (m_self (conn w)))) else base"
  define v where "v = set_input (retrieveAll (m_input_buffer (conn w)))
     ((http_of w base)\<lparr>env := (env (http_of w base))\<lparr>base_loop := ?base\<rparr>\<rparr>)"
  have "onConnection FOther t (rs_now1 rs (m_self (conn w))) (rs_now2 rs (m_self (conn w))) (rs_kernel rs) (http_of w base) = Inr v"
    using assms(2) by (simp add: onConnection_def base_runAfter_def runAfter_def addTimer_def idle_timer_def v_def http_of_def)
  moreover have "of_http (env w) v = touched w (retrieveAll (m_input_buffer (conn w))) (base_loop (env v)) (upper (env w))"
    by (rule of_http_touched) (simp_all add: v_def set_input_def)
  ultimately show ?thesis using assms(1) by (simp add: server_onConnection_def with_http_base v_def set_input_def Let_def)
qed

lemma server_onConnection_gentle: "gentle t (server_onConnection rs t)"
  unfolding gentle_def
proof (intro allI impI, elim conjE)
  fix w :: http_conn and base assume a: "loops (env w) (srv_loop (srv (env w))) = Some base" "\<not> isInLoopThread base t"
  let ?base = "if isConnected (conn w) \<and> up_auto (upper (env w))
      then queueInLoop base t (FOther (idle_timer rs (m_self (conn w)))) else base"
  let ?fs = "if isConnected (conn w) \<and> up_auto (upper (env w)) then [FOther (idle_timer rs (m_self (conn w)))] else []"
  show "\<exists>b base' u fs. server_onConnection rs t w = Inr (touched w b base' u) \<and>
      (buf_inv (m_input_buffer (conn w)) \<longrightarrow> buf_inv b) \<and>
      m_epoller base' = m_epoller base \<and> m_thread_id base' = m_thread_id base \<and>
      m_pending_functors base' = m_pending_functors base @ fs"
    using front_inv_retrieveAll [of "m_input_buffer (conn w)"]
    by (intro exI [of _ "retrieveAll (m_input_buffer (conn w))"] exI [of _ ?base] exI [of _ "upper (env w)"] exI [of _ ?fs])
      (simp add: server_onConnection_effect [OF a] front_inv_def)
qed


section \<open>Rounds\<close>

text \<open>A round in which epoll reports one event.\<close>

definition reported :: "nat \<Rightarrow> 32 word \<times> nat \<Rightarrow> chan_cb Channel \<Rightarrow> timer_cb Timer net_loop \<Rightarrow> http_server \<Rightarrow> http_server" where
  "reported i ev c l s = put_loop i (l\<lparr>m_epoller := put_chan (m_epoller l) (snd ev) (setRevents c (fst ev)),
     m_active_channels := [snd ev]\<rparr>) s"

lemma world_loop_once_one:
  assumes "loops s i = Some l" "chans (m_epoller l) p = Some c"
  shows "world_loop_once cf rsc rsf (Inr [(e, p)]) tid i s =
     res_bind (run_all (\<lambda>cb. run_callback cf (rsc cb) tid i cb)
         (handleEvent (\<lambda>obj. objs s obj \<noteq> None) (setRevents c e)) (reported i (e, p) c l s))
       (world_doPendingFunctors cf rsf tid i)"
proof -
  have "run_all (world_handle_channel cf rsc tid i) [] = Inr" by (rule ext) simp
  then show ?thesis using assms
    by (simp add: world_loop_once_def epoller_poll_def deref_def world_handle_channel_def reported_def res_bind_def
        split: sum.split)
qed

text \<open>Without functors the end of a round changes nothing.\<close>

lemma no_functors:
  assumes "loops s i = Some l" "m_pending_functors l = []" "\<not> m_calling_pending_functors l"
  shows "world_doPendingFunctors cf rsf tid i s = Inr s"
proof -
  have "l\<lparr>m_pending_functors := [], m_calling_pending_functors := False\<rparr> = l" using assms(2,3) by simp
  then show ?thesis using assms(1,2)
    by (simp add: world_doPendingFunctors_def swap_functors_def put_loop_def deref_loop_def fun_upd_idem)
qed

text \<open>The callbacks of the two events that matter: input on a connection, and a wake-up.\<close>

lemma input_event:
  assumes "m_tied c \<longrightarrow> m_tie c = Some obj \<and> alive obj" "m_read_callback c = Some cb"
  shows "handleEvent alive (setRevents c EPOLLIN) = [cb]"
  using assms by (simp add: handleEvent_def handleEventWithGuard_def setRevents_def event_masks)


section \<open>A connection that serves\<close>

definition conn_up ::
  "nat \<Rightarrow> ('f, 'x) ServerWorld \<Rightarrow> nat \<Rightarrow> ConnObj \<Rightarrow> 'f net_loop \<Rightarrow> chan_cb Channel \<Rightarrow> bool" where
  "conn_up t s obj ob l c \<longleftrightarrow> objs s obj = Some ob \<and> loops s (co_loop ob) = Some l \<and> co_loop ob \<noteq> srv_loop (srv s) \<and>
     m_self (co_conn ob) = obj \<and> pipe_inv t (view s ob l) \<and> chan_of (view s ob l) c \<and> m_tied c \<and> m_tie c = Some obj \<and>
     m_read_callback c = Some (CbRead obj) \<and> m_state (co_conn ob) = kConnected \<and> input_drained (view s ob l)"

lemma established_up:
  assumes "objs s self = Some (new_obj i self conn_fd n chan addr)" "loops s i = Some l" "i \<noteq> srv_loop (srv s)"
    and "reactor_inv (m_epoller l)" "isInLoopThread l t" "chans (m_epoller l) chan = Some (connection_channel conn_fd self)"
    and "m_channels (m_epoller l) conn_fd = None"
    and "loops s (srv_loop (srv s)) = Some base" "\<not> isInLoopThread base t"
  shows "\<exists>s' ob l' c base'. run_functor cf rs t i (FEstablished self) s = Inr s' \<and> conn_up t s' self ob l' c \<and>
     m_channel (co_conn ob) = chan \<and> co_loop ob = i \<and> co_wire ob = [] \<and> readable (m_output_buffer (co_conn ob)) = [] \<and>
     m_parser (co_conn ob) = HttpRequestParser_new \<and> l' = l\<lparr>m_epoller := m_epoller l'\<rparr> \<and> srv s' = srv s \<and>
     (\<forall>j. j \<noteq> self \<longrightarrow> objs s' j = objs s j) \<and> loops s' (srv_loop (srv s)) = Some base' \<and>
     m_pending_functors base' =
       m_pending_functors base @ (if up_auto (upper s) then [FOther (idle_timer rs self)] else [])"
proof -
  let ?ob = "new_obj i self conn_fd n chan addr"
  let ?w = "view s ?ob l"
  have ob: "co_conn ?ob = (TcpConnection_new self conn_fd n chan)\<lparr>m_ip_port := Some (m_ip addr, m_port addr)\<rparr>"
    "co_loop ?ob = i" "co_wire ?ob = []" "\<not> co_shut ?ob" by (simp_all add: new_obj_def)
  have w: "reactor_inv (m_epoller (m_loop ?w))" "isInLoopThread (m_loop ?w) t"
    "conn ?w = (TcpConnection_new self conn_fd n chan)\<lparr>m_ip_port := Some (m_ip addr, m_port addr)\<rparr>"
    "chans (m_epoller (m_loop ?w)) chan = Some (connection_channel conn_fd self)"
    "m_channels (m_epoller (m_loop ?w)) conn_fd = None" "\<not> wr_shut ?w" "wire ?w = []"
    using assms ob by simp_all
  obtain w' c where w': "connectionEstablished (server_onConnection rs t) t ?w = server_onConnection rs t w'"
    "pipe_inv t w'" "m_state (conn w') = kConnected" "wire w' = []" "outq w' = []" "env w' = env ?w" "chan_of w' c"
    "m_tied c" "m_tie c = Some self" "m_read_callback c = Some (CbRead self)"
    "w' = ?w\<lparr>conn := (conn ?w)\<lparr>m_state := kConnected\<rparr>, m_loop := (m_loop ?w)\<lparr>m_epoller := m_epoller (m_loop w')\<rparr>\<rparr>"
    using connectionEstablished_effect [OF w, of "server_onConnection rs t"] by blast
  have c': "conn w' = (co_conn ?ob)\<lparr>m_state := kConnected\<rparr>" "m_loop w' = l\<lparr>m_epoller := m_epoller (m_loop w')\<rparr>"
    using arg_cong [OF w'(11), of conn] arg_cong [OF w'(11), of m_loop] by simp_all
  define base' where "base' = (if up_auto (upper s) then queueInLoop base t (FOther (idle_timer rs self)) else base)"
  let ?b = "retrieveAll (m_input_buffer (conn w'))"
  let ?w2 = "touched w' ?b base' (upper s)"
  have self: "m_self (conn w') = self" "m_channel (conn w') = chan" "m_parser (conn w') = HttpRequestParser_new"
    "buf_inv (m_input_buffer (conn w'))"
    using c'(1) ob(1) by (simp_all add: TcpConnection_new_def buf_inv_default)
  have "server_onConnection rs t w' = Inr ?w2"
    using server_onConnection_effect [of w' base t rs] assms(8,9) w'(3,6) self(1)
    by (simp add: isConnected_def base'_def)
  then have run: "run_functor cf rs t i (FEstablished self) s = Inr (unfocus self i ?w2)"
    using assms(1,2) ob(2) w'(1) by (simp add: run_functor_def run_server_functor_def on_conn_view)
  let ?s = "unfocus self i ?w2"
  let ?ob2 = "\<lparr>co_conn = conn ?w2, co_loop = i, co_wire = wire ?w2, co_shut = wr_shut ?w2\<rparr>"
  have base: "loops ?s (srv_loop (srv s)) = Some base'" using assms(3) w'(6) by simp
  have "pipe_inv t (view ?s ?ob2 (m_loop w'))"
    using w'(2) by (subst pipe_inv_cong [of _ w']) simp_all
  then have up: "conn_up t ?s self ?ob2 (m_loop w') c"
    using w'(3,6-10) assms(3) self input_drained_retrieveAll [OF self(4), of "view ?s ?ob2 (m_loop w')"]
    by (simp add: conn_up_def chan_of_def)
  show ?thesis
    using run up base c'(2) self w'(4,5,6)
    by (intro exI [of _ ?s] exI [of _ ?ob2] exI [of _ "m_loop w'"] exI [of _ c] exI [of _ base'])
      (simp add: outq_def, simp add: base'_def)
qed


text \<open>A read of the connection in the server's world is one in the HTTP server's view of it.\<close>

lemma read_lifts:
  assumes "loops (env w) (srv_loop (srv (env w))) = Some base" "isInLoopThread (m_loop w) t"
    and "readFd (m_input_buffer (conn w)) 0 rv = Inr (n, b)" "0 < n" "w1 = w\<lparr>conn := (conn w)\<lparr>m_input_buffer := b\<rparr>\<rparr>"
    and "message_callback w1 = with_http op w1"
  shows "conn_handleRead message_callback close_callback strerror gso t rv w =
       res_bind (op (http_of w1 base)) (\<lambda>v. Inr (of_http (env w) v))"
    and "conn_handleRead op close' strerror gso t rv (http_of w base) = op (http_of w1 base)"
  using assms by (simp_all add: conn_handleRead_def with_http_base http_of_def)

lemma request_up:
  assumes "conn_up t s obj ob l c" "loops s (srv_loop (srv s)) = Some base"
    and "m_parse_state (m_parser (co_conn ob)) = kParseRequestLine" "request_ok m tg v hs" "search_crlf xs = None"
    and "rs_read rs = Inr (request_text m tg v hs @ xs)" "rs_shutdown rs = None"
    and "reply = reply_of (m_response_callback cf) (rs_junk rs) (parsed_request (m_request (m_parser (co_conn ob))) m tg v hs)"
    and "write_ok (length (response_text reply)) (rs_write rs)" "readable (m_output_buffer (co_conn ob)) = []"
  shows "\<exists>s' ob' l'. run_callback cf rs t (co_loop ob) (CbRead obj) s = Inr s' \<and> objs s' obj = Some ob' \<and>
     co_wire ob' @ readable (m_output_buffer (co_conn ob')) = co_wire ob @ response_text reply \<and>
     m_state (co_conn ob') = (if closeConnection reply then kDisconnecting else kConnected) \<and>
     loops s' (co_loop ob) = Some l' \<and> l' = l\<lparr>m_epoller := m_epoller l'\<rparr> \<and> srv s' = srv s \<and>
     (\<forall>j. j \<noteq> obj \<longrightarrow> objs s' j = objs s j) \<and> loops s' (srv_loop (srv s)) = Some base"
proof -
  let ?w = "view s ob l" and ?e = "call_env_of cf rs t obj" and ?d = "request_text m tg v hs @ xs"
  let ?op = "onMessage (m_response_callback cf) (rs_junk rs) ?e"
  have up: "objs s obj = Some ob" "loops s (co_loop ob) = Some l" "co_loop ob \<noteq> srv_loop (srv s)"
    "m_self (co_conn ob) = obj" "pipe_inv t ?w" "m_state (co_conn ob) = kConnected" "input_drained ?w"
    using assms(1) by (simp_all add: conn_up_def)
  have e: "ce_tid ?e = t" "ce_write ?e = rs_write rs" "ce_shutdown ?e = None"
    using assms(7) by (simp_all add: call_env_of_def)
  have thr: "isInLoopThread l t" using up(5) by (simp add: pipe_inv_def)
  have "pipe_inv t (http_of ?w base)" using up(5) by (subst pipe_inv_cong [of _ ?w]) simp_all
  then have sv: "serving ?e (http_of ?w base)" using e(1,3) up(6) by (simp add: serving_def)
  have dr: "input_drained (http_of ?w base)" using up(7) by (simp add: input_drained_def)
  have fits: "reply_fits ?e (http_of ?w base) (response_text reply)"
    using assms(9,10) e(2) by (simp add: reply_fits_def outq_def)
  let ?p = "(m_parser (co_conn ob))\<lparr>m_request := parsed_request (m_request (m_parser (co_conn ob))) m tg v hs,
      m_parse_state := kParseGotCompleteRequest\<rparr>"
  have parsed: "snd (run_lines (m_parser (conn (http_of ?w base))) (lines_of ?d)) = ?p"
    using parsed_state [OF assms(4,5,3)] by simp
  obtain v' where v': "conn_handleRead ?op Inr (cf_strerror cf) (rs_so_error rs) t (Inr ?d) (http_of ?w base) = Inr v'"
    "wire v' @ outq v' = wire (http_of ?w base) @ outq (http_of ?w base) @ response_text reply"
    "m_state (conn v') = (if closeConnection reply then kDisconnecting else kConnected)"
    using read_outcome(2) [OF sv dr request_text_ne parsed refl, of "m_response_callback cf" "rs_junk rs" Inr "cf_strerror cf" "rs_so_error rs"]
      fits e(1) assms(8) by auto
  obtain b where b: "readFd (m_input_buffer (conn ?w)) 0 (Inr ?d) = Inr (int (length ?d), b)"
  proof -
    have "buf_inv (m_input_buffer (conn ?w))" "readable (m_input_buffer (conn ?w)) = []"
      "m_read_index (m_input_buffer (conn ?w)) \<le> kPrePendIndex"
      using up(7) by (simp_all add: input_drained_def)
    then show ?thesis using readFd_within [of "m_input_buffer (conn ?w)" ?d 0] readFd_beyond [of "m_input_buffer (conn ?w)" ?d 0]
      that by force
  qed
  let ?w1 = "?w\<lparr>conn := (conn ?w)\<lparr>m_input_buffer := b\<rparr>\<rparr>"
  have mc: "server_onMessage cf rs t ?w1 = with_http ?op ?w1" using up(4) by (simp add: server_onMessage_def)
  have ne: "0 < int (length ?d)" using length_greater_0_conv [of ?d] request_text_ne by (simp del: length_append)
  note lift = read_lifts [of ?w base t "Inr ?d" "int (length ?d)" b ?w1 "server_onMessage cf rs t" ?op, OF _ _ b ne refl mc]
  have run: "?op (http_of ?w1 base) = Inr v'"
    using lift(2) [of Inr "cf_strerror cf" "rs_so_error rs"] v'(1) assms(2) thr by simp
  then have "shell v' = shell (http_of ?w1 base)"
    using thr by (intro shell_onMessage [OF run]) (simp add: e(1))
  then have sh: "m_loop v' = l\<lparr>m_epoller := m_epoller (m_loop v')\<rparr>" "env v' = env (http_of ?w base)"
    using shell_loop [of v'] shell_parts(1) by (fastforce simp: http_of_def)+
  have "run_callback cf rs t (co_loop ob) (CbRead obj) s = Inr (unfocus obj (co_loop ob) (of_http s v'))"
    using lift(1) [of "server_close t obj (co_loop ob)" "cf_strerror cf" "rs_so_error rs"] run up(1,2) assms(2,6) thr
    by (simp add: run_callback_def on_conn_view)
  then show ?thesis using v'(2,3) sh assms(2) up(3)
    by (intro exI [of _ "unfocus obj (co_loop ob) (of_http s v')"]
        exI [of _ "\<lparr>co_conn = conn v', co_loop = co_loop ob, co_wire = wire v', co_shut = wr_shut v'\<rparr>"]
        exI [of _ "m_loop v'"]) (simp add: outq_def assms(10))
qed


section \<open>From the listening socket to the response\<close>

lemma handleRead_wakeup_fields [simp]:
  "m_epoller (handleRead_wakeup l) = m_epoller l" "m_thread_id (handleRead_wakeup l) = m_thread_id l"
  "m_pending_functors (handleRead_wakeup l) = m_pending_functors l"
  "m_calling_pending_functors (handleRead_wakeup l) = m_calling_pending_functors l"
  by (simp_all add: handleRead_wakeup_def)

lemma one_functor:
  assumes "loops s i = Some l" "m_pending_functors l = [f]"
    and "run_functor cf (rsf 0) tid i f (put_loop i (l\<lparr>m_calling_pending_functors := True, m_pending_functors := []\<rparr>) s) = Inr s2"
    and "loops s2 i = Some l3"
  shows "world_doPendingFunctors cf rsf tid i s = Inr (put_loop i (l3\<lparr>m_calling_pending_functors := False\<rparr>) s2)"
  using assms by (simp add: world_doPendingFunctors_def swap_functors_def)

lemma conn_up_loop:
  assumes "conn_up t s obj ob l c" "m_epoller l' = m_epoller l" "m_thread_id l' = m_thread_id l"
  shows "conn_up t (put_loop (co_loop ob) l' s) obj ob l' c"
proof -
  let ?s = "put_loop (co_loop ob) l' s"
  have "chan_of (view ?s ob l') = chan_of (view s ob l)" using assms(2) by (intro ext) (simp add: chan_of_def)
  then have "pipe_inv t (view ?s ob l') = pipe_inv t (view s ob l)"
    using assms(3) by (simp add: pipe_inv_def flow_inv_def outq_def isInLoopThread_def)
  then show ?thesis using assms \<open>chan_of (view ?s ob l') = chan_of (view s ob l)\<close>
    by (simp add: conn_up_def input_drained_def)
qed

text \<open>An event reported for the connection's channel.\<close>

lemma conn_up_reported:
  assumes "conn_up t s obj ob l c" "i = co_loop ob" "p = m_channel (co_conn ob)"
  shows "\<exists>l'. loops (reported i (e, p) c l s) i = Some l' \<and> conn_up t (reported i (e, p) c l s) obj ob l' (setRevents c e) \<and>
     m_pending_functors l' = m_pending_functors l \<and> m_calling_pending_functors l' = m_calling_pending_functors l"
proof -
  let ?c = "setRevents c e" and ?s = "reported i (e, p) c l s"
  define l' where "l' = l\<lparr>m_epoller := put_chan (m_epoller l) p ?c, m_active_channels := [p]\<rparr>"
  have a: "reactor_inv (m_epoller l)" "chans (m_epoller l) p = Some c" "updatable (m_epoller l) p c"
    "pipe_inv t (view s ob l)"
    using assms(1,3) by (simp_all add: conn_up_def chan_of_def)
  have f: "isWriting ?c = isWriting c" "m_tied ?c = m_tied c" "m_tie ?c = m_tie c" "m_read_callback ?c = m_read_callback c"
    by (simp_all add: setRevents_def isWriting_def)
  have "updatable (put_chan (m_epoller l) p ?c) p ?c"
    using a(3) by (cases "m_index c") (simp_all add: updatable_def setRevents_def)
  then have ch: "chan_of (view ?s ob l') ?c"
    using inv_setRevents [OF a(1,2), of e] assms(3) by (simp add: chan_of_def l'_def)
  have q: "isWriting c \<longleftrightarrow> readable (m_output_buffer (co_conn ob)) \<noteq> []" "reach_inv (m_output_buffer (co_conn ob))"
    using a(2,4) assms(3) by (auto simp: pipe_inv_def flow_inv_def chan_of_def outq_def)
  have "pipe_inv t (view ?s ob l')"
    using ch q f(1) a(4) by (auto simp: pipe_inv_def flow_inv_def outq_def isInLoopThread_def l'_def)
  then show ?thesis using assms(1,2) ch f
    by (intro exI [of _ l']) (simp add: conn_up_def input_drained_def reported_def l'_def)
qed

text \<open>A quiet loop: nothing queued, not running functors, its wake-up channel in place.\<close>

definition quiet_loop :: "timer_cb Timer net_loop \<Rightarrow> bool" where
  "quiet_loop l \<longleftrightarrow> m_pending_functors l = [] \<and> \<not> m_calling_pending_functors l \<and>
     (case chans (m_epoller l) (m_wakeup_channel l) of
        None \<Rightarrow> False | Some c \<Rightarrow> \<not> m_tied c \<and> m_read_callback c = Some CbWakeup)"

text \<open>The pool loop \<open>i\<close> that is next, on thread \<open>t\<close>, can take a new connection.\<close>

definition next_loop :: "('f, 'x) ServerWorld \<Rightarrow> nat" where
  "next_loop s = m_loops (m_loop_thread_pool (srv s)) ! nat (m_next_loop_index (m_loop_thread_pool (srv s)))"

lemma accept_queued:
  assumes "srv_inv s" "workers tb s" "fresh_for self chan s" "backlog s = peer # rest"
    and "loops s (next_loop s) = Some l" "rs_accept rs = Inr conn_fd" "rs_sockopt rs = (True, True)"
    and "rs_self rs = self" "rs_chan rs = chan"
  shows "\<exists>s'. run_callback cf rs tb j CbAccept s = Inr s' \<and> srv_inv s' \<and> srv_loop (srv s') = srv_loop (srv s) \<and>
     m_connections (srv s') = (m_connections (srv s))(conn_fd \<mapsto> self) \<and> backlog s' = rest \<and> upper s' = upper s \<and>
     objs s' = (objs s)(self \<mapsto> new_obj (next_loop s) self conn_fd (m_next_connection_id (srv s)) chan peer) \<and>
     loops s' = (loops s)(next_loop s \<mapsto> queueInLoop (l\<lparr>m_epoller := put_chan (m_epoller l) chan
        (connection_channel conn_fd self)\<rparr>) tb (FEstablished self))"
proof -
  let ?s = "(take_waiting s)\<lparr>ntoa_buf := m_ip peer\<rparr>"
  have f: "srv ?s = srv s" "loops ?s = loops s" "objs ?s = objs s" "backlog ?s = rest" "upper ?s = upper s"
    using assms(4) by (simp_all add: take_waiting_def)
  have s: "srv_inv ?s" "workers tb ?s" "fresh_for self chan ?s" using assms(1-3) by (simp_all add: taken_keeps)
  have i: "next_loop s = m_loops (m_loop_thread_pool (srv ?s)) ! nat (m_next_loop_index (m_loop_thread_pool (srv ?s)))"
    by (simp add: next_loop_def f(1))
  have l: "loops ?s (next_loop s) = Some l" "\<not> isInLoopThread l tb" using next_worker [OF s(2) i] assms(5) f(2) by auto
  have fr: "chans (m_epoller l) chan = None" "objs ?s self = None" using s(3) l(1) by (auto simp: fresh_for_def)
  obtain s' l' where "handleNewConnection (server_onConnection rs tb) tb self chan conn_fd peer ?s = Inr s'" "srv_inv s'"
    "srv_loop (srv s') = srv_loop (srv s)" "m_connections (srv s') = (m_connections (srv s))(conn_fd \<mapsto> self)"
    "backlog s' = rest" "upper s' = upper s" "loops s' = (loops s)(next_loop s \<mapsto> l')"
    "objs s' = (objs s)(self \<mapsto> new_obj (next_loop s) self conn_fd (m_next_connection_id (srv s)) chan peer)"
    "l' = queueInLoop (l\<lparr>m_epoller := put_chan (m_epoller l) chan (connection_channel conn_fd self)\<rparr>) tb (FEstablished self)"
    using handleNewConnection_queued [OF s(1) _ i l fr, of "server_onConnection rs tb" conn_fd peer] s(2)
    unfolding f workers_def by blast
  then show ?thesis using assms(4,6-9) by (simp add: run_callback_def handleConnect_def setKeepAlive_def setTcpNoDelay_def)
qed


lemma established_round:
  assumes "srv_inv s" "loops s i = Some l1" "i \<noteq> srv_loop (srv s)" "quiet_loop l" "isInLoopThread l t"
    and "l1 = queueInLoop (l\<lparr>m_epoller := put_chan (m_epoller l) chan (connection_channel conn_fd self)\<rparr>) tb (FEstablished self)"
    and "chans (m_epoller l) chan = None" "m_channels (m_epoller l) conn_fd = None"
    and "objs s self = Some (new_obj i self conn_fd n chan addr)"
    and "loops s (srv_loop (srv s)) = Some base" "\<not> isInLoopThread base t"
  shows "\<exists>s' ob l' c base'. world_loop_once cf rsc rsf (Inr [(EPOLLIN, m_wakeup_channel l)]) t i s = Inr s' \<and>
     conn_up t s' self ob l' c \<and> m_channel (co_conn ob) = chan \<and> co_loop ob = i \<and> co_wire ob = [] \<and>
     readable (m_output_buffer (co_conn ob)) = [] \<and> m_parser (co_conn ob) = HttpRequestParser_new \<and>
     m_pending_functors l' = [] \<and> \<not> m_calling_pending_functors l' \<and> srv s' = srv s \<and>
     (\<forall>j. j \<noteq> self \<longrightarrow> objs s' j = objs s j) \<and> loops s' (srv_loop (srv s)) = Some base' \<and>
     m_pending_functors base' =
       m_pending_functors base @ (if up_auto (upper s) then [FOther (idle_timer (rsf 0) self)] else [])"
proof -
  let ?wp = "m_wakeup_channel l"
  obtain wc where wc: "chans (m_epoller l) ?wp = Some wc" "\<not> m_tied wc" "m_read_callback wc = Some CbWakeup"
    and q: "m_pending_functors l = []" using assms(4) by (auto simp: quiet_loop_def split: option.splits)
  have ne: "?wp \<noteq> chan" using wc(1) assms(7) by auto
  have l1: "m_epoller l1 = put_chan (m_epoller l) chan (connection_channel conn_fd self)" "m_thread_id l1 = m_thread_id l"
    "m_pending_functors l1 = [FEstablished self]" by (simp_all add: assms(6) q)
  have w1: "chans (m_epoller l1) ?wp = Some wc" using wc(1) ne by (simp add: l1(1))
  define l2 where "l2 = handleRead_wakeup (l1\<lparr>m_epoller := put_chan (m_epoller l1) ?wp (setRevents wc EPOLLIN), m_active_channels := [?wp]\<rparr>)"
  define l3 where "l3 = l2\<lparr>m_calling_pending_functors := True, m_pending_functors := []\<rparr>"
  define s2 where "s2 = put_loop i l2 s"
  define s3 where "s3 = put_loop i l3 s2"
  have "handleEvent (\<lambda>obj. objs s obj \<noteq> None) (setRevents wc EPOLLIN) = [CbWakeup]"
    using wc(2,3) by (intro input_event) simp_all
  then have once: "world_loop_once cf rsc rsf (Inr [(EPOLLIN, ?wp)]) t i s = world_doPendingFunctors cf rsf t i s2"
    by (simp add: world_loop_once_one [OF assms(2) w1] run_callback_def reported_def l2_def s2_def put_loop_def)
  have l3: "m_epoller l3 = put_chan (m_epoller l1) ?wp (setRevents wc EPOLLIN)" "m_thread_id l3 = m_thread_id l"
    by (simp_all add: l3_def l2_def l1(2))
  have s3: "objs s3 self = Some (new_obj i self conn_fd n chan addr)" "loops s3 i = Some l3" "i \<noteq> srv_loop (srv s3)"
    "reactor_inv (m_epoller l3)" "isInLoopThread l3 t" "chans (m_epoller l3) chan = Some (connection_channel conn_fd self)"
    "m_channels (m_epoller l3) conn_fd = None" "loops s3 (srv_loop (srv s3)) = Some base"
  proof -
    have "reactor_inv (m_epoller l1)" using assms(1,2) by (simp add: srv_inv_def)
    from inv_setRevents [OF this w1] show "reactor_inv (m_epoller l3)" by (simp add: l3(1))
  qed (use assms(3,5,8-10) ne in \<open>simp_all add: s3_def s2_def l3 l1(1) isInLoopThread_def\<close>)
  obtain s4 ob l4 c base' where s4: "run_functor cf (rsf 0) t i (FEstablished self) s3 = Inr s4" "conn_up t s4 self ob l4 c"
    "m_channel (co_conn ob) = chan" "co_loop ob = i" "co_wire ob = []" "readable (m_output_buffer (co_conn ob)) = []"
    "m_parser (co_conn ob) = HttpRequestParser_new" "l4 = l3\<lparr>m_epoller := m_epoller l4\<rparr>" "srv s4 = srv s3"
    "\<forall>j. j \<noteq> self \<longrightarrow> objs s4 j = objs s3 j" "loops s4 (srv_loop (srv s3)) = Some base'"
    "m_pending_functors base' = m_pending_functors base @ (if up_auto (upper s3) then [FOther (idle_timer (rsf 0) self)] else [])"
    using established_up [OF s3 assms(11), of cf "rsf 0"] by blast
  define l5 where "l5 = l4\<lparr>m_calling_pending_functors := False\<rparr>"
  have "loops s4 i = Some l4" using s4(2,4) by (simp add: conn_up_def)
  then have run: "world_doPendingFunctors cf rsf t i s2 = Inr (put_loop i l5 s4)"
    using one_functor [of s2 i l2 "FEstablished self" cf rsf t s4 l4] s4(1)
    by (simp add: s2_def l2_def l1(3) s3_def [unfolded s2_def l2_def] l3_def [unfolded l2_def] l5_def)
  have up: "conn_up t (put_loop i l5 s4) self ob l5 c" using conn_up_loop [OF s4(2), of l5] s4(4) by (simp add: l5_def)
  have "m_pending_functors l5 = []" "\<not> m_calling_pending_functors l5"
    using arg_cong [OF s4(8), of m_pending_functors] by (simp_all add: l5_def l3_def)
  then show ?thesis using once run up s4(3-7,9-12) s3(3) by (auto simp: s3_def s2_def)
qed

lemma request_round:
  assumes "conn_up t s obj ob l c" "m_pending_functors l = []" "\<not> m_calling_pending_functors l"
    and "loops s (srv_loop (srv s)) = Some base" "m_parse_state (m_parser (co_conn ob)) = kParseRequestLine"
    and "request_ok m tg v hs" "search_crlf xs = None"
    and "rs = rsc (CbRead obj)" "rs_read rs = Inr (request_text m tg v hs @ xs)" "rs_shutdown rs = None"
    and "reply = reply_of (m_response_callback cf) (rs_junk rs) (parsed_request (m_request (m_parser (co_conn ob))) m tg v hs)"
    and "write_ok (length (response_text reply)) (rs_write rs)" "readable (m_output_buffer (co_conn ob)) = []"
  shows "\<exists>s' ob'. world_loop_once cf rsc rsf (Inr [(EPOLLIN, m_channel (co_conn ob))]) t (co_loop ob) s = Inr s' \<and>
     objs s' obj = Some ob' \<and> co_wire ob' @ readable (m_output_buffer (co_conn ob')) = co_wire ob @ response_text reply \<and>
     m_state (co_conn ob') = (if closeConnection reply then kDisconnecting else kConnected) \<and>
     srv s' = srv s \<and> (\<forall>j. j \<noteq> obj \<longrightarrow> objs s' j = objs s j) \<and> loops s' (srv_loop (srv s)) = Some base"
proof -
  let ?i = "co_loop ob" and ?p = "m_channel (co_conn ob)"
  have a: "objs s obj = Some ob" "loops s ?i = Some l" "chans (m_epoller l) ?p = Some c" "m_tied c" "m_tie c = Some obj"
    "m_read_callback c = Some (CbRead obj)" "?i \<noteq> srv_loop (srv s)"
    using assms(1) by (simp_all add: conn_up_def chan_of_def)
  define s1 where "s1 = reported ?i (EPOLLIN, ?p) c l s"
  obtain l1 where l1: "conn_up t s1 obj ob l1 (setRevents c EPOLLIN)" "m_pending_functors l1 = m_pending_functors l"
    "m_calling_pending_functors l1 = m_calling_pending_functors l"
    using conn_up_reported [OF assms(1) refl refl, of EPOLLIN] unfolding s1_def by blast
  have s1: "loops s1 (srv_loop (srv s1)) = Some base" "srv s1 = srv s" "objs s1 = objs s"
    using assms(4) a(7) by (simp_all add: s1_def reported_def)
  obtain s' ob' l' where s': "run_callback cf rs t ?i (CbRead obj) s1 = Inr s'" "objs s' obj = Some ob'"
    "co_wire ob' @ readable (m_output_buffer (co_conn ob')) = co_wire ob @ response_text reply"
    "m_state (co_conn ob') = (if closeConnection reply then kDisconnecting else kConnected)"
    "loops s' ?i = Some l'" "l' = l1\<lparr>m_epoller := m_epoller l'\<rparr>" "srv s' = srv s1"
    "\<forall>j. j \<noteq> obj \<longrightarrow> objs s' j = objs s1 j" "loops s' (srv_loop (srv s1)) = Some base"
    using request_up [OF l1(1) s1(1) assms(5-7,9-13)] by blast
  have "m_pending_functors l' = []" "\<not> m_calling_pending_functors l'"
    using arg_cong [OF s'(6), of m_pending_functors] arg_cong [OF s'(6), of m_calling_pending_functors] l1(2,3) assms(2,3)
    by simp_all
  from no_functors [OF s'(5) this] have nf: "world_doPendingFunctors cf rsf t ?i s' = Inr s'" .
  have "handleEvent (\<lambda>obj. objs s obj \<noteq> None) (setRevents c EPOLLIN) = [CbRead obj]"
    using a(1,4-6) by (intro input_event [of c obj]) simp_all
  then have "world_loop_once cf rsc rsf (Inr [(EPOLLIN, ?p)]) t ?i s = Inr s'"
    using s'(1) nf by (simp add: world_loop_once_one [OF a(2,3)] s1_def [symmetric] assms(8))
  then show ?thesis using s'(2-4,7-9) s1(2,3) by auto
qed


text \<open>What \<open>accept4\<close> and the allocations return for a new connection, and the results of a read that delivers a request.\<close>

definition accepts :: "results \<Rightarrow> int \<Rightarrow> nat \<Rightarrow> nat \<Rightarrow> bool" where
  "accepts rs conn_fd self chan \<longleftrightarrow> rs_accept rs = Inr conn_fd \<and> rs_sockopt rs = (True, True) \<and>
     rs_self rs = self \<and> rs_chan rs = chan"

definition delivers :: "results \<Rightarrow> char list \<Rightarrow> HttpResponse \<Rightarrow> bool" where
  "delivers rs d reply \<longleftrightarrow> rs_read rs = Inr d \<and> rs_shutdown rs = None \<and> write_ok (length (response_text reply)) (rs_write rs)"

text \<open>A server whose next pool loop, on thread \<open>t\<close>, can take a connection with descriptor \<open>conn_fd\<close>.\<close>

definition ready_for :: "http_server \<Rightarrow> nat \<Rightarrow> nat \<Rightarrow> int \<Rightarrow> nat \<Rightarrow> nat \<Rightarrow> timer_cb Timer net_loop \<Rightarrow> timer_cb Timer net_loop \<Rightarrow> bool" where
  "ready_for s tb t conn_fd self chan base l \<longleftrightarrow> srv_inv s \<and> workers tb s \<and> fresh_for self chan s \<and>
     loops s (srv_loop (srv s)) = Some base \<and> isInLoopThread base tb \<and> loops s (next_loop s) = Some l \<and>
     isInLoopThread l t \<and> quiet_loop l \<and> m_channels (m_epoller l) conn_fd = None"

lemma accepted_and_served:
  fixes s :: http_server
  assumes "ready_for s tb t conn_fd self chan base l" "backlog s = peer # rest" "accepts rs conn_fd self chan"
    and "request_ok m tg v hs" "search_crlf xs = None"
    and "reply = reply_of (m_response_callback cf) (rs_junk (rsc2 (CbRead self))) (parsed_request HttpRequest_new m tg v hs)"
    and "delivers (rsc2 (CbRead self)) (request_text m tg v hs @ xs) reply"
  shows "\<exists>s1 l1 s2 s3 ob base3. run_callback cf rs tb (srv_loop (srv s)) CbAccept s = Inr s1 \<and> backlog s1 = rest \<and>
       loops s1 (next_loop s) = Some l1 \<and> 0 < wakeup_writes l1 \<and>
     world_loop_once cf rsc1 rsf1 (Inr [(EPOLLIN, m_wakeup_channel l)]) t (next_loop s) s1 = Inr s2 \<and>
     world_loop_once cf rsc2 rsf2 (Inr [(EPOLLIN, chan)]) t (next_loop s) s2 = Inr s3 \<and>
       m_connections (srv s3) = (m_connections (srv s))(conn_fd \<mapsto> self) \<and> objs s3 self = Some ob \<and>
       co_wire ob @ readable (m_output_buffer (co_conn ob)) = response_text reply \<and>
       m_state (co_conn ob) = (if closeConnection reply then kDisconnecting else kConnected) \<and>
       (\<forall>j. j \<noteq> self \<longrightarrow> objs s3 j = objs s j) \<and> loops s3 (srv_loop (srv s)) = Some base3 \<and>
       m_pending_functors base3 =
         m_pending_functors base @ (if up_auto (upper s) then [FOther (idle_timer (rsf1 0) self)] else [])"
proof -
  let ?i = "next_loop s"
  have a: "srv_inv s" "workers tb s" "fresh_for self chan s" "loops s (srv_loop (srv s)) = Some base" "isInLoopThread base tb"
    "loops s ?i = Some l" "isInLoopThread l t" "quiet_loop l" "m_channels (m_epoller l) conn_fd = None"
    using assms(1) by (simp_all add: ready_for_def)
  have r: "rs_accept rs = Inr conn_fd" "rs_sockopt rs = (True, True)" "rs_self rs = self" "rs_chan rs = chan"
    using assms(3) by (simp_all add: accepts_def)
  have "\<not> isInLoopThread l tb" using next_worker [OF a(2), of ?i] a(6) by (auto simp: next_loop_def)
  then have ib: "?i \<noteq> srv_loop (srv s)" "\<not> isInLoopThread base t" and nt: "m_thread_id l \<noteq> tb"
    using a(4-7) by (auto simp: isInLoopThread_def)
  let ?l1 = "queueInLoop (l\<lparr>m_epoller := put_chan (m_epoller l) chan (connection_channel conn_fd self)\<rparr>) tb (FEstablished self)"
  obtain s1 where s1: "run_callback cf rs tb (srv_loop (srv s)) CbAccept s = Inr s1" "srv_inv s1" "srv_loop (srv s1) = srv_loop (srv s)"
    "m_connections (srv s1) = (m_connections (srv s))(conn_fd \<mapsto> self)" "backlog s1 = rest" "upper s1 = upper s"
    "objs s1 = (objs s)(self \<mapsto> new_obj ?i self conn_fd (m_next_connection_id (srv s)) chan peer)"
    "loops s1 = (loops s)(?i \<mapsto> ?l1)"
    using accept_queued [OF a(1-3) assms(2) a(6) r, of cf "srv_loop (srv s)"] by blast
  have f1: "loops s1 ?i = Some ?l1" "?i \<noteq> srv_loop (srv s1)" "chans (m_epoller l) chan = None"
    "objs s1 self = Some (new_obj ?i self conn_fd (m_next_connection_id (srv s)) chan peer)"
    "loops s1 (srv_loop (srv s1)) = Some base" "0 < wakeup_writes ?l1"
    using s1(3,7,8) ib(1) a(3,4,6) nt
    by (auto simp: fresh_for_def queueInLoop_def push_functor_def wakeup_def isInLoopThread_def Let_def)
  obtain s2 ob2 l2 c2 base2 where s2: "world_loop_once cf rsc1 rsf1 (Inr [(EPOLLIN, m_wakeup_channel l)]) t ?i s1 = Inr s2"
    "conn_up t s2 self ob2 l2 c2" "m_channel (co_conn ob2) = chan" "co_loop ob2 = ?i" "co_wire ob2 = []"
    "readable (m_output_buffer (co_conn ob2)) = []" "m_parser (co_conn ob2) = HttpRequestParser_new"
    "m_pending_functors l2 = []" "\<not> m_calling_pending_functors l2" "srv s2 = srv s1"
    "\<forall>j. j \<noteq> self \<longrightarrow> objs s2 j = objs s1 j" "loops s2 (srv_loop (srv s1)) = Some base2"
    "m_pending_functors base2 = m_pending_functors base @ (if up_auto (upper s1) then [FOther (idle_timer (rsf1 0) self)] else [])"
    using established_round [OF s1(2) f1(1,2) a(8,7) refl f1(3) a(9) f1(4,5) ib(2), of cf rsc1 rsf1] by blast
  have p: "m_parse_state (m_parser (co_conn ob2)) = kParseRequestLine" "m_request (m_parser (co_conn ob2)) = HttpRequest_new"
    "loops s2 (srv_loop (srv s2)) = Some base2"
    using s2(7,10,12) by (simp_all add: HttpRequestParser_new_def)
  have d: "rs_read (rsc2 (CbRead self)) = Inr (request_text m tg v hs @ xs)" "rs_shutdown (rsc2 (CbRead self)) = None"
    "write_ok (length (response_text reply)) (rs_write (rsc2 (CbRead self)))"
    using assms(7) by (simp_all add: delivers_def)
  obtain s3 ob3 where s3: "world_loop_once cf rsc2 rsf2 (Inr [(EPOLLIN, chan)]) t ?i s2 = Inr s3" "objs s3 self = Some ob3"
    "co_wire ob3 @ readable (m_output_buffer (co_conn ob3)) = response_text reply"
    "m_state (co_conn ob3) = (if closeConnection reply then kDisconnecting else kConnected)" "srv s3 = srv s2"
    "\<forall>j. j \<noteq> self \<longrightarrow> objs s3 j = objs s2 j" "loops s3 (srv_loop (srv s2)) = Some base2"
    using request_round [where rsc = rsc2, OF s2(2,8,9) p(3,1) assms(4,5) refl d(1,2) assms(6) [folded p(2)] d(3) s2(6), of rsf2] s2(3-5) by auto
  show ?thesis
    by (rule exI [of _ s1], rule exI [of _ ?l1], rule exI [of _ s2], rule exI [of _ s3], rule exI [of _ ob3], rule exI [of _ base2])
      (use s1 f1 s2 s3 in auto)
qed

section \<open>Properties\<close>

text \<open>A request is served from the listening socket to the response.  When the kernel reports
  a waiting client, the base loop accepts it, puts it into the connection map and wakes the pool
  loop whose turn it is; the round in which that loop wakes up establishes the connection and,
  when idle connections are closed, queues its idle timer in the base loop; and the round in which
  the client's well-formed request arrives leaves, on the wire and in the output buffer of that
  connection, exactly the serialised response that the response callback makes of the request the
  client wrote.  No other connection is touched.\<close>

theorem request_served:
  fixes s :: http_server
  assumes "ready_for s tb t conn_fd self chan base l" "backlog s = peer # rest" "accepts rs conn_fd self chan"
    and "request_ok m tg v hs" "search_crlf xs = None"
    and "reply = reply_of (m_response_callback cf) (rs_junk (rsc2 (CbRead self))) (parsed_request HttpRequest_new m tg v hs)"
    and "delivers (rsc2 (CbRead self)) (request_text m tg v hs @ xs) reply"
  shows "\<exists>s1 l1 s2 s3 ob base3. run_callback cf rs tb (srv_loop (srv s)) CbAccept s = Inr s1 \<and> backlog s1 = rest \<and>
       loops s1 (next_loop s) = Some l1 \<and> 0 < wakeup_writes l1 \<and>
     world_loop_once cf rsc1 rsf1 (Inr [(EPOLLIN, m_wakeup_channel l)]) t (next_loop s) s1 = Inr s2 \<and>
     world_loop_once cf rsc2 rsf2 (Inr [(EPOLLIN, chan)]) t (next_loop s) s2 = Inr s3 \<and>
       m_connections (srv s3) = (m_connections (srv s))(conn_fd \<mapsto> self) \<and> objs s3 self = Some ob \<and>
       co_wire ob @ readable (m_output_buffer (co_conn ob)) = response_text reply \<and>
       m_state (co_conn ob) = (if closeConnection reply then kDisconnecting else kConnected) \<and>
       (\<forall>j. j \<noteq> self \<longrightarrow> objs s3 j = objs s j) \<and> loops s3 (srv_loop (srv s)) = Some base3 \<and>
       m_pending_functors base3 =
         m_pending_functors base @ (if up_auto (upper s) then [FOther (idle_timer (rsf1 0) self)] else [])"
  by (rule accepted_and_served [where ?rsc2.0 = rsc2, OF assms])


text \<open>A started server with one pool thread and one waiting client: base loop 0 of thread 1, pool loop 1 of thread 2.\<close>

definition woken_loop :: "nat \<Rightarrow> timer_cb Timer net_loop" where
  "woken_loop tid = \<lparr>m_looping = True, m_thread_id = tid,
     m_epoller = put_chan Reactor_new 100 (setReadCallback CbWakeup (Channel_new 5)), m_wakeup_fd = 5,
     m_wakeup_channel = 100, m_calling_pending_functors = False, m_active_channels = [],
     m_pending_functors = [], wakeup_writes = 0\<rparr>"

definition http_sample :: http_server where
  "http_sample = \<lparr>srv = (TcpServer_new 0 \<lparr>m_listen_fd = 3, m_idle_fd = 4,
         m_address = \<lparr>m_ip = ''0.0.0.0'', m_port = 9090\<rparr>, m_accept_channel = 200\<rparr> \<lparr>m_ip = ''0.0.0.0'', m_port = 9090\<rparr>)
       \<lparr>m_loop_thread_pool := \<lparr>m_base_loop = 0, m_thread_num = 1, m_next_loop_index = 0, m_loops = [1], m_threads = 1\<rparr>\<rparr>,
     loops = [0 \<mapsto> woken_loop 1, 1 \<mapsto> woken_loop 2], objs = Map.empty,
     backlog = [\<lparr>m_ip = ''10.0.0.1'', m_port = 1234\<rparr>], ntoa_buf = [], closed_fds = [], srv_log = [],
     upper = \<lparr>up_timer = snd (RBTreeTimer_new (woken_loop 1) 6 300 CbTimer), up_auto = True\<rparr>\<rparr>"

definition results_with :: "char list \<Rightarrow> nat \<Rightarrow> results" where
  "results_with d n = \<lparr>rs_read = Inr d, rs_so_error = Inr 0, rs_write = Inr n, rs_shutdown = None, rs_junk = ([], []),
     rs_mem = (\<lambda>_. []), rs_accept = Inr 8, rs_accept2 = Inl EAGAIN, rs_null_fd = 4, rs_sockopt = (True, True),
     rs_self = 50, rs_chan = 60, rs_timer_read = 8, rs_clock = (\<lambda>_. Timestamp_at 0), rs_now = (\<lambda>_. Timestamp_at 0),
     rs_now1 = (\<lambda>_. Timestamp_at 0), rs_now2 = (\<lambda>_. Timestamp_at 0), rs_kernel = 0\<rparr>"

definition sample_config :: config where
  "sample_config = \<lparr>m_response_callback = resCallback [] [], cf_strerror = (\<lambda>_. [])\<rparr>"

lemma woken_loop_facts:
  "reactor_inv (m_epoller (woken_loop tid))" "quiet_loop (woken_loop tid)" "isInLoopThread (woken_loop tid) t = (tid = t)"
  "chans (m_epoller (woken_loop tid)) p = (if p = 100 then Some (setReadCallback CbWakeup (Channel_new 5)) else None)"
  "m_channels (m_epoller (woken_loop tid)) fd = None"
  by (simp_all add: woken_loop_def quiet_loop_def isInLoopThread_def inv_put_new reactor_inv_new setReadCallback_def
      Channel_new_def Reactor_new_def [THEN arg_cong, of chans] Reactor_new_def [THEN arg_cong, of m_channels])

lemma http_sample_ready: "ready_for http_sample 1 2 8 50 60 (woken_loop 1) (woken_loop 2)"
  by (auto simp: ready_for_def http_sample_def srv_inv_def workers_def fresh_for_def next_loop_def TcpServer_new_def
      int_max_def woken_loop_facts pool_ready_def split: if_splits)

definition sample_request :: "char list" where
  "sample_request = request_text ''GET'' ''/hello?x=1'' ''HTTP/1.1'' sample_headers"

definition sample_parsed :: HttpRequest where
  "sample_parsed = parsed_request HttpRequest_new ''GET'' ''/hello?x=1'' ''HTTP/1.1'' sample_headers"

lemma sample_reply:
  "response_text (reply_of (resCallback [] []) ([], []) sample_parsed) = hello_reply" "10 \<le> length hello_reply"
  by code_simp+

theorem request_served_witness:
  "\<exists>s1 s2 s3 ob. run_callback sample_config (results_with [] 0) 1 0 CbAccept http_sample = Inr s1 \<and>
     world_loop_once sample_config (\<lambda>_. results_with [] 0) (\<lambda>_. results_with [] 0) (Inr [(EPOLLIN, 100)]) 2 1 s1 = Inr s2 \<and>
     world_loop_once sample_config (\<lambda>_. results_with sample_request 10)
       (\<lambda>_. results_with [] 0) (Inr [(EPOLLIN, 60)]) 2 1 s2 = Inr s3 \<and>
     objs s3 50 = Some ob \<and> co_wire ob @ readable (m_output_buffer (co_conn ob)) = hello_reply"
proof -
  define rsc :: "chan_cb \<Rightarrow> results" where "rsc = (\<lambda>_. results_with sample_request 10)"
  define reply where "reply = reply_of (m_response_callback sample_config) (rs_junk (rsc (CbRead 50))) sample_parsed"
  have rt: "response_text reply = hello_reply"
    using sample_reply by (simp add: reply_def sample_config_def rsc_def results_with_def)
  have ok: "backlog http_sample = \<lparr>m_ip = ''10.0.0.1'', m_port = 1234\<rparr> # []" "accepts (results_with [] 0) 8 50 60"
    "search_crlf [] = None" "next_loop http_sample = 1" "srv_loop (srv http_sample) = 0" "m_wakeup_channel (woken_loop 2) = 100"
    by (simp_all add: http_sample_def accepts_def results_with_def next_loop_def TcpServer_new_def woken_loop_def)
  have del: "delivers (rsc (CbRead 50)) (request_text ''GET'' ''/hello?x=1'' ''HTTP/1.1'' sample_headers @ []) reply"
    using sample_reply(2) by (simp add: delivers_def rsc_def results_with_def rt sample_request_def)
  from request_served [where ?rsc2.0 = rsc, OF http_sample_ready ok(1,2) sample_ok ok(3) reply_def [unfolded sample_parsed_def] del,
      of "\<lambda>_. results_with [] 0" "\<lambda>_. results_with [] 0" "\<lambda>_. results_with [] 0"]
  show ?thesis unfolding ok rt rsc_def by blast
qed

end
