(* ===== verification/ConnEffects.thy ===== *)
theory ConnEffects
  imports HttpRuns
begin

text \<open>
  What the operations of a connection do when nothing is assumed of the peer or of the kernel but
  that a \<open>write\<close> takes at most the bytes it was given: they run without a fault, keep the
  connection well formed and touch only its own channel and its own entry of the channel map.
  The theories before describe what is sent; here the unsent bytes may also be damaged by an
  append that moves the indices, and every error of the kernel is allowed.
\<close>

section \<open>Well-formed connections\<close>

text \<open>The channel of the connection object \<open>obj\<close>.\<close>

definition conn_chan :: "nat \<Rightarrow> int \<Rightarrow> chan_cb Channel \<Rightarrow> bool" where
  "conn_chan obj fd c \<longleftrightarrow> m_fd c = fd \<and> m_read_callback c = Some (CbRead obj) \<and> m_write_callback c = Some (CbWrite obj) \<and>
     m_error_callback c = Some (CbError obj) \<and> m_close_callback c = None \<and> (m_tied c \<longrightarrow> m_tie c = Some obj)"

definition conn_wf :: "nat \<Rightarrow> TcpConnection \<Rightarrow> bool" where
  "conn_wf obj co \<longleftrightarrow> m_self co = obj \<and> m_ip_port co \<noteq> None \<and> front_inv (m_input_buffer co) \<and> reach_inv (m_output_buffer co)"

text \<open>An open connection whose channel is registered, for writing exactly while output is queued.\<close>

definition up_chan :: "TcpConnection \<Rightarrow> chan_cb Channel \<Rightarrow> bool" where
  "up_chan co c \<longleftrightarrow> m_index c = kAdded \<and> isReading c \<and> m_tied c \<and>
     (isWriting c \<longleftrightarrow> readable (m_output_buffer co) \<noteq> []) \<and> (m_state co = kConnected \<or> m_state co = kDisconnecting)"

definition conn_open :: "('f, 'x) ConnWorld \<Rightarrow> chan_cb Channel \<Rightarrow> bool" where
  "conn_open w c \<longleftrightarrow> reactor_inv (m_epoller (m_loop w)) \<and> chans (m_epoller (m_loop w)) (m_channel (conn w)) = Some c \<and>
     conn_chan (m_self (conn w)) (m_conn_fd (conn w)) c \<and> conn_wf (m_self (conn w)) (conn w) \<and> up_chan (conn w) c"

text \<open>Only the own channel and the own entry of the channel map change.\<close>

definition reg_only :: "nat \<Rightarrow> int \<Rightarrow> 'cb Reactor \<Rightarrow> 'cb Reactor \<Rightarrow> bool" where
  "reg_only p fd r r' \<longleftrightarrow> reactor_inv r' \<and> (\<forall>q. q \<noteq> p \<longrightarrow> chans r' q = chans r q) \<and>
     (\<forall>d. d \<noteq> fd \<longrightarrow> m_channels r' d = m_channels r d)"

definition keeps :: "('f, 'x) ConnWorld \<Rightarrow> ('f, 'x) ConnWorld \<Rightarrow> bool" where
  "keeps w w' \<longleftrightarrow> shell w' = shell w \<and>
     reg_only (m_channel (conn w)) (m_conn_fd (conn w)) (m_epoller (m_loop w)) (m_epoller (m_loop w'))"

lemma reg_only_trans: "reg_only p fd u v \<Longrightarrow> reg_only p fd v w \<Longrightarrow> reg_only p fd u w"
  by (simp add: reg_only_def)

lemma keeps_trans:
  assumes "keeps u v" "keeps v w"
  shows "keeps u w"
proof -
  have s: "shell v = shell u" "shell w = shell v" using assms by (simp_all add: keeps_def)
  then show ?thesis using assms reg_only_trans by (fastforce simp: keeps_def shell_parts(3,4) [OF s(1)])
qed

lemma keeps_same_loop: "shell w' = shell w \<Longrightarrow> m_loop w' = m_loop w \<Longrightarrow> reactor_inv (m_epoller (m_loop w)) \<Longrightarrow> keeps w w'"
  by (simp add: keeps_def reg_only_def)

lemma keeps_thread: "keeps w w' \<Longrightarrow> isInLoopThread (m_loop w') tid \<longleftrightarrow> isInLoopThread (m_loop w) tid"
  using shell_thread by (auto simp: keeps_def)

text \<open>An operation that succeeds, keeps the connection open and touches nothing else.\<close>

definition runs_open :: "('f, 'x) ConnWorld \<Rightarrow> ('f, 'x) ConnWorld result \<Rightarrow> bool" where
  "runs_open w r \<longleftrightarrow> (\<exists>w' c. r = Inr w' \<and> conn_open w' c \<and> keeps w w')"

lemma runs_openI: "r = Inr w' \<Longrightarrow> conn_open w' c \<Longrightarrow> keeps w w' \<Longrightarrow> runs_open w r"
  by (auto simp: runs_open_def)

lemma runs_open_via: "runs_open v r \<Longrightarrow> keeps w v \<Longrightarrow> runs_open w r"
  by (auto simp: runs_open_def intro: keeps_trans)

lemma runs_open_bind:
  assumes "runs_open w r" "\<And>v c. r = Inr v \<Longrightarrow> conn_open v c \<Longrightarrow> keeps w v \<Longrightarrow> runs_open v (f v)"
  shows "runs_open w (res_bind r f)"
  using assms runs_open_via by (fastforce simp: runs_open_def [of w r])

lemma conn_open_same:
  "m_loop w' = m_loop w \<Longrightarrow> m_channel (conn w') = m_channel (conn w) \<Longrightarrow> m_self (conn w') = m_self (conn w) \<Longrightarrow>
   m_conn_fd (conn w') = m_conn_fd (conn w) \<Longrightarrow> conn_wf (m_self (conn w')) (conn w') \<Longrightarrow> up_chan (conn w') c \<Longrightarrow>
   conn_open w c \<Longrightarrow> conn_open w' c"
  by (simp add: conn_open_def)

text \<open>Setting the mask of a registered channel to a nonzero one.\<close>

lemma chan_op_added:
  assumes "conn_open w c" "f (m_events c) \<noteq> 0"
  shows "\<exists>r. chan_op (set_and_update f) w = Inr (w\<lparr>m_loop := (m_loop w)\<lparr>m_epoller := r\<rparr>\<rparr>) \<and> reactor_inv r \<and>
     chans r = (chans (m_epoller (m_loop w)))(m_channel (conn w) \<mapsto> c\<lparr>m_events := f (m_events c)\<rparr>) \<and>
     reg_only (m_channel (conn w)) (m_conn_fd (conn w)) (m_epoller (m_loop w)) r"
proof -
  let ?r = "m_epoller (m_loop w)" and ?p = "m_channel (conn w)"
  have c: "reactor_inv ?r" "chans ?r ?p = Some c" "m_index c = kAdded" "m_fd c = m_conn_fd (conn w)"
    using assms(1) by (auto simp: conn_open_def up_chan_def conn_chan_def)
  have "updatable ?r ?p c" using c(3) by (simp add: updatable_def)
  then obtain r where r: "set_and_update f ?r ?p = Inr r" "reactor_inv r" "m_channels r = (m_channels ?r)(m_fd c \<mapsto> ?p)"
    "chans r = (chans ?r)(?p \<mapsto> c\<lparr>m_events := f (m_events c), m_index := index_after c (f (m_events c))\<rparr>)"
    using set_and_update_effect [OF c(1,2), of f] by blast
  then show ?thesis using c(3,4) assms(2)
    by (intro exI [of _ r]) (simp add: chan_op_def reg_only_def index_after_def)
qed

section \<open>The data path\<close>

lemma conn_open_parts:
  assumes "conn_open w c"
  shows "reactor_inv (m_epoller (m_loop w))" "chans (m_epoller (m_loop w)) (m_channel (conn w)) = Some c"
    "channel_isWriting w = Inr (isWriting c)" "isWriting c \<longleftrightarrow> outq w \<noteq> []" "reach_inv (m_output_buffer (conn w))"
    "front_inv (m_input_buffer (conn w))" "isReading c" "m_state (conn w) \<noteq> kDisconnected" "open_conn w"
  using assms by (auto simp: conn_open_def up_chan_def conn_wf_def channel_isWriting_def outq_def open_conn_def)

text \<open>Switching write events on or off while the output buffer becomes \<open>b\<close>.\<close>

lemma switch_writing:
  assumes "conn_open w c" "reach_inv b" "v = w\<lparr>conn := (conn w)\<lparr>m_output_buffer := b\<rparr>\<rparr>"
  shows "readable b \<noteq> [] \<Longrightarrow> runs_open w (chan_op enableWriting v)"
    and "readable b = [] \<Longrightarrow> \<exists>w' c'. chan_op disableWriting v = Inr w' \<and> conn_open w' c' \<and> keeps w w' \<and> m_state (conn w') = m_state (conn w)"
proof -
  have c: "conn_chan (m_self (conn w)) (m_conn_fd (conn w)) c" "conn_wf (m_self (conn w)) (conn w)" "up_chan (conn w) c"
    using assms(1) by (simp_all add: conn_open_def)
  have v: "conn v = (conn w)\<lparr>m_output_buffer := b\<rparr>" "m_loop v = m_loop w" "shell v = shell w" using assms(3) by simp_all
  have op: "chan_op f v = res_bind (chan_op f w) (\<lambda>u. Inr (u\<lparr>conn := (conn w)\<lparr>m_output_buffer := b\<rparr>\<rparr>))" for f
    using assms(3) by (cases "f (m_epoller (m_loop w)) (m_channel (conn w))") (simp_all add: chan_op_def)
  have "m_events c AND NOT kWriteEvent AND kReadEvent \<noteq> 0"
    using conn_open_parts(7) [OF assms(1)] by (simp add: isReading_def mask_simps(8))
  then have ne: "m_events c OR kWriteEvent \<noteq> 0" "m_events c AND NOT kWriteEvent \<noteq> 0"
    using mask_nonzero(2) by (auto simp: and.assoc [symmetric])
  obtain r where r: "chan_op enableWriting w = Inr (w\<lparr>m_loop := (m_loop w)\<lparr>m_epoller := r\<rparr>\<rparr>)" "reactor_inv r"
    "chans r = (chans (m_epoller (m_loop w)))(m_channel (conn w) \<mapsto> c\<lparr>m_events := m_events c OR kWriteEvent\<rparr>)"
    "reg_only (m_channel (conn w)) (m_conn_fd (conn w)) (m_epoller (m_loop w)) r"
    using chan_op_added [where f = "\<lambda>e. e OR kWriteEvent", OF assms(1) ne(1)] unfolding enableWriting_def by blast
  show "runs_open w (chan_op enableWriting v)" if "readable b \<noteq> []"
    using that r c assms(2) mask_simps(3,4,10)
    by (intro runs_openI [where c = "c\<lparr>m_events := m_events c OR kWriteEvent\<rparr>"], simp add: op, simp add: op [symmetric])
      (simp_all add: conn_open_def conn_chan_def conn_wf_def up_chan_def isReading_def isWriting_def keeps_def shell_def)
  obtain r where r: "chan_op disableWriting w = Inr (w\<lparr>m_loop := (m_loop w)\<lparr>m_epoller := r\<rparr>\<rparr>)" "reactor_inv r"
    "chans r = (chans (m_epoller (m_loop w)))(m_channel (conn w) \<mapsto> c\<lparr>m_events := m_events c AND NOT kWriteEvent\<rparr>)"
    "reg_only (m_channel (conn w)) (m_conn_fd (conn w)) (m_epoller (m_loop w)) r"
    using chan_op_added [where f = "\<lambda>e. e AND NOT kWriteEvent", OF assms(1) ne(2)] unfolding disableWriting_def by blast
  show "\<exists>w' c'. chan_op disableWriting v = Inr w' \<and> conn_open w' c' \<and> keeps w w' \<and> m_state (conn w') = m_state (conn w)" if "readable b = []"
    using that r c assms(2) mask_simps(7,8)
    by (intro exI [of _ "(w\<lparr>m_loop := (m_loop w)\<lparr>m_epoller := r\<rparr>, conn := (conn w)\<lparr>m_output_buffer := b\<rparr>\<rparr>)"]
        exI [of _ "c\<lparr>m_events := m_events c AND NOT kWriteEvent\<rparr>"])
      (simp add: op conn_open_def conn_chan_def conn_wf_def up_chan_def isReading_def isWriting_def keeps_def shell_def and.assoc)
qed

lemma append_reach:
  assumes "reach_inv b" "d \<noteq> []"
  shows "\<exists>b'. buf_append b d = Inr b' \<and> reach_inv b' \<and> readable b' \<noteq> []"
proof -
  have inv: "buf_inv b" using assms(1) by (simp add: reach_inv_def)
  obtain b' where b': "buf_append b d = Inr b'" using buf_append_total [OF inv] by blast
  note e = append_effect [OF inv b']
  have "0 \<le> readableBytes b" using inv by (simp add: buf_inv_def readableBytes_def)
  moreover have "0 < length d" using assms(2) by simp
  ultimately have "readableBytes b' \<noteq> 0" using e(2) by linarith
  then show ?thesis using b' reach_inv_grow [OF assms(1) e] readable_Nil [OF e(1)] by blast
qed

lemma queue_rest_open:
  assumes "conn_open w c" "d \<noteq> []"
  shows "runs_open w (queue_rest d w)"
proof -
  obtain b where b: "buf_append (m_output_buffer (conn w)) d = Inr b" "reach_inv b" "readable b \<noteq> []"
    using append_reach [OF conn_open_parts(5) [OF assms(1)] assms(2)] by blast
  let ?v = "w\<lparr>conn := (conn w)\<lparr>m_output_buffer := b\<rparr>\<rparr>"
  have wr: "channel_isWriting ?v = Inr (isWriting c)"
    using conn_open_parts(3) [OF assms(1)] by (simp add: channel_isWriting_def)
  show ?thesis
  proof (cases "isWriting c")
    case True
    then have "conn_open ?v c" using assms(1) b by (simp add: conn_open_def conn_wf_def up_chan_def)
    then show ?thesis using True b(1) wr conn_open_parts(1) [OF assms(1)]
      by (intro runs_openI [of _ ?v]) (simp_all add: queue_rest_def Let_def keeps_same_loop)
  next
    case False
    then show ?thesis using switch_writing(1) [OF assms(1) b(2) refl b(3)] b(1) wr by (simp add: queue_rest_def Let_def)
  qed
qed

text \<open>What a \<open>write\<close> that was given \<open>len\<close> bytes can return.\<close>

definition write_bound :: "nat \<Rightarrow> errno + nat \<Rightarrow> bool" where
  "write_bound len wres = (case wres of Inl _ \<Rightarrow> True | Inr n \<Rightarrow> n \<le> len)"

lemma conn_open_updates:
  "conn_open (log_line m w) c = conn_open w c" "conn_open (w\<lparr>wire := x\<rparr>) c = conn_open w c"
  "conn_open (w\<lparr>wr_shut := y\<rparr>) c = conn_open w c"
  by (simp_all add: conn_open_def)

lemma sendInLoop_open:
  assumes "conn_open w c" "isInLoopThread (m_loop w) tid" "write_bound (length msg) wres"
  shows "runs_open w (sendInLoop tid wres msg w)"
proof -
  note p = conn_open_parts [OF assms(1)]
  let ?direct = "\<not> isWriting c \<and> readableBytes (m_output_buffer (conn w)) = 0"
  obtain n k e where f: "(if ?direct then first_write wres (int (length msg)) else (0, int (length msg), False)) = (n, k, e)"
    by (metis prod_cases3)
  define w2 where "w2 = (if ?direct \<and> (\<exists>e. wres = Inl e \<and> e \<noteq> EAGAIN)
     then log_line ''TcpConnection::Send write failed'' (w\<lparr>wire := wire w @ take (nat n) msg\<rparr>)
     else w\<lparr>wire := wire w @ take (nat n) msg\<rparr>)"
  have k: "0 \<le> k \<and> k \<le> int (length msg)" "k > 0 \<Longrightarrow> drop (nat n) msg \<noteq> []"
    using f assms(3) by (auto simp: first_write_def write_bound_def split: if_splits sum.splits)
  have w2: "conn_open w2 c" "keeps w w2" using assms(1) p(1) by (simp_all add: w2_def conn_open_updates keeps_same_loop)
  have "sendInLoop tid wres msg w = (if \<not> e \<and> k > 0 then queue_rest (drop (nat n) msg) w2 else Inr w2)"
    using assms(2) p(3,8) k(1) f by (simp add: sendInLoop_def Let_def w2_def)
  then show ?thesis
    using k(2) w2 runs_open_via [OF queue_rest_open [OF w2(1)] w2(2)] by (auto intro: runs_openI)
qed

text \<open>\<open>shutDownInLoop\<close> at any stage of the connection: nothing but the log and the write side changes.\<close>

lemma shutDownInLoop_runs:
  assumes "chans (m_epoller (m_loop w)) (m_channel (conn w)) = Some c" "isInLoopThread (m_loop w) tid"
  shows "\<exists>w'. shutDownInLoop strerror tid sres w = Inr w' \<and> m_loop w' = m_loop w \<and> conn w' = conn w \<and> env w' = env w"
  using assms by (cases sres) (auto simp: shutDownInLoop_def channel_isWriting_def)

lemma shutDownInLoop_open:
  assumes "conn_open w c" "isInLoopThread (m_loop w) tid"
  shows "runs_open w (shutDownInLoop strerror tid sres w)"
proof -
  obtain w' where w': "shutDownInLoop strerror tid sres w = Inr w'" "m_loop w' = m_loop w" "conn w' = conn w"
    using shutDownInLoop_runs [OF conn_open_parts(2) [OF assms(1)] assms(2)] by blast
  then show ?thesis using assms(1) conn_open_parts(1) [OF assms(1)] shell_shutDownInLoop [OF w'(1)]
    by (intro runs_openI [OF w'(1), of c]) (simp_all add: conn_open_def keeps_same_loop)
qed

lemma shutDown_open:
  assumes "conn_open w c" "isInLoopThread (m_loop w) tid"
  shows "runs_open w (shutDown strerror tid sres w)"
proof (cases "m_state (conn w) = kConnected")
  case True
  let ?v = "log_line (shutdown_message (conn w)) (set_state kDisconnecting w)"
  have v: "conn_open ?v c" using assms(1) by (simp add: conn_open_updates) (simp add: conn_open_def conn_wf_def up_chan_def)
  then show ?thesis using True assms(2) conn_open_parts(1) [OF assms(1)]
    runs_open_via [OF shutDownInLoop_open [OF v, of tid strerror sres], of w]
    by (simp add: shutDown_def Let_def keeps_same_loop)
qed (use assms(1) conn_open_parts(1) [OF assms(1)] in \<open>auto simp: shutDown_def keeps_same_loop intro: runs_openI\<close>)

lemma handleWrite_open:
  assumes "conn_open w c" "isInLoopThread (m_loop w) tid" "write_bound (length (outq w)) wres"
  shows "runs_open w (conn_handleWrite strerror tid wres sres w)"
proof -
  note p = conn_open_parts [OF assms(1)]
  have triv: "runs_open w (Inr w)" using assms(1) p(1) by (auto simp: keeps_same_loop intro: runs_openI)
  show ?thesis
  proof (cases "isWriting c \<and> (\<exists>n. wres = Inr n)")
    case False
    then show ?thesis using assms(2) p(3) triv by (cases wres) (auto simp: conn_handleWrite_def)
  next
    case True
    then obtain n where n: "wres = Inr n" "n \<le> length (outq w)" using assms(3) by (auto simp: write_bound_def)
    let ?b = "m_output_buffer (conn w)"
    define w1 where "w1 = w\<lparr>wire := wire w @ take n (Prelude.slice (m_buffer ?b) (peek ?b) (peek ?b + readableBytes ?b))\<rparr>"
    have w1: "conn_open w1 c" "keeps w w1" "conn w1 = conn w" "m_loop w1 = m_loop w"
      using assms(1) p(1) by (simp_all add: w1_def conn_open_updates keeps_same_loop)
    show ?thesis
    proof (cases "n = 0")
      case True
      then show ?thesis using n(1) assms(2) p(3) \<open>isWriting c \<and> _\<close> w1
        by (intro runs_openI [of _ w1 c]) (simp_all add: conn_handleWrite_def w1_def Let_def)
    next
      case False
      have inv: "buf_inv ?b" using p(5) by (simp add: reach_inv_def)
      have len: "int n \<le> readableBytes ?b" using n(2) length_readable [OF inv] by (simp add: outq_def)
      obtain b where b: "retrieve ?b (int n) = Inr b" "buf_inv b" using retrieve_keeps [OF inv _ len] by auto
      have rb: "reach_inv b" using reach_inv_retrieve [OF p(5) _ b(1)] by simp
      let ?v = "w1\<lparr>conn := (conn w1)\<lparr>m_output_buffer := b\<rparr>\<rparr>"
      have run: "conn_handleWrite strerror tid wres sres w =
          (if readableBytes b = 0 then res_bind (chan_op disableWriting ?v) (\<lambda>w3.
             if m_state (conn w3) = kDisconnecting then shutDownInLoop strerror tid sres w3 else Inr w3) else Inr ?v)"
        using n(1) assms(2) p(3) \<open>isWriting c \<and> _\<close> False b(1) by (simp add: conn_handleWrite_def w1_def Let_def)
      show ?thesis
      proof (cases "readable b = []")
        case True
        obtain w3 c3 where w3: "chan_op disableWriting ?v = Inr w3" "conn_open w3 c3" "keeps w1 w3"
          using switch_writing(2) [OF w1(1) rb refl True] by blast
        have "runs_open w3 (if m_state (conn w3) = kDisconnecting then shutDownInLoop strerror tid sres w3 else Inr w3)"
          using shutDownInLoop_open [OF w3(2)] w3 keeps_thread [OF w3(3)] assms(2) w1(4)
          by (auto intro!: runs_openI [of "Inr w3" w3 c3] keeps_same_loop conn_open_parts(1))
        from runs_open_via [OF this keeps_trans [OF w1(2) w3(3)]] show ?thesis
          using run True readable_Nil [OF b(2)] w3(1) by simp
      next
        case False
        then have "conn_open ?v c" using w1(1) rb \<open>isWriting c \<and> _\<close> by (simp add: conn_open_def conn_wf_def up_chan_def)
        moreover have "keeps w1 ?v" using w1(4) p(1) by (intro keeps_same_loop) (simp_all add: shell_def)
        ultimately show ?thesis using run False readable_Nil [OF b(2)] keeps_trans [OF w1(2)] by (auto intro: runs_openI)
      qed
    qed
  qed
qed

section \<open>A message\<close>

text \<open>What the server writes for the bytes \<open>d\<close> a read delivers, if it writes at all.\<close>

definition answer :: "(HttpRequest \<Rightarrow> HttpResponse \<Rightarrow> HttpResponse) \<Rightarrow> string \<times> string \<Rightarrow> TcpConnection \<Rightarrow> char list \<Rightarrow> char list" where
  "answer rc junk co d =
     (let p = snd (run_lines (m_parser co) (lines_of d))
      in if m_parse_state p = kParseErrno then bad_request_text
         else if m_parse_state p = kParseGotCompleteRequest then response_text (reply_of rc junk (m_request p))
         else [])"

lemma send_open:
  assumes "conn_open w c" "isInLoopThread (m_loop w) tid"
  shows "write_bound (length d) wres \<Longrightarrow> runs_open w (send_string tid wres src d w)"
    and "write_bound (length (readable b)) wres \<Longrightarrow>
      \<exists>b' w' c'. send_buffer tid wres src b w = Inr (b', w') \<and> conn_open w' c' \<and> keeps w w'"
proof -
  have triv: "runs_open w (Inr w)" using assms(1) conn_open_parts(1) [OF assms(1)] by (auto simp: keeps_same_loop intro: runs_openI)
  show "runs_open w (send_string tid wres src d w)" if "write_bound (length d) wres"
    using sendInLoop_open [OF assms that] triv assms(2) by (simp add: send_string_def send_bytes_def)
  show "\<exists>b' w' c'. send_buffer tid wres src b w = Inr (b', w') \<and> conn_open w' c' \<and> keeps w w'"
    if "write_bound (length (readable b)) wres"
  proof -
    have "Prelude.slice (m_buffer b) (peek b) (peek b + readableBytes b) = readable b"
      by (simp add: readable_def peek_def buf_defs)
    then show ?thesis using sendInLoop_open [OF assms that] triv assms(2)
      by (auto simp: send_buffer_def runs_open_def Let_def)
  qed
qed

lemma handleRequest_open:
  fixes w :: "'f http_world"
  assumes "conn_open w c" "isInLoopThread (m_loop w) (ce_tid e)"
    and "write_bound (length (response_text (reply_of rc junk request))) (ce_write e)"
  shows "runs_open w (handleRequest rc junk e request w)"
proof -
  let ?r = "reply_of rc junk request"
  obtain b where b: "appendToBuffer ?r Buffer_default = Inr b" "readable b = response_text ?r"
    using appendToBuffer_front [OF front_inv_default] by auto
  obtain b' w1 c1 where w1: "send_buffer (ce_tid e) (ce_write e) 0 b w = Inr (b', w1)" "conn_open w1 c1" "keeps w w1"
    using send_open(2) [OF assms(1,2), of b "ce_write e" 0] assms(3) b(2) by auto
  have "handleRequest rc junk e request w =
      (if closeConnection ?r then shutDown (ce_strerror e) (ce_tid e) (ce_shutdown e) w1 else Inr w1)"
    using b(1) w1(1) by (simp add: handleRequest_def reply_of_def Let_def)
  moreover have "runs_open w1 (shutDown (ce_strerror e) (ce_tid e) (ce_shutdown e) w1)"
    using shutDown_open [OF w1(2)] keeps_thread [OF w1(3)] assms(2) by simp
  ultimately show ?thesis using w1 runs_open_via by (auto intro: runs_openI)
qed

lemma conn_open_input:
  assumes "conn_open w c" "conn v = (conn w)\<lparr>m_input_buffer := b, m_parser := p, m_last_receive_time := t\<rparr>"
    "m_loop v = m_loop w" "front_inv b"
  shows "conn_open v c"
  using assms by (simp add: conn_open_def conn_wf_def up_chan_def)

lemma onMessage_open:
  fixes w :: "'f http_world"
  assumes "conn_open (w\<lparr>conn := (conn w)\<lparr>m_input_buffer := b0\<rparr>\<rparr>) c" "isInLoopThread (m_loop w) (ce_tid e)"
    and "buf_inv (m_input_buffer (conn w))"
    and "write_bound (length (answer rc junk (conn w) (readable (m_input_buffer (conn w))))) (ce_write e)"
  shows "runs_open w (onMessage rc junk e w)"
proof -
  define p where "p = snd (run_lines (m_parser (conn w)) (lines_of (readable (m_input_buffer (conn w)))))"
  obtain b where b: "parseContent (m_parser (conn w)) (m_input_buffer (conn w)) = Inr (m_parse_state p, p, b)" "buf_inv b"
    using parseContent_run [OF assms(3), of "m_parser (conn w)"] unfolding p_def by blast
  define w1 where "w1 = (if m_auto_close_idle_connection (env w)
     then w\<lparr>conn := updateLastReceiveTime (ce_now e) (conn w)\<rparr> else w)"
  define w2 where "w2 = set_input (retrieveAll b) (w1\<lparr>conn := (conn w1)\<lparr>m_parser := p\<rparr>\<rparr>)"
  have "\<exists>t. conn w2 = (conn w)\<lparr>m_input_buffer := retrieveAll b, m_parser := p, m_last_receive_time := t\<rparr>"
    by (cases "conn w") (simp add: w2_def w1_def set_input_def updateLastReceiveTime_def)
  moreover have l: "m_loop w2 = m_loop w" "shell w2 = shell w"
    by (simp_all add: w2_def w1_def set_input_def shell_def updateLastReceiveTime_def)
  ultimately have w2: "conn_open w2 c"
    using assms(1) front_inv_retrieveAll [OF b(2)] conn_open_input [of _ c w2] by fastforce
  have k: "keeps w w2" using l conn_open_parts(1) [OF w2] by (intro keeps_same_loop) simp_all
  let ?v = "log_line (parse_error_message (conn w2)) w2"
  have v: "conn_open ?v c" "keeps w2 ?v" using w2 conn_open_parts(1) [OF w2] by (simp_all add: conn_open_updates keeps_same_loop)
  have bad: "runs_open w2 (res_bind (send_string (ce_tid e) (ce_write e) 0 bad_request_text ?v)
       (shutDown (ce_strerror e) (ce_tid e) (ce_shutdown e)))" if "m_parse_state p = kParseErrno"
    using that assms(2,4) l(1) send_open(1) [OF v(1), of "ce_tid e" bad_request_text "ce_write e" 0]
    by (intro runs_open_via [OF _ v(2)] runs_open_bind)
      (auto simp: answer_def p_def [symmetric] keeps_thread intro!: shutDown_open)
  have good: "runs_open w2 (handleRequest rc junk e (m_request p) w2)"
    if "m_parse_state p \<noteq> kParseErrno" "m_parse_state p = kParseGotCompleteRequest"
    using that assms(2,4) l(1) by (intro handleRequest_open [OF w2]) (auto simp: answer_def p_def [symmetric])
  have w1: "m_parser (conn w1) = m_parser (conn w)" "m_input_buffer (conn w1) = m_input_buffer (conn w)"
    by (simp_all add: w1_def updateLastReceiveTime_def)
  have "onMessage rc junk e w =
      (if m_parse_state p = kParseErrno then res_bind (send_string (ce_tid e) (ce_write e) 0 bad_request_text ?v)
         (shutDown (ce_strerror e) (ce_tid e) (ce_shutdown e))
       else if m_parse_state p = kParseGotCompleteRequest then handleRequest rc junk e (m_request p) w2 else Inr w2)"
    using b(1) w1 by (simp add: onMessage_def w1_def [symmetric] w2_def getRequest_def Let_def)
  moreover have "runs_open w2 (Inr w2)" using w2 conn_open_parts(1) [OF w2] by (auto simp: keeps_same_loop intro: runs_openI)
  ultimately have "runs_open w2 (onMessage rc junk e w)" using bad good by simp
  then show ?thesis using k by (rule runs_open_via)
qed

section \<open>Effects in the server's world\<close>

text \<open>
  A callback or functor of the connection \<open>obj\<close> on its loop's thread: the object becomes \<open>ob'\<close>,
  the reactor of its loop \<open>r\<close>, and the functors \<open>fs\<close> are queued in the base loop.
\<close>

definition conn_effect :: "http_server \<Rightarrow> nat \<Rightarrow> ConnObj \<Rightarrow> ConnObj \<Rightarrow> chan_cb Reactor \<Rightarrow> timer_cb Timer loop_task list \<Rightarrow>
   http_server \<Rightarrow> bool" where
  "conn_effect s obj ob ob' r fs s' \<longleftrightarrow> (\<exists>l base base'.
     objs s obj = Some ob \<and> loops s (co_loop ob) = Some l \<and> loops s (srv_loop (srv s)) = Some base \<and>
     srv s' = srv s \<and> upper s' = upper s \<and> objs s' = (objs s)(obj \<mapsto> ob') \<and>
     co_loop ob' = co_loop ob \<and> m_channel (co_conn ob') = m_channel (co_conn ob) \<and> m_conn_fd (co_conn ob') = m_conn_fd (co_conn ob) \<and>
     loops s' = (loops s)(co_loop ob \<mapsto> l\<lparr>m_epoller := r\<rparr>, srv_loop (srv s) \<mapsto> base') \<and>
     reg_only (m_channel (co_conn ob)) (m_conn_fd (co_conn ob)) (m_epoller l) r \<and>
     m_epoller base' = m_epoller base \<and> m_thread_id base' = m_thread_id base \<and>
     m_pending_functors base' = m_pending_functors base @ fs)"

text \<open>Where an object and the loops it needs are.\<close>

definition located :: "http_server \<Rightarrow> nat \<Rightarrow> ConnObj \<Rightarrow> timer_cb Timer net_loop \<Rightarrow> timer_cb Timer net_loop \<Rightarrow> nat \<Rightarrow> bool" where
  "located s obj ob l base t \<longleftrightarrow> objs s obj = Some ob \<and> loops s (co_loop ob) = Some l \<and> loops s (srv_loop (srv s)) = Some base \<and>
     co_loop ob \<noteq> srv_loop (srv s) \<and> m_self (co_conn ob) = obj \<and> isInLoopThread l t \<and> \<not> isInLoopThread base t"

text \<open>The object a view is put back as.\<close>

definition obj_of :: "nat \<Rightarrow> ('f, 'x) conn_view \<Rightarrow> ConnObj" where
  "obj_of i w = \<lparr>co_conn = conn w, co_loop = i, co_wire = wire w, co_shut = wr_shut w\<rparr>"

lemma obj_of_fields [simp]: "co_conn (obj_of i w) = conn w" "co_loop (obj_of i w) = i"
  by (simp_all add: obj_of_def)

lemma view_effect:
  assumes "located s obj ob l base t" "op (view s ob l) = Inr w'" "shell w' = shell (view s ob l)"
    "reg_only (m_channel (co_conn ob)) (m_conn_fd (co_conn ob)) (m_epoller l) (m_epoller (m_loop w'))"
  shows "on_conn op obj s = Inr (unfocus obj (co_loop ob) w') \<and>
     conn_effect s obj ob (obj_of (co_loop ob) w') (m_epoller (m_loop w')) [] (unfocus obj (co_loop ob) w')"
proof -
  note sh = shell_parts [OF assms(3), simplified] shell_loop [OF assms(3), simplified]
  have l: "objs s obj = Some ob" "loops s (co_loop ob) = Some l" "loops s (srv_loop (srv s)) = Some base"
    "co_loop ob \<noteq> srv_loop (srv s)" using assms(1) by (simp_all add: located_def)
  have "(loops s)(co_loop ob \<mapsto> m_loop w') = (loops s)(co_loop ob \<mapsto> l\<lparr>m_epoller := m_epoller (m_loop w')\<rparr>, srv_loop (srv s) \<mapsto> base)"
    using sh(6) l(3,4) by auto
  then show ?thesis
    using assms(2,4) l sh(1-5) by (auto simp: on_conn_view conn_effect_def obj_of_def)
qed

lemma open_effect:
  assumes "located s obj ob l base t" "runs_open (view s ob l) (op (view s ob l))"
  shows "\<exists>s' ob' r c. on_conn op obj s = Inr s' \<and> conn_effect s obj ob ob' r [] s' \<and> chans r (m_channel (co_conn ob)) = Some c \<and>
     conn_chan obj (m_conn_fd (co_conn ob)) c \<and> conn_wf obj (co_conn ob') \<and> up_chan (co_conn ob') c"
proof -
  obtain w' c where w': "op (view s ob l) = Inr w'" "conn_open w' c" "keeps (view s ob l) w'"
    using assms(2) by (auto simp: runs_open_def)
  have sh: "shell w' = shell (view s ob l)" "reg_only (m_channel (co_conn ob)) (m_conn_fd (co_conn ob)) (m_epoller l) (m_epoller (m_loop w'))"
    using w'(3) by (simp_all add: keeps_def)
  from view_effect [where op = op, OF assms(1) w'(1) sh] show ?thesis
    using w'(2) shell_parts(2-4) [OF sh(1)] assms(1)
    by (intro exI [of _ "unfocus obj (co_loop ob) w'"] exI [of _ "obj_of (co_loop ob) w'"] exI [of _ "m_epoller (m_loop w')"]
        exI [of _ c]) (simp add: conn_open_def located_def)
qed

text \<open>The server's message handler is the HTTP server's one on the connection's view.\<close>

lemma conn_open_http: "conn_open (http_of w base) c = conn_open w c"
  by (simp add: conn_open_def)

lemma server_onMessage_open:
  assumes "loops (env w) (srv_loop (srv (env w))) = Some base" "isInLoopThread (m_loop w) tid"
    and "conn_open (w\<lparr>conn := (conn w)\<lparr>m_input_buffer := b0\<rparr>\<rparr>) c" "buf_inv (m_input_buffer (conn w))"
    and "write_bound (length (answer (m_response_callback cf) (rs_junk rs) (conn w) (readable (m_input_buffer (conn w))))) (rs_write rs)"
  shows "runs_open w (server_onMessage cf rs tid w)"
proof -
  let ?e = "call_env_of cf rs tid (m_self (conn w))" and ?h = "http_of w base"
  have e: "ce_tid ?e = tid" "ce_write ?e = rs_write rs" by (simp_all add: call_env_of_def)
  have "conn_open (?h\<lparr>conn := (conn ?h)\<lparr>m_input_buffer := b0\<rparr>\<rparr>) c" using assms(3) by (simp add: conn_open_def)
  from onMessage_open [OF this, of ?e "m_response_callback cf" "rs_junk rs"] assms(2,4,5) e
  obtain v c' where v: "onMessage (m_response_callback cf) (rs_junk rs) ?e ?h = Inr v" "conn_open v c'" "keeps ?h v"
    by (auto simp: runs_open_def)
  have sh: "shell v = shell ?h" "env v = env ?h" using v(3) shell_parts(1) by (auto simp: keeps_def)
  have "\<lparr>up_timer = base_timer (env v), up_auto = m_auto_close_idle_connection (env v)\<rparr> = upper (env w)"
    using sh(2) by simp
  then have "env (of_http (env w) v) = env w" using sh(2) assms(1) by (simp add: put_loop_def fun_upd_idem)
  then have "shell (of_http (env w) v) = shell w" using sh(1) by (simp add: shell_def)
  moreover have "conn_open (of_http (env w) v) c'" using v(2) by (simp add: conn_open_def)
  ultimately show ?thesis using v assms(1)
    by (intro runs_openI [of _ "of_http (env w) v" c'])
      (simp_all add: server_onMessage_def with_http_base keeps_def)
qed

section \<open>The callbacks of a connection\<close>

lemma readFd_front:
  assumes "front_inv b"
  shows "\<exists>b'. readFd b e (Inr d) = Inr (int (length d), b') \<and> front_inv b' \<and> readable b' = readable b @ d"
proof (cases "int (length d) \<le> writeableBytes b")
  case True
  then show ?thesis using readFd_within [of b d e] assms by (auto simp: front_inv_def)
next
  case False
  then have "m_read_index b < int (length d) - writeableBytes b + kPrePendIndex" using assms by (simp add: front_inv_def)
  then show ?thesis using readFd_beyond [of b d e] assms False by (auto simp: front_inv_def)
qed

lemma located_view:
  assumes "located s obj ob l base t"
  shows "on_conn op obj s = res_bind (op (view s ob l)) (\<lambda>w. Inr (unfocus obj (co_loop ob) w))" "isInLoopThread l t"
    "loops s (srv_loop (srv s)) = Some base" "m_self (co_conn ob) = obj"
  using assms by (simp_all add: located_def on_conn_view)

lemma message_effect:
  assumes "located s obj ob l base t" "conn_open (view s ob l) c" "rs_read rs = Inr d" "d \<noteq> []"
    and "write_bound (length (answer (m_response_callback cf) (rs_junk rs) (co_conn ob) (readable (m_input_buffer (co_conn ob)) @ d))) (rs_write rs)"
  shows "\<exists>s' ob' r c'. run_callback cf rs t (co_loop ob) (CbRead obj) s = Inr s' \<and> conn_effect s obj ob ob' r [] s' \<and>
     chans r (m_channel (co_conn ob)) = Some c' \<and> conn_chan obj (m_conn_fd (co_conn ob)) c' \<and> conn_wf obj (co_conn ob') \<and>
     up_chan (co_conn ob') c'"
proof -
  let ?w = "view s ob l"
  note loc = located_view [OF assms(1)]
  have fr: "front_inv (m_input_buffer (co_conn ob))" using conn_open_parts(6) [OF assms(2)] by simp
  obtain b where b: "readFd (m_input_buffer (co_conn ob)) 0 (Inr d) = Inr (int (length d), b)" "front_inv b"
    "readable b = readable (m_input_buffer (co_conn ob)) @ d"
    using readFd_front [OF fr] by blast
  let ?w1 = "?w\<lparr>conn := (co_conn ob)\<lparr>m_input_buffer := b\<rparr>\<rparr>"
  have a: "answer rc junk ((co_conn ob)\<lparr>m_input_buffer := b\<rparr>) x = answer rc junk (co_conn ob) x" for rc junk x
    by (simp add: answer_def)

  have "runs_open ?w1 (server_onMessage cf rs t ?w1)"
    by (rule server_onMessage_open [where ?b0.0 = "m_input_buffer (co_conn ob)" and base = base and c = c])
      (use loc assms(2,5) b(2,3) a in \<open>simp_all add: front_inv_def conn_open_def\<close>)
  moreover have "keeps ?w ?w1" using conn_open_parts(1) [OF assms(2)] by (intro keeps_same_loop) (simp_all add: shell_def)
  ultimately have "runs_open ?w (server_onMessage cf rs t ?w1)" by (rule runs_open_via)
  then have "runs_open ?w (conn_handleRead (server_onMessage cf rs t) (server_close t obj (co_loop ob)) (cf_strerror cf)
      (rs_so_error rs) t (rs_read rs) ?w)"
    using assms(3,4) b(1) loc(2) by (simp add: conn_handleRead_def)
  from open_effect [where op = "conn_handleRead (server_onMessage cf rs t) (server_close t obj (co_loop ob)) (cf_strerror cf)
      (rs_so_error rs) t (rs_read rs)", OF assms(1) this]
  show ?thesis by (simp add: run_callback_def)
qed

text \<open>The connection is closed: the channel is taken out of epoll and the removal is queued in the base loop.\<close>

lemma handleClose_world:
  assumes "located s obj ob l base t" "conn_open (view s ob l) c" "front_inv b"
    and "w1 = (view s ob l)\<lparr>conn := (co_conn ob)\<lparr>m_input_buffer := b\<rparr>\<rparr>"
  shows "\<exists>r w' c'. handleClose (server_close t obj (co_loop ob)) t w1 = Inr w' \<and>
     conn w' = (co_conn ob)\<lparr>m_input_buffer := b, m_state := kDisconnected\<rparr> \<and>
     conn_effect s obj ob (obj_of (co_loop ob) w') r [FRemoveConnection obj] (unfocus obj (co_loop ob) w') \<and>
     chans r (m_channel (co_conn ob)) = Some c' \<and> conn_chan obj (m_conn_fd (co_conn ob)) c' \<and>
     m_index c' = kDeleted \<and> m_events c' = 0 \<and> m_channels r (m_conn_fd (co_conn ob)) = Some (m_channel (co_conn ob))"
proof -
  let ?r = "m_epoller l" and ?p = "m_channel (co_conn ob)" and ?fd = "m_conn_fd (co_conn ob)" and ?i = "co_loop ob"
  have l: "objs s obj = Some ob" "loops s ?i = Some l" "loops s (srv_loop (srv s)) = Some base" "?i \<noteq> srv_loop (srv s)"
    "isInLoopThread l t" "\<not> isInLoopThread base t" "m_self (co_conn ob) = obj"
    using assms(1) by (simp_all add: located_def)
  have c: "reactor_inv ?r" "chans ?r ?p = Some c" "m_index c = kAdded" "m_fd c = ?fd" "conn_chan obj ?fd c" "updatable ?r ?p c"
    using assms(2) l(7) by (auto simp: conn_open_def up_chan_def conn_chan_def updatable_def)
  obtain r where r: "disableAll ?r ?p = Inr r" "reactor_inv r" "m_channels r = (m_channels ?r)(?fd \<mapsto> ?p)"
    "chans r = (chans ?r)(?p \<mapsto> c\<lparr>m_events := 0, m_index := kDeleted\<rparr>)"
    using set_and_update_effect [OF c(1,2,6), of "\<lambda>_. kNoneEvent"] c(3,4)
    by (auto simp: disableAll_def index_after_def kNoneEvent_def)
  define w2 where "w2 = w1\<lparr>conn := (co_conn ob)\<lparr>m_input_buffer := b, m_state := kDisconnected\<rparr>, m_loop := l\<lparr>m_epoller := r\<rparr>\<rparr>"
  have close: "handleClose cb t w1 = cb w2" for cb
    using assms(4) l(5) r(1) conn_open_parts(9) [OF assms(2)]
    by (simp add: handleClose_def chan_op_def set_state_def w2_def open_conn_def)
  define S where "S = put_loop (srv_loop (srv s)) (queueInLoop base t (FRemoveConnection obj)) (unfocus obj ?i w2)"
  have w2: "env w2 = s" "conn w2 = (co_conn ob)\<lparr>m_input_buffer := b, m_state := kDisconnected\<rparr>" "m_loop w2 = l\<lparr>m_epoller := r\<rparr>"
    using assms(4) by (simp_all add: w2_def)
  have "handleRemoveConnection t obj (unfocus obj ?i w2) = Inr S"
    using l(3,4,6) w2(1) by (simp add: handleRemoveConnection_def S_def)
  moreover have "focus obj S = Inr (view S (obj_of ?i w2) (l\<lparr>m_epoller := r\<rparr>))"
    using l(4) w2 by (intro focus_view) (simp_all add: S_def obj_of_def)
  ultimately have run: "handleClose (server_close t obj ?i) t w1 = Inr (view S (obj_of ?i w2) (l\<lparr>m_epoller := r\<rparr>))"
    by (simp add: close server_close_def)
  let ?w = "view S (obj_of ?i w2) (l\<lparr>m_epoller := r\<rparr>)"
  have "reg_only ?p ?fd ?r r" using r(2-4) by (simp add: reg_only_def)
  moreover have "loops (unfocus obj ?i ?w) =
      (loops s)(?i \<mapsto> l\<lparr>m_epoller := r\<rparr>, srv_loop (srv s) \<mapsto> queueInLoop base t (FRemoveConnection obj))"
    using l(4) w2 by (auto simp: S_def)
  ultimately have "conn_effect s obj ob (obj_of ?i ?w) r [FRemoveConnection obj] (unfocus obj ?i ?w)"
    using l w2 by (auto simp: conn_effect_def S_def obj_of_def)
  then show ?thesis using run w2(2) r(3,4) c(5)
    by (intro exI [of _ r] exI [of _ ?w] exI [of _ "c\<lparr>m_events := 0, m_index := kDeleted\<rparr>"]) (simp add: conn_chan_def)
qed

lemma conn_effect_logged:
  "conn_effect s obj ob (obj_of i w) r fs (unfocus obj i w) \<Longrightarrow>
   conn_effect s obj ob (obj_of i (log_line m w)) r fs (unfocus obj i (log_line m w))"
  by (simp add: conn_effect_def obj_of_def)

lemma close_effect:
  assumes "located s obj ob l base t" "conn_open (view s ob l) c" "rs_read rs = Inl e \<or> rs_read rs = Inr []"
  shows "\<exists>s' ob' r c'. run_callback cf rs t (co_loop ob) (CbRead obj) s = Inr s' \<and>
     conn_effect s obj ob ob' r [FRemoveConnection obj] s' \<and> conn_wf obj (co_conn ob') \<and> m_state (co_conn ob') = kDisconnected \<and>
     chans r (m_channel (co_conn ob)) = Some c' \<and> conn_chan obj (m_conn_fd (co_conn ob)) c' \<and>
     m_index c' = kDeleted \<and> m_events c' = 0 \<and> m_channels r (m_conn_fd (co_conn ob)) = Some (m_channel (co_conn ob))"
proof -
  let ?i = "co_loop ob" and ?w = "view s ob l"
  note loc = located_view [OF assms(1)]
  have fr: "front_inv (m_input_buffer (co_conn ob))" using conn_open_parts(6) [OF assms(2)] by simp
  obtain n b where b: "readFd (m_input_buffer (co_conn ob)) 0 (rs_read rs) = Inr (n, b)" "front_inv b" "n \<le> 0"
    "n = 0 \<longleftrightarrow> rs_read rs = Inr []"
    using assms(3) fr readFd_front [OF fr, of 0 "[]"] by (auto simp: readFd_def)
  let ?w1 = "?w\<lparr>conn := (co_conn ob)\<lparr>m_input_buffer := b\<rparr>\<rparr>"
  obtain r w' c' where w': "handleClose (server_close t obj ?i) t ?w1 = Inr w'"
    "conn w' = (co_conn ob)\<lparr>m_input_buffer := b, m_state := kDisconnected\<rparr>"
    "conn_effect s obj ob (obj_of ?i w') r [FRemoveConnection obj] (unfocus obj ?i w')"
    "chans r (m_channel (co_conn ob)) = Some c'" "conn_chan obj (m_conn_fd (co_conn ob)) c'"
    "m_index c' = kDeleted" "m_events c' = 0" "m_channels r (m_conn_fd (co_conn ob)) = Some (m_channel (co_conn ob))"
    using handleClose_world [OF assms(1,2) b(2) refl] by blast
  obtain m1 m2 where run: "conn_handleRead (server_onMessage cf rs t) (server_close t obj ?i) (cf_strerror cf)
      (rs_so_error rs) t (rs_read rs) ?w = Inr (if n = 0 then w' else log_line m2 (log_line m1 w'))"
    using b w'(1) loc(2) by (cases "n = 0") (auto simp: conn_handleRead_def handleError_def Let_def)
  let ?v = "if n = 0 then w' else log_line m2 (log_line m1 w')"
  have "conn_effect s obj ob (obj_of ?i ?v) r [FRemoveConnection obj] (unfocus obj ?i ?v)"
    using w'(3) by (simp add: conn_effect_logged)
  moreover have "conn_wf obj (conn ?v)" "m_state (conn ?v) = kDisconnected"
    using assms(2) w'(2) b(2) loc(4) by (simp_all add: conn_open_def conn_wf_def)
  ultimately show ?thesis using run loc(1) w'(4-8)
    by (intro exI [of _ "unfocus obj ?i ?v"] exI [of _ "obj_of ?i ?v"] exI [of _ r] exI [of _ c']) (simp add: run_callback_def)
qed

text \<open>Operations that change nothing but the log and the write side.\<close>

lemma idle_effect:
  assumes "located s obj ob l base t" "reactor_inv (m_epoller l)" "op (view s ob l) = Inr w'"
    "m_loop w' = l" "conn w' = co_conn ob" "env w' = s"
  shows "\<exists>s' ob'. on_conn op obj s = Inr s' \<and> conn_effect s obj ob ob' (m_epoller l) [] s' \<and> co_conn ob' = co_conn ob"
proof -
  have "shell w' = shell (view s ob l)" using assms(4-6) by (simp add: shell_def)
  from view_effect [where op = op, OF assms(1,3) this] assms(2,4,5) show ?thesis
    by (intro exI [of _ "unfocus obj (co_loop ob) w'"] exI [of _ "obj_of (co_loop ob) w'"]) (simp add: reg_only_def)
qed

lemma quiet_effects:
  assumes "located s obj ob l base t" "reactor_inv (m_epoller l)" "chans (m_epoller l) (m_channel (co_conn ob)) = Some c"
  shows "\<exists>s' ob'. run_callback cf rs t (co_loop ob) (CbError obj) s = Inr s' \<and> conn_effect s obj ob ob' (m_epoller l) [] s' \<and>
      co_conn ob' = co_conn ob"
    and "\<not> isWriting c \<Longrightarrow> \<exists>s' ob'. run_callback cf rs t (co_loop ob) (CbWrite obj) s = Inr s' \<and>
      conn_effect s obj ob ob' (m_epoller l) [] s' \<and> co_conn ob' = co_conn ob"
    and "\<exists>s' ob'. run_functor cf rs t (co_loop ob) (FShutDownInLoop obj) s = Inr s' \<and> conn_effect s obj ob ob' (m_epoller l) [] s' \<and>
      co_conn ob' = co_conn ob"
proof -
  note loc = located_view [OF assms(1)]
  obtain w' where w': "handleError (cf_strerror cf) (rs_so_error rs) (view s ob l) = Inr w'" "m_loop w' = l"
    "conn w' = co_conn ob" "env w' = s"
    by (simp add: handleError_def Let_def)
  show "\<exists>s' ob'. run_callback cf rs t (co_loop ob) (CbError obj) s = Inr s' \<and> conn_effect s obj ob ob' (m_epoller l) [] s' \<and>
      co_conn ob' = co_conn ob"
    unfolding run_callback_def chan_cb.case by (rule idle_effect [OF assms(1,2)]) (fact w')+
  show "\<exists>s' ob'. run_callback cf rs t (co_loop ob) (CbWrite obj) s = Inr s' \<and> conn_effect s obj ob ob' (m_epoller l) [] s' \<and>
      co_conn ob' = co_conn ob" if "\<not> isWriting c"
    unfolding run_callback_def chan_cb.case
    by (rule idle_effect [OF assms(1,2), where w' = "view s ob l"])
      (use that loc(2) assms(3) in \<open>simp_all add: conn_handleWrite_def channel_isWriting_def\<close>)
  obtain w' where w': "shutDownInLoop (cf_strerror cf) t (rs_shutdown rs) (view s ob l) = Inr w'" "m_loop w' = l"
    "conn w' = co_conn ob" "env w' = s"
    using shutDownInLoop_runs [of "view s ob l" c t "cf_strerror cf" "rs_shutdown rs"] assms(3) loc(2) by auto
  show "\<exists>s' ob'. run_functor cf rs t (co_loop ob) (FShutDownInLoop obj) s = Inr s' \<and> conn_effect s obj ob ob' (m_epoller l) [] s' \<and>
      co_conn ob' = co_conn ob"
    unfolding run_functor_def Let_def loop_task.case
    by (rule idle_effect [OF assms(1,2), where w' = w']) (use w' in \<open>simp_all add: run_conn_functor_def\<close>)
qed

lemma write_effect:
  assumes "located s obj ob l base t" "conn_open (view s ob l) c"
    and "write_bound (length (readable (m_output_buffer (co_conn ob)))) (rs_write rs)"
  shows "\<exists>s' ob' r c'. run_callback cf rs t (co_loop ob) (CbWrite obj) s = Inr s' \<and> conn_effect s obj ob ob' r [] s' \<and>
     chans r (m_channel (co_conn ob)) = Some c' \<and> conn_chan obj (m_conn_fd (co_conn ob)) c' \<and> conn_wf obj (co_conn ob') \<and>
     up_chan (co_conn ob') c'"
  unfolding run_callback_def chan_cb.case
  by (rule open_effect [OF assms(1)], rule handleWrite_open [OF assms(2)])
    (use located_view(2) [OF assms(1)] assms(3) in \<open>simp_all add: outq_def\<close>)

section \<open>Establishing and destroying a connection\<close>

lemma server_onConnection_off_base:
  assumes "located s obj ob l base t" "env w = s" "m_self (conn w) = obj"
  shows "server_onConnection rs t w = Inr (touched w (retrieveAll (m_input_buffer (conn w)))
     (if isConnected (conn w) \<and> up_auto (upper s) then queueInLoop base t (FOther (idle_timer rs obj)) else base) (upper s))"
  using assms server_onConnection_effect [of w base t rs] by (simp add: located_def)

text \<open>What \<open>onConnection\<close> makes of the view it gets, put back into the world.\<close>

lemma touched_effect:
  assumes "located s obj ob l base t" "env w = s" "m_loop w = l\<lparr>m_epoller := r\<rparr>"
    and "m_channel (conn w) = m_channel (co_conn ob)" "m_conn_fd (conn w) = m_conn_fd (co_conn ob)"
    and "reg_only (m_channel (co_conn ob)) (m_conn_fd (co_conn ob)) (m_epoller l) r"
    and "base' = (if x then queueInLoop base t f else base)"
  shows "conn_effect s obj ob (obj_of (co_loop ob) (touched w b base' (upper s))) r (if x then [f] else [])
     (unfocus obj (co_loop ob) (touched w b base' (upper s)))"
proof -
  have l: "objs s obj = Some ob" "loops s (co_loop ob) = Some l" "loops s (srv_loop (srv s)) = Some base"
    "co_loop ob \<noteq> srv_loop (srv s)" using assms(1) by (simp_all add: located_def)
  have "loops (unfocus obj (co_loop ob) (touched w b base' (upper s))) =
      (loops s)(co_loop ob \<mapsto> l\<lparr>m_epoller := r\<rparr>, srv_loop (srv s) \<mapsto> base')"
    using assms(2,3) l(4) by auto
  then show ?thesis using assms l by (auto simp: conn_effect_def obj_of_def)
qed

lemma established_effect:
  assumes "located s obj ob l base t" "reactor_inv (m_epoller l)" "chans (m_epoller l) (m_channel (co_conn ob)) = Some c"
    and "m_index c = kNew" "m_events c = 0" "m_channels (m_epoller l) (m_conn_fd (co_conn ob)) = None"
    and "conn_chan obj (m_conn_fd (co_conn ob)) c" "conn_wf obj (co_conn ob)" "readable (m_output_buffer (co_conn ob)) = []"
  shows "\<exists>s' ob' r c' fs. run_functor cf rs t (co_loop ob) (FEstablished obj) s = Inr s' \<and> conn_effect s obj ob ob' r fs s' \<and>
     (fs = [] \<or> fs = [FOther (idle_timer rs obj)]) \<and>
     chans r (m_channel (co_conn ob)) = Some c' \<and> conn_chan obj (m_conn_fd (co_conn ob)) c' \<and> conn_wf obj (co_conn ob') \<and>
     up_chan (co_conn ob') c' \<and> m_channels r (m_conn_fd (co_conn ob)) = Some (m_channel (co_conn ob))"
proof -
  let ?r = "m_epoller l" and ?p = "m_channel (co_conn ob)" and ?fd = "m_conn_fd (co_conn ob)" and ?i = "co_loop ob"
  note loc = located_view [OF assms(1)]
  let ?c = "c\<lparr>m_tied := True, m_tie := Some obj\<rparr>"
  let ?r1 = "put_chan ?r ?p ?c"
  have r1: "reactor_inv ?r1" by (rule inv_same_registration [OF assms(2,3)]) simp_all
  have "updatable ?r1 ?p ?c" using assms(4,6,7) by (simp add: updatable_def conn_chan_def)
  then obtain r where r: "enableReading ?r1 ?p = Inr r" "reactor_inv r" "m_channels r = (m_channels ?r)(?fd \<mapsto> ?p)"
    "chans r = (chans ?r)(?p \<mapsto> ?c\<lparr>m_events := kReadEvent, m_index := kAdded\<rparr>)"
    using set_and_update_effect [OF r1, of ?p ?c "\<lambda>e. e OR kReadEvent"] assms(4,5,7)
    by (auto simp: enableReading_def index_after_def conn_chan_def)
  define w where "w = (view s ob l)\<lparr>conn := (co_conn ob)\<lparr>m_state := kConnected\<rparr>, m_loop := l\<lparr>m_epoller := r\<rparr>\<rparr>"
  have w: "env w = s" "m_self (conn w) = obj" "m_loop w = l\<lparr>m_epoller := r\<rparr>" "m_channel (conn w) = ?p" "m_conn_fd (conn w) = ?fd"
    "m_input_buffer (conn w) = m_input_buffer (co_conn ob)" "isConnected (conn w)"
    using loc(4) by (simp_all add: w_def isConnected_def)
  have est: "connectionEstablished (server_onConnection rs t) t (view s ob l) = server_onConnection rs t w"
    using loc(2,4) assms(3) r(1)
    by (simp add: connectionEstablished_def chan_op_def channel_tie_def set_state_def w_def Tie_def Let_def)
  let ?base = "if up_auto (upper s) then queueInLoop base t (FOther (idle_timer rs obj)) else base"
  let ?v = "touched w (retrieveAll (m_input_buffer (conn w))) ?base (upper s)"
  have "run_functor cf rs t ?i (FEstablished obj) s = Inr (unfocus obj ?i ?v)"
    using server_onConnection_off_base [OF assms(1) w(1,2)] w(7) loc(1) est by (simp add: run_functor_def run_server_functor_def)
  moreover have "reg_only ?p ?fd ?r r" using r(2-4) by (simp add: reg_only_def)
  then have "conn_effect s obj ob (obj_of ?i ?v) r (if up_auto (upper s) then [FOther (idle_timer rs obj)] else []) (unfocus obj ?i ?v)"
    by (intro touched_effect [OF assms(1) w(1,3-5)]) simp_all
  moreover have "conn_wf obj (conn ?v)" "up_chan (conn ?v) (?c\<lparr>m_events := kReadEvent, m_index := kAdded\<rparr>)"
    using assms(8,9) front_inv_retrieveAll [of "m_input_buffer (co_conn ob)"] mask_values
    by (simp_all add: w_def conn_wf_def up_chan_def front_inv_def isReading_def isWriting_def event_masks)
  ultimately show ?thesis using r(3,4) assms(7)
    by (intro exI [of _ "unfocus obj ?i ?v"] exI [of _ "obj_of ?i ?v"] exI [of _ r]
        exI [of _ "?c\<lparr>m_events := kReadEvent, m_index := kAdded\<rparr>"]
        exI [of _ "if up_auto (upper s) then [FOther (idle_timer rs obj)] else []"]) (simp add: conn_chan_def)
qed

lemma destructor_effect:
  assumes "located s obj ob l base t" "reactor_inv (m_epoller l)" "chans (m_epoller l) (m_channel (co_conn ob)) = Some c"
    and "m_state (co_conn ob) = kDisconnected" "m_channels (m_epoller l) (m_conn_fd (co_conn ob)) = Some (m_channel (co_conn ob))"
    and "conn_chan obj (m_conn_fd (co_conn ob)) c" "conn_wf obj (co_conn ob)"
  shows "\<exists>s' ob' r. run_functor cf rs t (co_loop ob) (FDestructor obj) s = Inr s' \<and> conn_effect s obj ob ob' r [] s' \<and>
     chans r (m_channel (co_conn ob)) = Some (c\<lparr>m_index := kDeleted\<rparr>) \<and> conn_wf obj (co_conn ob') \<and>
     m_state (co_conn ob') = kDisconnected \<and> m_channels r (m_conn_fd (co_conn ob)) = None"
proof -
  let ?r = "m_epoller l" and ?p = "m_channel (co_conn ob)" and ?fd = "m_conn_fd (co_conn ob)" and ?i = "co_loop ob"
  note loc = located_view [OF assms(1)]
  have fd: "m_fd c = ?fd" using assms(6) by (simp add: conn_chan_def)
  obtain r where r: "removeChannel ?r ?p = Inr r" "reactor_inv r" "m_channels r = (m_channels ?r)(?fd := None)"
    "chans r = (chans ?r)(?p \<mapsto> c\<lparr>m_index := kDeleted\<rparr>)"
    using removeChannel_effect [OF assms(2,3)] assms(5) fd by auto
  define w where "w = (view s ob l)\<lparr>m_loop := l\<lparr>m_epoller := r\<rparr>\<rparr>"
  have w: "env w = s" "m_self (conn w) = obj" "m_loop w = l\<lparr>m_epoller := r\<rparr>" "conn w = co_conn ob"
    using loc(4) by (simp_all add: w_def)
  let ?b = "retrieveAll (m_input_buffer (co_conn ob))"
  let ?v = "touched w ?b base (upper s)"
  have "server_onConnection rs t (view s ob l) = Inr (touched (view s ob l) ?b base (upper s))"
    using server_onConnection_off_base [OF assms(1), of "view s ob l" rs] loc(4) assms(4) by (simp add: isConnected_def)
  then have "connectionDestructor (server_onConnection rs t) t (view s ob l) = Inr ?v"
    using loc(2) assms(4) r(1) by (simp add: connectionDestructor_def chan_op_def w_def touched_def)
  then have "run_functor cf rs t ?i (FDestructor obj) s = Inr (unfocus obj ?i ?v)"
    using loc(1) by (simp add: run_functor_def run_server_functor_def)
  moreover have "reg_only ?p ?fd ?r r" using r(2-4) by (simp add: reg_only_def)
  then have "conn_effect s obj ob (obj_of ?i ?v) r [] (unfocus obj ?i ?v)"
    using touched_effect [OF assms(1) w(1,3), of base False undefined ?b] w(4) by simp
  moreover have "conn_wf obj (conn ?v)" using assms(7) front_inv_retrieveAll [of "m_input_buffer (co_conn ob)"] w(4)
    by (simp add: conn_wf_def front_inv_def)
  ultimately show ?thesis using r(3,4) assms(4) w(4)
    by (intro exI [of _ "unfocus obj ?i ?v"] exI [of _ "obj_of ?i ?v"] exI [of _ r]) simp
qed

end
