(* ===== verification/NetSystems.thy ===== *)
theory NetSystems
  imports ConnEffects
begin

text \<open>
  The running server as a system of threads: every event loop steps through \<open>loop()\<close> of
  \<open>Net/eventloop.cpp\<close>, one callback or one functor at a time, interleaved with all the others and
  with the kernel.  The theory holds the system, the invariant that ties every connection object,
  its channel, the queued functors and the connection map together, and what a step that concerns one
  connection leaves alone.  A callback or functor is one step: races inside it, on the unsynchronised
  \<open>m_state\<close> of a connection, are below this granularity.
\<close>

section \<open>The system\<close>

type_synonym http_task = "timer_cb Timer loop_task"

text \<open>
  Where the thread that runs a loop is: at \<open>epoll_wait\<close>; handling events, with the callbacks that are left
  for the current channel and the active channels that are left; or running the functors it has
  swapped out of the queue.
\<close>

datatype phase = AtPoll | InEvents "chan_cb list" "nat list" | InFunctors "http_task list"

record net_sys =
  nw :: http_server
  phases :: "nat \<Rightarrow> phase"
  thread_of :: "nat \<Rightarrow> nat"

text \<open>
  The steps of a loop, the release of a connection object by its last shared pointer, and a client
  whose connection the kernel puts into the backlog.
\<close>

datatype action = Poll nat "errno + (32 word \<times> nat) list" | Dispatch nat | Call nat results | Swap nat
  | RunFunctor nat results | Finish nat | Release nat | Arrive Address

definition goto :: "nat \<Rightarrow> phase \<Rightarrow> net_sys \<Rightarrow> http_server \<Rightarrow> net_sys" where
  "goto i ph \<sigma> s = \<sigma>\<lparr>nw := s, phases := (phases \<sigma>)(i := ph)\<rparr>"

fun do_action :: "config \<Rightarrow> action \<Rightarrow> net_sys \<Rightarrow> net_sys result" where
  "do_action cf (Poll i wait) \<sigma> =
     res_bind (deref_loop (nw \<sigma>) i) (\<lambda>l.
       res_bind (epoller_poll (m_epoller l) wait []) (\<lambda>(ep, active).
         Inr (goto i (InEvents [] active) \<sigma> (put_loop i (l\<lparr>m_epoller := ep, m_active_channels := active\<rparr>) (nw \<sigma>)))))"
| "do_action cf (Dispatch i) \<sigma> =
     (case phases \<sigma> i of
        InEvents [] (p # ps) \<Rightarrow>
          res_bind (deref_loop (nw \<sigma>) i) (\<lambda>l.
            res_bind (deref (m_epoller l) p) (\<lambda>c.
              Inr (goto i (InEvents (handleEvent (\<lambda>obj. objs (nw \<sigma>) obj \<noteq> None) c) ps) \<sigma> (nw \<sigma>))))
      | _ \<Rightarrow> Inr \<sigma>)"
| "do_action cf (Call i rs) \<sigma> =
     (case phases \<sigma> i of
        InEvents (cb # cbs) ps \<Rightarrow>
          res_bind (run_callback cf rs (thread_of \<sigma> i) i cb (nw \<sigma>)) (\<lambda>s. Inr (goto i (InEvents cbs ps) \<sigma> s))
      | _ \<Rightarrow> Inr \<sigma>)"
| "do_action cf (Swap i) \<sigma> =
     res_bind (deref_loop (nw \<sigma>) i) (\<lambda>l.
       let (functors, l2) = swap_functors (l\<lparr>m_calling_pending_functors := True\<rparr>)
       in Inr (goto i (InFunctors functors) \<sigma> (put_loop i l2 (nw \<sigma>))))"
| "do_action cf (RunFunctor i rs) \<sigma> =
     (case phases \<sigma> i of
        InFunctors (f # fs) \<Rightarrow>
          res_bind (run_functor cf rs (thread_of \<sigma> i) i f (nw \<sigma>)) (\<lambda>s. Inr (goto i (InFunctors fs) \<sigma> s))
      | _ \<Rightarrow> Inr \<sigma>)"
| "do_action cf (Finish i) \<sigma> =
     res_bind (deref_loop (nw \<sigma>) i) (\<lambda>l.
       Inr (goto i AtPoll \<sigma> (put_loop i (l\<lparr>m_calling_pending_functors := False\<rparr>) (nw \<sigma>))))"
| "do_action cf (Release obj) \<sigma> = res_bind (TcpConnection_destroy obj (nw \<sigma>)) (\<lambda>s. Inr (\<sigma>\<lparr>nw := s\<rparr>))"
| "do_action cf (Arrive peer) \<sigma> = Inr (\<sigma>\<lparr>nw := (nw \<sigma>)\<lparr>backlog := backlog (nw \<sigma>) @ [peer]\<rparr>\<rparr>)"

text \<open>The functors a loop has still to run, those it has swapped out first.\<close>

definition queued_in :: "http_server \<Rightarrow> nat \<Rightarrow> http_task list" where
  "queued_in s i = (case loops s i of None \<Rightarrow> [] | Some l \<Rightarrow> m_pending_functors l)"

definition todo :: "net_sys \<Rightarrow> nat \<Rightarrow> http_task list" where
  "todo \<sigma> i = (case phases \<sigma> i of InFunctors fs \<Rightarrow> fs | _ \<Rightarrow> []) @ queued_in (nw \<sigma>) i"

section \<open>When a step can happen\<close>

text \<open>
  What the kernel and the allocator promise: \<open>epoll_wait\<close> reports registered pointers, each once;
  \<open>accept\<close> returns a descriptor that is not in use, setting its options succeeds, and new objects
  get free addresses; \<open>write\<close> takes at most the bytes it was given.
\<close>

definition reports_ok :: "(errno + (32 word \<times> nat) list) \<Rightarrow> chan_cb Reactor \<Rightarrow> bool" where
  "reports_ok wait r = (case wait of Inl _ \<Rightarrow> True | Inr evs \<Rightarrow>
     distinct (map snd evs) \<and> (\<forall>p \<in> set (map snd evs). \<exists>fd e. interest (ctl_calls r) fd = Some (e, p)))"

definition free_fd :: "int \<Rightarrow> http_server \<Rightarrow> bool" where
  "free_fd fd s \<longleftrightarrow> (\<forall>i l p c. loops s i = Some l \<longrightarrow> chans (m_epoller l) p = Some c \<longrightarrow> m_fd c \<noteq> fd)"

definition results_ok :: "config \<Rightarrow> results \<Rightarrow> chan_cb \<Rightarrow> http_server \<Rightarrow> bool" where
  "results_ok cf rs cb s =
     (case cb of
        CbAccept \<Rightarrow> (case rs_accept rs of Inl _ \<Rightarrow> True | Inr fd \<Rightarrow>
          free_fd fd s \<and> fresh_for (rs_self rs) (rs_chan rs) s \<and> rs_sockopt rs = (True, True))
      | CbRead obj \<Rightarrow> (case (rs_read rs, objs s obj) of
          (Inr d, Some ob) \<Rightarrow> write_bound (length (answer (m_response_callback cf) (rs_junk rs) (co_conn ob)
             (readable (m_input_buffer (co_conn ob)) @ d))) (rs_write rs)
        | _ \<Rightarrow> True)
      | CbWrite obj \<Rightarrow> (case objs s obj of None \<Rightarrow> True
        | Some ob \<Rightarrow> write_bound (length (readable (m_output_buffer (co_conn ob)))) (rs_write rs))
      | _ \<Rightarrow> True)"

text \<open>
  Who holds a shared pointer to a connection object: the connection map, the functors that were
  given one (\<open>shutDownInLoop\<close> is bound to the plain \<open>this\<close>), and a channel that handles an event.
  Idle timers are not counted, so that what follows holds for weak pointers, too.
\<close>

definition held_by :: "nat \<Rightarrow> net_sys \<Rightarrow> bool" where
  "held_by obj \<sigma> \<longleftrightarrow> (\<exists>fd. m_connections (srv (nw \<sigma>)) fd = Some obj) \<or>
     (\<exists>i. {FEstablished obj, FDestructor obj, FRemoveConnection obj} \<inter> set (todo \<sigma> i) \<noteq> {}) \<or>
     (\<exists>i cbs ps. phases \<sigma> i = InEvents cbs ps \<and> {CbRead obj, CbWrite obj, CbError obj} \<inter> set cbs \<noteq> {})"

fun enabled :: "config \<Rightarrow> action \<Rightarrow> net_sys \<Rightarrow> bool" where
  "enabled cf (Poll i wait) \<sigma> \<longleftrightarrow> phases \<sigma> i = AtPoll \<and> (\<exists>l. loops (nw \<sigma>) i = Some l \<and> reports_ok wait (m_epoller l))"
| "enabled cf (Dispatch i) \<sigma> \<longleftrightarrow> (\<exists>p ps. phases \<sigma> i = InEvents [] (p # ps))"
| "enabled cf (Call i rs) \<sigma> \<longleftrightarrow> (\<exists>cb cbs ps. phases \<sigma> i = InEvents (cb # cbs) ps \<and> results_ok cf rs cb (nw \<sigma>))"
| "enabled cf (Swap i) \<sigma> \<longleftrightarrow> phases \<sigma> i = InEvents [] []"
| "enabled cf (RunFunctor i rs) \<sigma> \<longleftrightarrow> (\<exists>f fs. phases \<sigma> i = InFunctors (f # fs))"
| "enabled cf (Finish i) \<sigma> \<longleftrightarrow> phases \<sigma> i = InFunctors []"
| "enabled cf (Release obj) \<sigma> \<longleftrightarrow> objs (nw \<sigma>) obj \<noteq> None \<and> \<not> held_by obj \<sigma>"
| "enabled cf (Arrive peer) \<sigma> \<longleftrightarrow> True"

section \<open>The invariant\<close>

text \<open>The connection a functor acts on, and the functors that act on one.\<close>

fun target :: "http_task \<Rightarrow> nat option" where
  "target (FSendInLoop obj src len) = Some obj" | "target (FShutDownInLoop obj) = Some obj"
| "target (FForceCloseInLoop obj) = Some obj" | "target (FEstablished obj) = Some obj"
| "target (FDestructor obj) = Some obj" | "target (FRemoveConnection obj) = Some obj" | "target (FOther t) = None"

definition about :: "nat \<Rightarrow> http_task list \<Rightarrow> http_task list" where
  "about obj fs = filter (\<lambda>f. target f = Some obj) fs"

text \<open>
  The life of a connection.  \<open>q\<close> and \<open>qb\<close> are the functors about it in its own and in the base
  loop, \<open>mp\<close> is what its loop's channel map has for its descriptor, and \<open>listed\<close> says whether the
  server's map has it.
\<close>

datatype life = Fresh | Open | Closing | Removing | Detached

fun stage_ok :: "life \<Rightarrow> nat \<Rightarrow> TcpConnection \<Rightarrow> chan_cb Channel \<Rightarrow> nat option \<Rightarrow> http_task list \<Rightarrow> http_task list \<Rightarrow> bool \<Rightarrow> bool" where
  "stage_ok Fresh obj co c mp q qb listed \<longleftrightarrow> m_state co = kConnecting \<and> m_index c = kNew \<and> m_events c = 0 \<and> mp = None \<and>
     readable (m_output_buffer co) = [] \<and> q = [FEstablished obj] \<and> qb = [] \<and> listed"
| "stage_ok Open obj co c mp q qb listed \<longleftrightarrow> up_chan co c \<and> mp = Some (m_channel co) \<and> set q \<subseteq> {FShutDownInLoop obj} \<and>
     qb = [] \<and> listed"
| "stage_ok Closing obj co c mp q qb listed \<longleftrightarrow> m_state co = kDisconnected \<and> m_index c = kDeleted \<and> m_events c = 0 \<and>
     mp = Some (m_channel co) \<and> set q \<subseteq> {FShutDownInLoop obj} \<and> qb = [FRemoveConnection obj] \<and> listed"
| "stage_ok Removing obj co c mp q qb listed \<longleftrightarrow> m_state co = kDisconnected \<and> m_index c = kDeleted \<and> m_events c = 0 \<and>
     mp = Some (m_channel co) \<and> (\<exists>fs. q = fs @ [FDestructor obj] \<and> set fs \<subseteq> {FShutDownInLoop obj}) \<and> qb = [] \<and> \<not> listed"
| "stage_ok Detached obj co c mp q qb listed \<longleftrightarrow> m_state co = kDisconnected \<and> m_index c = kDeleted \<and> m_events c = 0 \<and>
     mp \<noteq> Some (m_channel co) \<and> q = [] \<and> qb = [] \<and> \<not> listed"

definition obj_at :: "life \<Rightarrow> http_server \<Rightarrow> (nat \<Rightarrow> http_task list) \<Rightarrow> nat \<Rightarrow> ConnObj \<Rightarrow> bool" where
  "obj_at st s q obj ob \<longleftrightarrow> co_loop ob \<noteq> srv_loop (srv s) \<and> conn_wf obj (co_conn ob) \<and>
     (\<exists>l c. loops s (co_loop ob) = Some l \<and> chans (m_epoller l) (m_channel (co_conn ob)) = Some c \<and>
        conn_chan obj (m_conn_fd (co_conn ob)) c \<and>
        stage_ok st obj (co_conn ob) c (m_channels (m_epoller l) (m_conn_fd (co_conn ob))) (about obj (q (co_loop ob)))
          (about obj (q (srv_loop (srv s)))) (m_connections (srv s) (m_conn_fd (co_conn ob)) = Some obj))"

definition objs_inv :: "http_server \<Rightarrow> (nat \<Rightarrow> http_task list) \<Rightarrow> bool" where
  "objs_inv s q \<longleftrightarrow> (\<forall>obj ob. objs s obj = Some ob \<longrightarrow> (\<exists>st. obj_at st s q obj ob))"

text \<open>The server and its loops; descriptors of connections are different.\<close>

definition world_inv :: "http_server \<Rightarrow> bool" where
  "world_inv s \<longleftrightarrow> srv_inv s \<and> pool_ready (m_loop_thread_pool (srv s)) \<and>
     (\<forall>i \<in> set (m_loops (m_loop_thread_pool (srv s))). loops s i \<noteq> None \<and> i \<noteq> srv_loop (srv s)) \<and>
     (\<forall>i j l l'. loops s i = Some l \<longrightarrow> loops s j = Some l' \<longrightarrow> m_thread_id l = m_thread_id l' \<longrightarrow> i = j)"

definition fds_inv :: "http_server \<Rightarrow> bool" where
  "fds_inv s \<longleftrightarrow> (\<forall>x y a b. objs s x = Some a \<longrightarrow> objs s y = Some b \<longrightarrow>
     m_conn_fd (co_conn a) = m_conn_fd (co_conn b) \<longrightarrow> x = y)"

text \<open>Every channel of a loop is a connection's or one of the program's own.\<close>

definition owned :: "http_server \<Rightarrow> nat \<Rightarrow> nat \<Rightarrow> bool" where
  "owned s i p \<longleftrightarrow> (\<exists>obj ob. objs s obj = Some ob \<and> co_loop ob = i \<and> m_channel (co_conn ob) = p)"

definition sys_chan :: "bool \<Rightarrow> chan_cb Channel \<Rightarrow> bool" where
  "sys_chan base c \<longleftrightarrow> \<not> m_tied c \<and> m_write_callback c = None \<and> m_error_callback c = None \<and> m_close_callback c = None \<and>
     (m_read_callback c = Some CbWakeup \<or> base \<and> m_read_callback c \<in> {Some CbTimer, Some CbAccept})"

definition chans_inv :: "http_server \<Rightarrow> bool" where
  "chans_inv s \<longleftrightarrow> (\<forall>i l p c. loops s i = Some l \<longrightarrow> chans (m_epoller l) p = Some c \<longrightarrow>
     owned s i p \<or> sys_chan (i = srv_loop (srv s)) c)"

text \<open>Every functor that is queued can be run.\<close>

definition lives_on :: "http_server \<Rightarrow> nat \<Rightarrow> nat \<Rightarrow> bool" where
  "lives_on s i obj \<longleftrightarrow> (\<exists>ob. objs s obj = Some ob \<and> co_loop ob = i)"

fun task_ok :: "http_server \<Rightarrow> nat \<Rightarrow> http_task \<Rightarrow> bool" where
  "task_ok s i (FEstablished obj) \<longleftrightarrow> lives_on s i obj"
| "task_ok s i (FDestructor obj) \<longleftrightarrow> lives_on s i obj"
| "task_ok s i (FShutDownInLoop obj) \<longleftrightarrow> lives_on s i obj"
| "task_ok s i (FRemoveConnection obj) \<longleftrightarrow> i = srv_loop (srv s) \<and> objs s obj \<noteq> None"
| "task_ok s i (FOther t) \<longleftrightarrow> i = srv_loop (srv s) \<and> m_callback t \<noteq> None"
| "task_ok s i f \<longleftrightarrow> False"

definition tasks_inv :: "http_server \<Rightarrow> (nat \<Rightarrow> http_task list) \<Rightarrow> bool" where
  "tasks_inv s q \<longleftrightarrow> (\<forall>i. \<forall>f \<in> set (q i). loops s i \<noteq> None \<and> task_ok s i f)"

text \<open>
  The channels a loop has still to handle are registered, and the callbacks it has still to run
  act on connections of that loop whose channels are not among them.
\<close>

definition handled :: "http_server \<Rightarrow> nat \<Rightarrow> nat list \<Rightarrow> nat \<Rightarrow> bool \<Rightarrow> bool" where
  "handled s i ps obj reads \<longleftrightarrow> (\<exists>ob. objs s obj = Some ob \<and> co_loop ob = i \<and> m_channel (co_conn ob) \<notin> set ps \<and>
     (reads \<longrightarrow> m_state (co_conn ob) = kConnected \<or> m_state (co_conn ob) = kDisconnecting))"

fun cb_ok :: "http_server \<Rightarrow> nat \<Rightarrow> nat list \<Rightarrow> chan_cb \<Rightarrow> bool" where
  "cb_ok s i ps CbWakeup \<longleftrightarrow> True"
| "cb_ok s i ps CbTimer \<longleftrightarrow> i = srv_loop (srv s)"
| "cb_ok s i ps CbAccept \<longleftrightarrow> i = srv_loop (srv s)"
| "cb_ok s i ps (CbRead obj) \<longleftrightarrow> handled s i ps obj True"
| "cb_ok s i ps (CbWrite obj) \<longleftrightarrow> handled s i ps obj False"
| "cb_ok s i ps (CbError obj) \<longleftrightarrow> handled s i ps obj False"

definition added :: "http_server \<Rightarrow> nat \<Rightarrow> nat \<Rightarrow> bool" where
  "added s i p \<longleftrightarrow> (\<exists>l c. loops s i = Some l \<and> chans (m_epoller l) p = Some c \<and> m_index c = kAdded)"

definition events_inv :: "http_server \<Rightarrow> (nat \<Rightarrow> phase) \<Rightarrow> bool" where
  "events_inv s ph \<longleftrightarrow> (\<forall>i. (ph i \<noteq> AtPoll \<longrightarrow> loops s i \<noteq> None) \<and> (\<forall>cbs ps. ph i = InEvents cbs ps \<longrightarrow>
     distinct cbs \<and> distinct ps \<and> (\<forall>p \<in> set ps. added s i p) \<and> (\<forall>cb \<in> set cbs. cb_ok s i ps cb)))"

definition timers_inv :: "http_server \<Rightarrow> bool" where
  "timers_inv s \<longleftrightarrow> (\<forall>t \<in> set (m_timer (up_timer (upper s))). m_callback t \<noteq> None) \<and>
     (\<exists>base c. loops s (srv_loop (srv s)) = Some base \<and> chans (m_epoller base) (m_timer_channel (up_timer (upper s))) = Some c \<and>
        m_read_callback c = Some CbTimer \<and> updatable (m_epoller base) (m_timer_channel (up_timer (upper s))) c)"

definition net_ok :: "http_server \<Rightarrow> (nat \<Rightarrow> http_task list) \<Rightarrow> (nat \<Rightarrow> phase) \<Rightarrow> bool" where
  "net_ok s q ph \<longleftrightarrow> world_inv s \<and> objs_inv s q \<and> fds_inv s \<and> chans_inv s \<and> tasks_inv s q \<and> events_inv s ph \<and> timers_inv s"

text \<open>Every loop is run by the thread that made it.\<close>

definition threads_ok :: "(nat \<Rightarrow> nat) \<Rightarrow> http_server \<Rightarrow> bool" where
  "threads_ok t s \<longleftrightarrow> (\<forall>i l. loops s i = Some l \<longrightarrow> m_thread_id l = t i)"

definition net_inv :: "net_sys \<Rightarrow> bool" where
  "net_inv \<sigma> \<longleftrightarrow> net_ok (nw \<sigma>) (todo \<sigma>) (phases \<sigma>) \<and> threads_ok (thread_of \<sigma>) (nw \<sigma>)"

section \<open>What a step leaves alone\<close>

text \<open>
  A change that concerns at most the object \<open>x\<close>, and of the reactors at most the channel \<open>p\<close> and
  the descriptor \<open>fd\<close> of loop \<open>j\<close>, which are no other object's.
\<close>

definition local_change :: "nat \<Rightarrow> nat \<Rightarrow> nat \<Rightarrow> int \<Rightarrow> http_server \<Rightarrow> http_server \<Rightarrow> bool" where
  "local_change x j p fd s s' \<longleftrightarrow> srv_loop (srv s') = srv_loop (srv s) \<and>
     (\<forall>obj. obj \<noteq> x \<longrightarrow> objs s' obj = objs s obj) \<and>
     (\<forall>i. i \<noteq> j \<longrightarrow> map_option m_epoller (loops s' i) = map_option m_epoller (loops s i)) \<and>
     (\<exists>l l'. loops s j = Some l \<and> loops s' j = Some l' \<and> reg_only p fd (m_epoller l) (m_epoller l')) \<and>
     (\<forall>obj ob. obj \<noteq> x \<longrightarrow> objs s obj = Some ob \<longrightarrow> co_loop ob = j \<longrightarrow>
        m_channel (co_conn ob) \<noteq> p \<and> m_conn_fd (co_conn ob) \<noteq> fd) \<and>
     (\<forall>fd' obj. obj \<noteq> x \<longrightarrow> (m_connections (srv s') fd' = Some obj \<longleftrightarrow> m_connections (srv s) fd' = Some obj))"

definition stays :: "nat \<Rightarrow> http_server \<Rightarrow> http_server \<Rightarrow> bool" where
  "stays x s s' \<longleftrightarrow> (\<forall>ob. objs s x = Some ob \<longrightarrow> (\<exists>ob'. objs s' x = Some ob' \<and> co_loop ob' = co_loop ob \<and>
     m_channel (co_conn ob') = m_channel (co_conn ob) \<and> m_conn_fd (co_conn ob') = m_conn_fd (co_conn ob)))"

lemma local_changeD:
  assumes "local_change x j p fd s s'"
  shows "srv_loop (srv s') = srv_loop (srv s)" "obj \<noteq> x \<Longrightarrow> objs s' obj = objs s obj"
    "i \<noteq> j \<Longrightarrow> map_option m_epoller (loops s' i) = map_option m_epoller (loops s i)"
    "\<exists>l l'. loops s j = Some l \<and> loops s' j = Some l' \<and> reg_only p fd (m_epoller l) (m_epoller l')"
  using assms by (simp_all add: local_change_def)

text \<open>A channel of a loop after such a change, seen from before.\<close>

lemma chan_before:
  assumes "local_change x j p fd s s'" "loops s' i = Some l'" "i \<noteq> j \<or> q \<noteq> p"
  shows "\<exists>l. loops s i = Some l \<and> chans (m_epoller l') q = chans (m_epoller l) q"
proof (cases "i = j")
  case False
  then have "map_option m_epoller (loops s i) = Some (m_epoller l')"
    using local_changeD(3) [OF assms(1), of i, symmetric] assms(2) by simp
  then show ?thesis by auto
qed (use local_changeD(4) [OF assms(1)] assms(2,3) in \<open>auto simp: reg_only_def\<close>)

lemma chan_after:
  assumes "local_change x j p fd s s'" "loops s i = Some l"
  shows "\<exists>l'. loops s' i = Some l' \<and> (i \<noteq> j \<or> q \<noteq> p \<longrightarrow> chans (m_epoller l') q = chans (m_epoller l) q) \<and>
     (i \<noteq> j \<or> d \<noteq> fd \<longrightarrow> m_channels (m_epoller l') d = m_channels (m_epoller l) d)"
proof (cases "i = j")
  case False
  then have "map_option m_epoller (loops s' i) = Some (m_epoller l)" using local_changeD(3) [OF assms(1)] assms(2) by simp
  then show ?thesis by auto
qed (use local_changeD(4) [OF assms(1)] assms(2) in \<open>auto simp: reg_only_def\<close>)

lemma loop_kept: "local_change x j p fd s s' \<Longrightarrow> loops s i \<noteq> None \<Longrightarrow> loops s' i \<noteq> None"
  using chan_after by fastforce

lemma obj_at_change:
  assumes "local_change x j p fd s s'" "obj \<noteq> x" "objs s obj = Some ob" "\<And>i. about obj (q' i) = about obj (q i)"
    and "obj_at st s q obj ob"
  shows "obj_at st s' q' obj ob"
proof -
  let ?p = "m_channel (co_conn ob)" and ?fd = "m_conn_fd (co_conn ob)"
  obtain l c where l: "loops s (co_loop ob) = Some l" "chans (m_epoller l) ?p = Some c" "conn_chan obj ?fd c"
    "stage_ok st obj (co_conn ob) c (m_channels (m_epoller l) ?fd) (about obj (q (co_loop ob)))
       (about obj (q (srv_loop (srv s)))) (m_connections (srv s) ?fd = Some obj)"
    using assms(5) by (auto simp: obj_at_def)
  have "co_loop ob \<noteq> j \<or> ?p \<noteq> p" "co_loop ob \<noteq> j \<or> ?fd \<noteq> fd" using assms(1-3) by (auto simp: local_change_def)
  then obtain l' where l': "loops s' (co_loop ob) = Some l'" "chans (m_epoller l') ?p = Some c"
    "m_channels (m_epoller l') ?fd = m_channels (m_epoller l) ?fd"
    using chan_after [OF assms(1) l(1), of ?p ?fd] l(2) by auto
  have s: "srv_loop (srv s') = srv_loop (srv s)" "m_connections (srv s') ?fd = Some obj \<longleftrightarrow> m_connections (srv s) ?fd = Some obj"
    using assms(1,2) by (simp_all add: local_change_def)
  show ?thesis using assms(5) l l' s assms(4) by (simp add: obj_at_def)
qed

lemma objs_inv_change:
  assumes "objs_inv s q" "local_change x j p fd s s'" "\<And>obj i. obj \<noteq> x \<Longrightarrow> about obj (q' i) = about obj (q i)"
    and "\<And>ob. objs s' x = Some ob \<Longrightarrow> \<exists>st. obj_at st s' q' x ob"
  shows "objs_inv s' q'"
  unfolding objs_inv_def
proof (intro allI impI)
  fix obj ob assume a: "objs s' obj = Some ob"
  show "\<exists>st. obj_at st s' q' obj ob"
  proof (cases "obj = x")
    case False
    then have "objs s obj = Some ob" using a local_changeD(2) [OF assms(2)] by simp
    then show ?thesis using obj_at_change [where q = q and q' = q', OF assms(2) False _ assms(3) [OF False]] assms(1)
      unfolding objs_inv_def by blast
  qed (use a assms(4) in blast)
qed

lemma fds_inv_change:
  assumes "fds_inv s" "local_change x j p fd s s'" "stays x s s'"
    and "\<And>ob' obj ob. objs s x = None \<Longrightarrow> objs s' x = Some ob' \<Longrightarrow> objs s obj = Some ob \<Longrightarrow>
       m_conn_fd (co_conn ob') \<noteq> m_conn_fd (co_conn ob)"
  shows "fds_inv s'"
proof -
  have other: "objs s' y = Some b \<longleftrightarrow> objs s y = Some b" if "y \<noteq> x" for y b using assms(2) that by (simp add: local_change_def)
  have x: "m_conn_fd (co_conn a) \<noteq> m_conn_fd (co_conn b)" if "objs s' x = Some a" "objs s y = Some b" "y \<noteq> x" for a y b
  proof (cases "objs s x")
    case (Some a0)
    then have "m_conn_fd (co_conn a) = m_conn_fd (co_conn a0)" using assms(3) that(1) by (auto simp: stays_def)
    then show ?thesis using assms(1) Some that(2,3) by (auto simp: fds_inv_def)
  qed (use assms(4) that in blast)
  show ?thesis unfolding fds_inv_def
  proof (intro allI impI)
    fix y z a b assume a: "objs s' y = Some a" "objs s' z = Some b" "m_conn_fd (co_conn a) = m_conn_fd (co_conn b)"
    consider "y = x" | "z = x" | "y \<noteq> x" "z \<noteq> x" by blast
    then show "y = z"
    proof cases
      case 3
      then show ?thesis using a other assms(1) unfolding fds_inv_def by blast
    qed (use a x other in metis)+
  qed
qed

lemma owned_change: "local_change x j p fd s s' \<Longrightarrow> stays x s s' \<Longrightarrow> owned s i q \<Longrightarrow> owned s' i q"
  unfolding owned_def local_change_def stays_def by metis

lemma chans_inv_change:
  assumes "chans_inv s" "local_change x j p fd s s'" "stays x s s'"
    and "\<And>l c. loops s' j = Some l \<Longrightarrow> chans (m_epoller l) p = Some c \<Longrightarrow> owned s' j p \<or> sys_chan (j = srv_loop (srv s)) c"
  shows "chans_inv s'"
  unfolding chans_inv_def
proof (intro allI impI)
  fix i l' q c assume a: "loops s' i = Some l'" "chans (m_epoller l') q = Some c"
  have b: "srv_loop (srv s') = srv_loop (srv s)" using assms(2) by (simp add: local_change_def)
  show "owned s' i q \<or> sys_chan (i = srv_loop (srv s')) c"
  proof (cases "i = j \<and> q = p")
    case False
    then obtain l where "loops s i = Some l" "chans (m_epoller l) q = Some c" using chan_before [OF assms(2) a(1), of q] a(2) by auto
    then show ?thesis using assms(1) b owned_change [OF assms(2,3)] unfolding chans_inv_def by metis
  qed (use a assms(4) b in auto)
qed

lemma lives_on_change: "local_change x j p fd s s' \<Longrightarrow> stays x s s' \<Longrightarrow> lives_on s i obj \<Longrightarrow> lives_on s' i obj"
  unfolding lives_on_def local_change_def stays_def by metis

lemma obj_kept: "local_change x j p fd s s' \<Longrightarrow> stays x s s' \<Longrightarrow> objs s obj \<noteq> None \<Longrightarrow> objs s' obj \<noteq> None"
  unfolding local_change_def stays_def by (metis option.exhaust option.distinct(1))

lemma task_ok_change:
  assumes "local_change x j p fd s s'" "stays x s s'" "task_ok s i f"
  shows "task_ok s' i f"
  using assms(3) lives_on_change [OF assms(1,2)] obj_kept [OF assms(1,2)] local_changeD(1) [OF assms(1)]
  by (cases f) auto

lemma tasks_inv_change:
  assumes "tasks_inv s q" "local_change x j p fd s s'" "stays x s s'"
    and "\<And>i f. f \<in> set (q' i) \<Longrightarrow> f \<in> set (q i) \<or> loops s i \<noteq> None \<and> task_ok s' i f"
  shows "tasks_inv s' q'"
  unfolding tasks_inv_def
proof (intro allI ballI)
  fix i f assume "f \<in> set (q' i)"
  then show "loops s' i \<noteq> None \<and> task_ok s' i f"
    using assms(1,4) loop_kept [OF assms(2)] task_ok_change [OF assms(2,3)] unfolding tasks_inv_def by blast
qed

lemma added_change:
  assumes "local_change x j p fd s s'" "added s i q"
    and "\<And>l c. i = j \<Longrightarrow> q = p \<Longrightarrow> loops s' j = Some l \<Longrightarrow> \<exists>c. chans (m_epoller l) p = Some c \<and> m_index c = kAdded"
  shows "added s' i q"
proof -
  obtain l c where l: "loops s i = Some l" "chans (m_epoller l) q = Some c" "m_index c = kAdded"
    using assms(2) by (auto simp: added_def)
  obtain l' where l': "loops s' i = Some l'" "i \<noteq> j \<or> q \<noteq> p \<longrightarrow> chans (m_epoller l') q = chans (m_epoller l) q"
    using chan_after [OF assms(1) l(1), of q] by blast
  then show ?thesis using l assms(3) by (cases "i = j \<and> q = p") (auto simp: added_def)
qed

lemma handled_change:
  assumes "local_change x j p fd s s'" "stays x s s'" "handled s i ps obj reads"
    and "obj = x \<Longrightarrow> reads \<Longrightarrow> \<exists>ob. objs s' x = Some ob \<and> (m_state (co_conn ob) = kConnected \<or> m_state (co_conn ob) = kDisconnecting)"
  shows "handled s' i ps obj reads"
proof (cases "obj = x")
  case False
  then show ?thesis using assms(1,3) by (simp add: handled_def local_change_def)
next
  case True
  then show ?thesis using assms(2-4) unfolding handled_def stays_def by (metis option.inject)
qed

lemma events_inv_change:
  assumes "events_inv s ph" "local_change x j p fd s s'" "stays x s s'"
    and "\<And>l cbs ps. ph j = InEvents cbs ps \<Longrightarrow> p \<in> set ps \<Longrightarrow> loops s' j = Some l \<Longrightarrow>
       \<exists>c. chans (m_epoller l) p = Some c \<and> m_index c = kAdded"
    and "\<And>i cbs ps. ph i = InEvents cbs ps \<Longrightarrow> CbRead x \<in> set cbs \<Longrightarrow>
       \<exists>ob. objs s' x = Some ob \<and> (m_state (co_conn ob) = kConnected \<or> m_state (co_conn ob) = kDisconnecting)"
  shows "events_inv s' ph"
  unfolding events_inv_def
proof (intro allI conjI impI ballI)
  fix i cbs ps assume ph: "ph i = InEvents cbs ps"
  note old = assms(1) [unfolded events_inv_def, rule_format, of i, THEN conjunct2, rule_format, OF ph]
  show "distinct cbs" "distinct ps" using old by simp_all
  show "added s' i q" if "q \<in> set ps" for q
    using added_change [OF assms(2), of i q] old that assms(4) ph by blast
  have b: "srv_loop (srv s') = srv_loop (srv s)" using assms(2) by (simp add: local_change_def)
  show "cb_ok s' i ps cb" if "cb \<in> set cbs" for cb
  proof (cases cb)
    case (CbRead obj)
    then have "handled s i ps obj True" using old that by fastforce
    from handled_change [OF assms(2,3) this] show ?thesis using assms(5) [OF ph] that CbRead by auto
  next
    case (CbWrite obj)
    then have "handled s i ps obj False" using old that by fastforce
    from handled_change [OF assms(2,3) this] CbWrite show ?thesis by simp
  next
    case (CbError obj)
    then have "handled s i ps obj False" using old that by fastforce
    from handled_change [OF assms(2,3) this] CbError show ?thesis by simp
  qed (use old that b in fastforce)+
qed (use assms(1) loop_kept [OF assms(2)] in \<open>auto simp: events_inv_def\<close>)

lemma srv_inv_change:
  assumes "srv_inv s" "local_change x j p fd s s'"
    and "0 \<le> m_next_connection_id (srv s')" "m_next_connection_id (srv s') < int_max"
    and "\<And>fd'. m_connections (srv s') fd' = Some x \<Longrightarrow> entry_ok s' fd' x"
  shows "srv_inv s'"
proof -
  note D = local_changeD [OF assms(2)]
  have "reactor_inv (m_epoller l')" if "loops s' i = Some l'" for i l'
  proof (cases "i = j")
    case False
    then have "map_option m_epoller (loops s i) = Some (m_epoller l')" using D(3) [of i, symmetric] that by simp
    then obtain l where "loops s i = Some l" "m_epoller l = m_epoller l'" by auto
    then show ?thesis using assms(1) unfolding srv_inv_def by metis
  qed (use D(4) that in \<open>auto simp: reg_only_def\<close>)
  moreover have "entry_ok s' fd' obj" if "m_connections (srv s') fd' = Some obj" for fd' obj
  proof (cases "obj = x")
    case False
    then have "entry_ok s fd' obj" using assms(1,2) that by (simp add: srv_inv_def local_change_def)
    then show ?thesis using D(2) [OF False] loop_kept [OF assms(2)] by (auto simp: entry_ok_def split: option.splits)
  qed (use assms(5) that in blast)
  ultimately show ?thesis using assms(1,3,4) D(1) loop_kept [OF assms(2), of "srv_loop (srv s)"] by (simp add: srv_inv_def)
qed

lemma world_inv_change:
  assumes "world_inv s" "local_change x j p fd s s'" "srv_inv s'"
    and "pool_ready (m_loop_thread_pool (srv s'))" "m_loops (m_loop_thread_pool (srv s')) = m_loops (m_loop_thread_pool (srv s))"
    and "\<And>i. map_option m_thread_id (loops s' i) = map_option m_thread_id (loops s i)"
  shows "world_inv s'"
proof -
  have "i = k" if "loops s' i = Some l" "loops s' k = Some l'" "m_thread_id l = m_thread_id l'" for i k l l'
  proof -
    have "map_option m_thread_id (loops s i) = Some (m_thread_id l)" "map_option m_thread_id (loops s k) = Some (m_thread_id l)"
      using assms(6) [of i, symmetric] assms(6) [of k, symmetric] that by simp_all
    then obtain a b where "loops s i = Some a" "loops s k = Some b" "m_thread_id a = m_thread_id b" by auto
    then show ?thesis using assms(1) unfolding world_inv_def by blast
  qed
  then show ?thesis using assms(1,3-5) local_changeD(1) [OF assms(2)] loop_kept [OF assms(2)]
    unfolding world_inv_def by metis
qed

text \<open>All parts together, but for the phases and timers.\<close>

lemma net_ok_change:
  assumes "net_ok s q ph" "local_change x j p fd s s'" "stays x s s'" "world_inv s'" "timers_inv s'"
    and "\<And>ob. objs s' x = Some ob \<Longrightarrow> \<exists>st. obj_at st s' q' x ob"
    and "\<And>obj i. obj \<noteq> x \<Longrightarrow> about obj (q' i) = about obj (q i)"
    and "\<And>ob' obj ob. objs s x = None \<Longrightarrow> objs s' x = Some ob' \<Longrightarrow> objs s obj = Some ob \<Longrightarrow>
       m_conn_fd (co_conn ob') \<noteq> m_conn_fd (co_conn ob)"
    and "\<And>l c. loops s' j = Some l \<Longrightarrow> chans (m_epoller l) p = Some c \<Longrightarrow> owned s' j p \<or> sys_chan (j = srv_loop (srv s)) c"
    and "\<And>i f. f \<in> set (q' i) \<Longrightarrow> f \<in> set (q i) \<or> loops s i \<noteq> None \<and> task_ok s' i f"
    and "\<And>l cbs ps. ph j = InEvents cbs ps \<Longrightarrow> p \<in> set ps \<Longrightarrow> loops s' j = Some l \<Longrightarrow>
       \<exists>c. chans (m_epoller l) p = Some c \<and> m_index c = kAdded"
    and "\<And>i cbs ps. ph i = InEvents cbs ps \<Longrightarrow> CbRead x \<in> set cbs \<Longrightarrow>
       \<exists>ob. objs s' x = Some ob \<and> (m_state (co_conn ob) = kConnected \<or> m_state (co_conn ob) = kDisconnecting)"
  shows "net_ok s' q' ph"
proof -
  have n: "objs_inv s q" "fds_inv s" "chans_inv s" "tasks_inv s q" "events_inv s ph" using assms(1) by (simp_all add: net_ok_def)
  have "objs_inv s' q'" by (rule objs_inv_change [OF n(1) assms(2)]) (use assms(6,7) in blast)+
  moreover have "fds_inv s'" by (rule fds_inv_change [OF n(2) assms(2,3)]) (use assms(8) in blast)
  moreover have "chans_inv s'" by (rule chans_inv_change [OF n(3) assms(2,3)]) (use assms(9) in blast)
  moreover have "tasks_inv s' q'" by (rule tasks_inv_change [OF n(4) assms(2,3)]) (use assms(10) in blast)
  moreover have "events_inv s' ph" by (rule events_inv_change [OF n(5) assms(2,3)]) (use assms(11,12) in blast)+
  ultimately show ?thesis using assms(4,5) by (simp add: net_ok_def)
qed

section \<open>The life of a connection over a step\<close>

text \<open>The stages follow each other in one order; a new object is fresh.\<close>

fun advances :: "life \<Rightarrow> life \<Rightarrow> bool" where
  "advances Fresh st \<longleftrightarrow> st \<in> {Fresh, Open}"
| "advances Open st \<longleftrightarrow> st \<in> {Open, Closing}"
| "advances Closing st \<longleftrightarrow> st \<in> {Closing, Removing}"
| "advances Removing st \<longleftrightarrow> st \<in> {Removing, Detached}"
| "advances Detached st \<longleftrightarrow> st = Detached"

definition moves :: "(life \<Rightarrow> life \<Rightarrow> bool) \<Rightarrow> http_server \<Rightarrow> (nat \<Rightarrow> http_task list) \<Rightarrow> http_server \<Rightarrow> (nat \<Rightarrow> http_task list) \<Rightarrow> bool" where
  "moves R s q s' q' \<longleftrightarrow>
     (\<forall>obj ob st. objs s obj = Some ob \<longrightarrow> obj_at st s q obj ob \<longrightarrow> (\<exists>ob' st'. objs s' obj = Some ob' \<and> obj_at st' s' q' obj ob' \<and> R st st')) \<and>
     (\<forall>obj ob. objs s obj = None \<longrightarrow> objs s' obj = Some ob \<longrightarrow> obj_at Fresh s' q' obj ob)"

lemma stage_unique: "stage_ok st obj co c mp q qb b \<Longrightarrow> stage_ok st' obj co c mp q qb b \<Longrightarrow> st = st'"
  by (cases st; cases st') (auto simp: up_chan_def)

lemma obj_at_unique: "obj_at st s q obj ob \<Longrightarrow> obj_at st' s q obj ob \<Longrightarrow> st = st'"
  using stage_unique by (fastforce simp: obj_at_def)

lemma advances_refl [simp]: "advances st st"
  by (cases st) simp_all

lemma moves_mono: "moves R s q s' q' \<Longrightarrow> (\<And>st st'. R st st' \<Longrightarrow> R' st st') \<Longrightarrow> moves R' s q s' q'"
  unfolding moves_def by meson

lemma moves_same_objs:
  assumes "objs s' = objs s" "\<And>st obj ob. obj_at st s q obj ob \<Longrightarrow> objs s obj = Some ob \<Longrightarrow> obj_at st s' q' obj ob"
  shows "moves (=) s q s' q'"
  using assms unfolding moves_def by simp

lemma moves_trans:
  assumes "moves (=) s q t r" "moves (=) t r u p"
  shows "moves (=) s q u p"
proof -
  note h = assms [unfolded moves_def]
  have "obj_at Fresh u p obj ob" if a: "objs s obj = None" "objs u obj = Some ob" for obj ob
  proof (cases "objs t obj")
    case None
    then show ?thesis using h(2) a(2) by blast
  next
    case (Some ob1)
    then have "obj_at Fresh t r obj ob1" using h(1) a(1) by blast
    then show ?thesis using h(2) Some a(2) by fastforce
  qed
  then show ?thesis unfolding moves_def using h by blast
qed

lemma moves_change:
  assumes "local_change x j p fd s s'" "\<And>obj i. obj \<noteq> x \<Longrightarrow> about obj (q' i) = about obj (q i)" "\<And>st. R st st"
    and "\<And>ob st. objs s x = Some ob \<Longrightarrow> obj_at st s q x ob \<Longrightarrow> \<exists>ob' st'. objs s' x = Some ob' \<and> obj_at st' s' q' x ob' \<and> R st st'"
    and "\<And>ob. objs s x = None \<Longrightarrow> objs s' x = Some ob \<Longrightarrow> obj_at Fresh s' q' x ob"
  shows "moves R s q s' q'"
  unfolding moves_def
proof (intro conjI allI impI)
  fix obj ob st assume a: "objs s obj = Some ob" "obj_at st s q obj ob"
  show "\<exists>ob' st'. objs s' obj = Some ob' \<and> obj_at st' s' q' obj ob' \<and> R st st'"
  proof (cases "obj = x")
    case False
    have "obj_at st s' q' obj ob" using obj_at_change [OF assms(1) False a(1) _ a(2), of q'] assms(2) [OF False] by blast
    then show ?thesis using assms(3) local_changeD(2) [OF assms(1) False] a(1) by auto
  qed (use assms(4) a in simp)
next
  fix obj ob assume a: "objs s obj = None" "objs s' obj = Some ob"
  then show "obj_at Fresh s' q' obj ob" using assms(5) local_changeD(2) [OF assms(1), of obj] by (cases "obj = x") auto
qed

lemma moves_refl: "(\<And>st. R st st) \<Longrightarrow> (\<And>obj i. about obj (q' i) = about obj (q i)) \<Longrightarrow> moves R s q s q'"
  unfolding moves_def obj_at_def by auto

lemma moves_self [simp]: "moves advances s q s q" "moves (=) s q s q"
  by (rule moves_refl, simp, simp)+

text \<open>What a step of the system does to every connection: it advances, is new, or is gone after the last stage.\<close>

definition lives_go_on :: "net_sys \<Rightarrow> net_sys \<Rightarrow> bool" where
  "lives_go_on \<sigma> \<sigma>' \<longleftrightarrow> (\<forall>obj. case objs (nw \<sigma>) obj of
       None \<Rightarrow> (\<forall>ob'. objs (nw \<sigma>') obj = Some ob' \<longrightarrow> obj_at Fresh (nw \<sigma>') (todo \<sigma>') obj ob')
     | Some ob \<Rightarrow> (\<forall>st. obj_at st (nw \<sigma>) (todo \<sigma>) obj ob \<longrightarrow>
         (case objs (nw \<sigma>') obj of
            None \<Rightarrow> st = Detached
          | Some ob' \<Rightarrow> (\<exists>st'. obj_at st' (nw \<sigma>') (todo \<sigma>') obj ob' \<and> advances st st'))))"

lemma moves_lives: "moves advances (nw \<sigma>) (todo \<sigma>) (nw \<sigma>') (todo \<sigma>') \<Longrightarrow> lives_go_on \<sigma> \<sigma>'"
  unfolding moves_def lives_go_on_def by (fastforce split: option.split)

end
