(* ===== verification/ConnSteps.thy ===== *)
theory ConnSteps
  imports NetSystems
begin

text \<open>
  The steps of the running server that concern one connection: its read, write and error callbacks
  and the functors about it keep the invariant of the system and cannot fault.
\<close>

section \<open>Steps of a connection\<close>

lemma net_ok_obj:
  assumes "net_ok s q ph" "objs s obj = Some ob"
  shows "\<exists>st. obj_at st s q obj ob"
  using assms by (auto simp: net_ok_def objs_inv_def)

text \<open>The events a loop has still to handle.\<close>

lemma active_added: "net_ok s q ph \<Longrightarrow> ph i = InEvents cbs ps \<Longrightarrow> p \<in> set ps \<Longrightarrow> added s i p"
  unfolding net_ok_def events_inv_def by blast

lemma pending_read:
  assumes "net_ok s q ph" "ph i = InEvents cbs ps" "CbRead obj \<in> set cbs"
  shows "\<exists>ob. objs s obj = Some ob \<and> co_loop ob = i \<and> (m_state (co_conn ob) = kConnected \<or> m_state (co_conn ob) = kDisconnecting)"
proof -
  have "cb_ok s i ps (CbRead obj)" using assms unfolding net_ok_def events_inv_def by blast
  then show ?thesis by (auto simp: handled_def)
qed

text \<open>Two objects of a loop do not share a channel or a descriptor.\<close>

lemma channel_identity:
  assumes "net_ok s q ph" "objs s x = Some a" "objs s y = Some b" "co_loop a = co_loop b" "x \<noteq> y"
  shows "m_channel (co_conn b) \<noteq> m_channel (co_conn a)" "m_conn_fd (co_conn b) \<noteq> m_conn_fd (co_conn a)"
proof -
  obtain st st' where "obj_at st s q x a" "obj_at st' s q y b" using net_ok_obj [OF assms(1)] assms(2,3) by blast
  then show "m_channel (co_conn b) \<noteq> m_channel (co_conn a)"
    using assms(4,5) by (auto simp: obj_at_def conn_chan_def)
  show "m_conn_fd (co_conn b) \<noteq> m_conn_fd (co_conn a)"
    using assms(1-3,5) unfolding net_ok_def fds_inv_def by metis
qed

lemma conn_effect_local:
  assumes "net_ok s q ph" "conn_effect s obj ob ob' r fs s'" "conn_wf obj (co_conn ob')"
  shows "local_change obj (co_loop ob) (m_channel (co_conn ob)) (m_conn_fd (co_conn ob)) s s'" "stays obj s s'"
    "world_inv s'" "timers_inv s'"
proof -
  let ?i = "co_loop ob" and ?b = "srv_loop (srv s)" and ?p = "m_channel (co_conn ob)" and ?fd = "m_conn_fd (co_conn ob)"
  obtain l base base' where e: "objs s obj = Some ob" "loops s ?i = Some l" "loops s ?b = Some base"
    "srv s' = srv s" "upper s' = upper s" "objs s' = (objs s)(obj \<mapsto> ob')" "co_loop ob' = ?i"
    "m_channel (co_conn ob') = ?p" "m_conn_fd (co_conn ob') = ?fd" "loops s' = (loops s)(?i \<mapsto> l\<lparr>m_epoller := r\<rparr>, ?b \<mapsto> base')"
    "reg_only ?p ?fd (m_epoller l) r" "m_epoller base' = m_epoller base" "m_thread_id base' = m_thread_id base"
    using assms(2) by (auto simp: conn_effect_def)
  obtain st where "obj_at st s q obj ob" using net_ok_obj [OF assms(1) e(1)] by blast
  then have ib: "?i \<noteq> ?b" by (simp add: obj_at_def)
  show loc: "local_change obj ?i ?p ?fd s s'"
    using e ib channel_identity [OF assms(1) e(1)] by (auto simp: local_change_def)
  show st: "stays obj s s'" using e by (simp add: stays_def)
  have w: "world_inv s" using assms(1) by (simp add: net_ok_def)
  then have "srv_inv s" by (simp add: world_inv_def)
  then have "entry_ok s fd' obj" if "m_connections (srv s) fd' = Some obj" for fd' using that by (simp add: srv_inv_def)
  then have "srv_inv s'" using \<open>srv_inv s\<close> e assms(3) ib
    by (intro srv_inv_change [OF _ loc]) (auto simp: srv_inv_def entry_ok_def conn_wf_def)
  moreover have "map_option m_thread_id (loops s' i) = map_option m_thread_id (loops s i)" for i using e ib by auto
  ultimately show "world_inv s'" using w e(4) by (intro world_inv_change [OF w loc]) (simp_all add: world_inv_def)
  show "timers_inv s'" using assms(1) e ib by (auto simp: net_ok_def timers_inv_def)
qed

lemma net_ok_conn:
  assumes "net_ok s q ph" "conn_effect s obj ob ob' r fs s'" "conn_wf obj (co_conn ob')"
    and "chans r (m_channel (co_conn ob)) = Some c" "conn_chan obj (m_conn_fd (co_conn ob)) c"
    and "stage_ok st obj (co_conn ob') c (m_channels r (m_conn_fd (co_conn ob))) (about obj (q' (co_loop ob)))
        (about obj (q' (srv_loop (srv s)))) (m_connections (srv s) (m_conn_fd (co_conn ob)) = Some obj)"
    and "\<And>y i. y \<noteq> obj \<Longrightarrow> about y (q' i) = about y (q i)"
    and "\<And>i f. f \<in> set (q' i) \<Longrightarrow> f \<in> set (q i) \<or> loops s i \<noteq> None \<and> task_ok s' i f"
    and "\<And>cbs ps. ph (co_loop ob) = InEvents cbs ps \<Longrightarrow> m_channel (co_conn ob) \<in> set ps \<Longrightarrow> m_index c = kAdded"
    and "\<And>i cbs ps. ph i = InEvents cbs ps \<Longrightarrow> CbRead obj \<in> set cbs \<Longrightarrow>
       m_state (co_conn ob') = kConnected \<or> m_state (co_conn ob') = kDisconnecting"
  shows "net_ok s' q' ph"
proof -
  let ?i = "co_loop ob" and ?b = "srv_loop (srv s)" and ?p = "m_channel (co_conn ob)" and ?fd = "m_conn_fd (co_conn ob)"
  note loc = conn_effect_local [OF assms(1-3)]
  obtain l base' where e: "objs s obj = Some ob" "srv s' = srv s" "objs s' = (objs s)(obj \<mapsto> ob')" "co_loop ob' = ?i"
    "m_channel (co_conn ob') = ?p" "m_conn_fd (co_conn ob') = ?fd" "loops s' = (loops s)(?i \<mapsto> l\<lparr>m_epoller := r\<rparr>, ?b \<mapsto> base')"
    using assms(2) by (auto simp: conn_effect_def)
  obtain st' where "obj_at st' s q obj ob" using net_ok_obj [OF assms(1) e(1)] by blast
  then have l': "loops s' ?i = Some (l\<lparr>m_epoller := r\<rparr>)" "?i \<noteq> ?b" using e(7) by (simp_all add: obj_at_def)
  have at: "obj_at st s' q' obj ob'" using assms(3-6) e l' by (simp add: obj_at_def)
  show ?thesis
  proof (rule net_ok_change [OF assms(1) loc])
    show "owned s' ?i ?p \<or> sys_chan (?i = ?b) c" for c using e by (auto simp: owned_def)
  qed (use e at l' assms(4,7-10) in auto)
qed

text \<open>Nothing but queues, flags, the events reported to channels and the acceptor changes.\<close>

definition calm_loop :: "timer_cb Timer net_loop \<Rightarrow> timer_cb Timer net_loop \<Rightarrow> bool" where
  "calm_loop l l' \<longleftrightarrow> m_thread_id l' = m_thread_id l \<and> m_channels (m_epoller l') = m_channels (m_epoller l) \<and>
     (reactor_inv (m_epoller l) \<longrightarrow> reactor_inv (m_epoller l')) \<and>
     (\<forall>p. rel_option (\<lambda>c c'. \<exists>x. c' = setRevents c x) (chans (m_epoller l) p) (chans (m_epoller l') p))"

lemma setRevents_same [simp]:
  "m_fd (setRevents c x) = m_fd c" "m_index (setRevents c x) = m_index c" "m_events (setRevents c x) = m_events c"
  "m_tied (setRevents c x) = m_tied c" "m_tie (setRevents c x) = m_tie c" "isWriting (setRevents c x) = isWriting c"
  "m_read_callback (setRevents c x) = m_read_callback c" "m_write_callback (setRevents c x) = m_write_callback c"
  "m_error_callback (setRevents c x) = m_error_callback c" "m_close_callback (setRevents c x) = m_close_callback c"
  "isReading (setRevents c x) = isReading c"
  by (simp_all add: setRevents_def isWriting_def isReading_def)

lemma revents_irrelevant [simp]:
  "conn_chan obj fd (setRevents c x) = conn_chan obj fd c" "up_chan co (setRevents c x) = up_chan co c"
  "sys_chan b (setRevents c x) = sys_chan b c" "updatable r p (setRevents c x) = updatable r p c"
  "stage_ok st obj co (setRevents c x) mp q qb li = stage_ok st obj co c mp q qb li"
  by (simp_all add: conn_chan_def up_chan_def sys_chan_def updatable_def) (cases st; simp add: up_chan_def)

lemma calm_loop_refl:
  "m_epoller l' = m_epoller l \<Longrightarrow> m_thread_id l' = m_thread_id l \<Longrightarrow> calm_loop l l'"
proof -
  have "\<exists>x. c = setRevents c x" for c :: "chan_cb Channel" by (intro exI [of _ "m_revents c"]) (simp add: setRevents_def)
  then show "m_epoller l' = m_epoller l \<Longrightarrow> m_thread_id l' = m_thread_id l \<Longrightarrow> calm_loop l l'"
    by (simp add: calm_loop_def option.rel_refl)
qed

lemma calm_chan:
  assumes "calm_loop l l'"
  shows "chans (m_epoller l) p = Some c \<Longrightarrow> \<exists>x. chans (m_epoller l') p = Some (setRevents c x)"
    and "chans (m_epoller l') p = Some c' \<Longrightarrow> \<exists>c x. chans (m_epoller l) p = Some c \<and> c' = setRevents c x"
proof -
  have "rel_option (\<lambda>c c'. \<exists>x. c' = setRevents c x) (chans (m_epoller l) p) (chans (m_epoller l') p)"
    using assms by (simp add: calm_loop_def)
  then show "chans (m_epoller l) p = Some c \<Longrightarrow> \<exists>x. chans (m_epoller l') p = Some (setRevents c x)"
    and "chans (m_epoller l') p = Some c' \<Longrightarrow> \<exists>c x. chans (m_epoller l) p = Some c \<and> c' = setRevents c x"
    by (auto elim: option.rel_cases simp: option_rel_Some2)
qed

definition calm :: "http_server \<Rightarrow> http_server \<Rightarrow> bool" where
  "calm s s' \<longleftrightarrow> (\<exists>a. srv s' = (srv s)\<lparr>m_acceptor := a\<rparr>) \<and> objs s' = objs s \<and> upper s' = upper s \<and>
     (\<forall>i. rel_option calm_loop (loops s i) (loops s' i))"

lemma calmD:
  assumes "calm s s'"
  shows "srv_loop (srv s') = srv_loop (srv s)" "m_connections (srv s') = m_connections (srv s)"
    "m_loop_thread_pool (srv s') = m_loop_thread_pool (srv s)" "m_next_connection_id (srv s') = m_next_connection_id (srv s)"
    "objs s' = objs s" "upper s' = upper s" "loops s' i = None \<longleftrightarrow> loops s i = None"
    "loops s' i = Some l' \<Longrightarrow> \<exists>l. loops s i = Some l \<and> calm_loop l l'"
    "loops s i = Some l \<Longrightarrow> \<exists>l'. loops s' i = Some l' \<and> calm_loop l l'"
proof -
  have r: "rel_option calm_loop (loops s i) (loops s' i)" for i using assms by (simp add: calm_def)
  show "loops s' i = None \<longleftrightarrow> loops s i = None" using r [of i] by (auto elim: option.rel_cases)
  show "\<exists>l. loops s i = Some l \<and> calm_loop l l'" if "loops s' i = Some l'" using r [of i] that by (auto elim: option.rel_cases)
  show "\<exists>l'. loops s' i = Some l' \<and> calm_loop l l'" if "loops s i = Some l" using r [of i] that by (auto elim: option.rel_cases)
qed (use assms in \<open>auto simp: calm_def\<close>)

lemma calm_same:
  assumes "\<exists>a. srv s' = (srv s)\<lparr>m_acceptor := a\<rparr>" "objs s' = objs s" "upper s' = upper s"
    and "\<And>i. map_option (\<lambda>l. (m_epoller l, m_thread_id l)) (loops s' i) = map_option (\<lambda>l. (m_epoller l, m_thread_id l)) (loops s i)"
  shows "calm s s'"
proof -
  have "rel_option calm_loop (loops s i) (loops s' i)" for i
    using assms(4) [of i] by (cases "loops s i"; cases "loops s' i") (auto intro: calm_loop_refl)
  then show ?thesis using assms(1-3) by (simp add: calm_def)
qed

lemma world_inv_calm:
  assumes "calm s s'" "world_inv s"
  shows "world_inv s'"
proof -
  note c = calmD [OF assms(1)]
  have "entry_ok s' fd obj = entry_ok s fd obj" for fd obj using c(5,7) by (simp add: entry_ok_def split: option.split)
  moreover have "reactor_inv (m_epoller l')" if "loops s' i = Some l'" for i l'
    using c(8) [OF that] assms(2) by (auto simp: world_inv_def srv_inv_def calm_loop_def)
  ultimately have "srv_inv s'" using assms(2) c by (simp add: world_inv_def srv_inv_def)
  moreover have "i = j" if a: "loops s' i = Some l" "loops s' j = Some l'" "m_thread_id l = m_thread_id l'" for i j l l'
  proof -
    obtain k k' where "loops s i = Some k" "loops s j = Some k'" "m_thread_id k = m_thread_id k'"
      using c(8) [OF a(1)] c(8) [OF a(2)] a(3) by (auto simp: calm_loop_def)
    then show ?thesis using assms(2) unfolding world_inv_def by blast
  qed
  ultimately show ?thesis using assms(2) c(1,3,7) unfolding world_inv_def by metis
qed

lemma obj_at_calm:
  assumes "calm s s'" "obj_at st s q obj ob"
  shows "obj_at st s' q obj ob"
proof -
  note c = calmD [OF assms(1)]
  obtain l d where l: "loops s (co_loop ob) = Some l" "chans (m_epoller l) (m_channel (co_conn ob)) = Some d"
    using assms(2) by (auto simp: obj_at_def)
  obtain l' where l': "loops s' (co_loop ob) = Some l'" "calm_loop l l'" using c(9) [OF l(1)] by blast
  obtain x where "chans (m_epoller l') (m_channel (co_conn ob)) = Some (setRevents d x)" using calm_chan(1) [OF l'(2) l(2)] by blast
  then show ?thesis using assms(2) l l' c(1,2) by (auto simp: obj_at_def calm_loop_def)
qed

lemma chans_inv_calm:
  assumes "calm s s'" "chans_inv s"
  shows "chans_inv s'"
  unfolding chans_inv_def
proof (intro allI impI)
  note c = calmD [OF assms(1)]
  fix i l' p c' assume a: "loops s' i = Some l'" "chans (m_epoller l') p = Some c'"
  have o: "owned s' i p = owned s i p" using c(5) by (simp add: owned_def)
  obtain l where l: "loops s i = Some l" "calm_loop l l'" using c(8) [OF a(1)] by blast
  obtain d x where "chans (m_epoller l) p = Some d" "c' = setRevents d x" using calm_chan(2) [OF l(2) a(2)] by blast
  then show "owned s' i p \<or> sys_chan (i = srv_loop (srv s')) c'" using assms(2) l(1) o c(1) unfolding chans_inv_def by auto
qed

lemma events_inv_calm:
  assumes "calm s s'" "events_inv s ph"
  shows "events_inv s' ph"
proof -
  note c = calmD [OF assms(1)]
  have "cb_ok s' i ps cb = cb_ok s i ps cb" for i ps cb using c(1,5) by (cases cb) (simp_all add: handled_def)
  moreover have "added s' i p" if h: "added s i p" for i p
  proof -
    obtain l d where l: "loops s i = Some l" "chans (m_epoller l) p = Some d" "m_index d = kAdded" using h by (auto simp: added_def)
    obtain l' where l': "loops s' i = Some l'" "calm_loop l l'" using c(9) [OF l(1)] by blast
    then show ?thesis using calm_chan(1) [OF l'(2) l(2)] l(3) by (auto simp: added_def)
  qed
  ultimately show ?thesis using assms(2) c(7) by (simp add: events_inv_def)
qed

lemma timers_inv_calm:
  assumes "calm s s'" "timers_inv s"
  shows "timers_inv s'"
proof -
  note c = calmD [OF assms(1)]
  obtain base d where t: "loops s (srv_loop (srv s)) = Some base"
    "chans (m_epoller base) (m_timer_channel (up_timer (upper s))) = Some d" "m_read_callback d = Some CbTimer"
    "updatable (m_epoller base) (m_timer_channel (up_timer (upper s))) d"
    using assms(2) by (auto simp: timers_inv_def)
  obtain l' where l': "loops s' (srv_loop (srv s)) = Some l'" "calm_loop base l'" using c(9) [OF t(1)] by blast
  obtain x where "chans (m_epoller l') (m_timer_channel (up_timer (upper s))) = Some (setRevents d x)"
    using calm_chan(1) [OF l'(2) t(2)] by blast
  then show ?thesis using t(3,4) l' c(1,6) assms(2) by (auto simp: timers_inv_def updatable_def calm_loop_def)
qed

lemma net_ok_calm:
  assumes "net_ok s q ph" "calm s s'"
  shows "net_ok s' q ph" "moves (=) s q s' q"
proof -
  note c = calmD [OF assms(2)]
  have "task_ok s' i f = task_ok s i f" for i f using c(1,5) by (cases f) (simp_all add: lives_on_def)
  then have "tasks_inv s' q" using assms(1) c(7) by (simp add: net_ok_def tasks_inv_def)
  moreover have "objs_inv s' q" using assms(1) c(5) obj_at_calm [OF assms(2)] unfolding net_ok_def objs_inv_def by metis
  moreover have "fds_inv s'" using assms(1) c(5) by (simp add: net_ok_def fds_inv_def)
  ultimately show "net_ok s' q ph" using assms(1) world_inv_calm [OF assms(2)] chans_inv_calm [OF assms(2)]
      events_inv_calm [OF assms(2)] timers_inv_calm [OF assms(2)] by (simp add: net_ok_def)
  show "moves (=) s q s' q" using c(5) obj_at_calm [OF assms(2)] by (intro moves_same_objs) auto
qed

lemmas net_ok_same = net_ok_calm [OF _ calm_same]

lemma events_inv_drop:
  assumes "events_inv s ph" "ph i = InEvents (cb # cbs) ps"
  shows "events_inv s (ph(i := InEvents cbs ps))" "cb_ok s i ps cb" "cb \<notin> set cbs" "loops s i \<noteq> None"
proof -
  have "ph i \<noteq> AtPoll" using assms(2) by simp
  then have "loops s i \<noteq> None" "distinct (cb # cbs) \<and> distinct ps \<and> (\<forall>p \<in> set ps. added s i p) \<and> (\<forall>c \<in> set (cb # cbs). cb_ok s i ps c)"
    using assms unfolding events_inv_def by blast+
  then show "events_inv s (ph(i := InEvents cbs ps))" "cb_ok s i ps cb" "cb \<notin> set cbs" "loops s i \<noteq> None"
    using assms(1) by (auto simp: events_inv_def)
qed

lemma events_inv_functors: "events_inv s ph \<Longrightarrow> loops s i \<noteq> None \<Longrightarrow> events_inv s (ph(i := InFunctors fs))"
  "events_inv s ph \<Longrightarrow> events_inv s (ph(i := AtPoll))"
  by (auto simp: events_inv_def)

text \<open>Where an object of a loop is found.\<close>

lemma located_on:
  assumes "net_ok s q ph" "objs s obj = Some ob" "loops s (co_loop ob) = Some l" "obj_at st s q obj ob"
  shows "\<exists>base. located s obj ob l base (m_thread_id l)" "reactor_inv (m_epoller l)"
proof -
  have w: "world_inv s" using assms(1) by (simp add: net_ok_def)
  then obtain base where b: "loops s (srv_loop (srv s)) = Some base" by (auto simp: world_inv_def srv_inv_def)
  have ne: "co_loop ob \<noteq> srv_loop (srv s)" "m_self (co_conn ob) = obj" using assms(4) by (simp_all add: obj_at_def conn_wf_def)
  then have "m_thread_id base \<noteq> m_thread_id l" using w b assms(3) unfolding world_inv_def by metis
  then show "\<exists>base. located s obj ob l base (m_thread_id l)"
    using assms(2,3) b ne by (auto simp: located_def isInLoopThread_def)
  show "reactor_inv (m_epoller l)" using w assms(3) by (simp add: world_inv_def srv_inv_def)
qed

lemma queued_in_effect:
  assumes "conn_effect s obj ob ob' r fs s'" "co_loop ob \<noteq> srv_loop (srv s)"
  shows "queued_in s' k = queued_in s k @ (if k = srv_loop (srv s) then fs else [])"
  using assms by (auto simp: conn_effect_def queued_in_def)

lemma about_append [simp]: "about obj (fs @ gs) = about obj fs @ about obj gs" "about obj [] = []"
  "about obj (f # fs) = (if target f = Some obj then f # about obj fs else about obj fs)"
  by (simp_all add: about_def)

lemma net_ok_quiet:
  assumes "net_ok s q ph" "conn_effect s obj ob ob' (m_epoller l) [] s'" "co_conn ob' = co_conn ob" "loops s (co_loop ob) = Some l"
    and "stage_ok st obj (co_conn ob) c (m_channels (m_epoller l) (m_conn_fd (co_conn ob))) (about obj (q' (co_loop ob)))
        (about obj (q' (srv_loop (srv s)))) (m_connections (srv s) (m_conn_fd (co_conn ob)) = Some obj)"
    and "chans (m_epoller l) (m_channel (co_conn ob)) = Some c" "conn_wf obj (co_conn ob)" "conn_chan obj (m_conn_fd (co_conn ob)) c"
    and "\<And>y i. y \<noteq> obj \<Longrightarrow> about y (q' i) = about y (q i)" "\<And>i f. f \<in> set (q' i) \<Longrightarrow> f \<in> set (q i)"
  shows "net_ok s' q' ph"
proof (rule net_ok_conn [OF assms(1,2)])
  have o: "objs s obj = Some ob" using assms(2) by (auto simp: conn_effect_def)
  show "m_index c = kAdded" if "ph (co_loop ob) = InEvents cbs ps" "m_channel (co_conn ob) \<in> set ps" for cbs ps
    using active_added [OF assms(1) that] assms(4,6) by (auto simp: added_def)
  show "m_state (co_conn ob') = kConnected \<or> m_state (co_conn ob') = kDisconnecting"
    if "ph i = InEvents cbs ps" "CbRead obj \<in> set cbs" for i cbs ps
    using pending_read [OF assms(1) that] o assms(3) by auto
qed (use assms in auto)

lemma obj_at_open:
  assumes "obj_at st s q obj ob" "m_state (co_conn ob) = kConnected \<or> m_state (co_conn ob) = kDisconnecting"
  shows "st = Open"
  using assms by (cases st) (auto simp: obj_at_def)

lemma obj_at_conn_open:
  assumes "obj_at Open s q obj ob" "loops s (co_loop ob) = Some l" "reactor_inv (m_epoller l)"
  shows "\<exists>c. conn_open (view s ob l) c"
  using assms by (auto simp: obj_at_def conn_open_def conn_wf_def)

text \<open>
  What running one callback or functor does to the system, for the functors \<open>q0\<close> there were and
  the functors \<open>q\<close> that are left then.
\<close>

definition same_threads :: "http_server \<Rightarrow> http_server \<Rightarrow> bool" where
  "same_threads s s' \<longleftrightarrow> srv_loop (srv s') = srv_loop (srv s) \<and>
     (\<forall>k. map_option m_thread_id (loops s' k) = map_option m_thread_id (loops s k))"

lemma same_threads_trans: "same_threads s t \<Longrightarrow> same_threads t u \<Longrightarrow> same_threads s u"
  by (simp add: same_threads_def)

lemma conn_effect_threads: "conn_effect s obj ob ob' r fs s' \<Longrightarrow> same_threads s s'"
  by (auto simp: conn_effect_def same_threads_def)

definition runs_ok :: "(life \<Rightarrow> life \<Rightarrow> bool) \<Rightarrow> http_server result \<Rightarrow> http_server \<Rightarrow> (nat \<Rightarrow> http_task list) \<Rightarrow>
   (nat \<Rightarrow> http_task list) \<Rightarrow> (nat \<Rightarrow> phase) \<Rightarrow> bool" where
  "runs_ok R res s q0 q ph \<longleftrightarrow> (\<exists>s' more. res = Inr s' \<and> same_threads s s' \<and> (\<forall>k. queued_in s' k = queued_in s k @ more k) \<and>
     net_ok s' (\<lambda>k. q k @ more k) ph \<and> moves R s q0 s' (\<lambda>k. q k @ more k))"

lemma moves_conn:
  assumes "net_ok s q0 ph" "conn_effect s obj ob ob' r fs s'" "net_ok s' q ph'"
    and "\<And>y i. y \<noteq> obj \<Longrightarrow> about y (q i) = about y (q0 i)"
    and "\<And>st st'. obj_at st s q0 obj ob \<Longrightarrow> obj_at st' s' q obj ob' \<Longrightarrow> advances st st'"
  shows "moves advances s q0 s' q"
proof -
  have e: "objs s obj = Some ob" "objs s' obj = Some ob'" using assms(2) by (auto simp: conn_effect_def)
  obtain st' where st': "obj_at st' s' q obj ob'" using net_ok_obj [OF assms(3) e(2)] by blast
  then have "conn_wf obj (co_conn ob')" by (simp add: obj_at_def)
  note loc = conn_effect_local(1) [OF assms(1,2) this]
  show ?thesis by (rule moves_change [OF loc assms(4)]) (use e st' assms(5) in auto)
qed

lemma runs_okI:
  assumes "res = Inr s'" "conn_effect s obj ob ob' r fs s'" "co_loop ob \<noteq> srv_loop (srv s)" "net_ok s q0 ph"
    and "net_ok s' (\<lambda>k. q k @ (if k = srv_loop (srv s) then fs else [])) ph"
    and "\<And>y i. y \<noteq> obj \<Longrightarrow> about y (q i @ (if i = srv_loop (srv s) then fs else [])) = about y (q0 i)"
    and "\<And>st st'. obj_at st s q0 obj ob \<Longrightarrow> obj_at st' s' (\<lambda>k. q k @ (if k = srv_loop (srv s) then fs else [])) obj ob' \<Longrightarrow>
       advances st st'"
  shows "runs_ok advances res s q0 q ph"
  unfolding runs_ok_def
  by (intro exI [of _ s'] exI [of _ "\<lambda>k. if k = srv_loop (srv s) then fs else []"])
    (use assms(1,5) queued_in_effect [OF assms(2,3)] conn_effect_threads [OF assms(2)] moves_conn [OF assms(4,2,5-7)] in simp)

lemma runs_okI_quiet:
  assumes "res = Inr s'" "conn_effect s obj ob ob' r [] s'" "co_loop ob \<noteq> srv_loop (srv s)" "net_ok s q0 ph" "net_ok s' q ph"
    and "\<And>y i. y \<noteq> obj \<Longrightarrow> about y (q i) = about y (q0 i)"
    and "\<And>st st'. obj_at st s q0 obj ob \<Longrightarrow> obj_at st' s' q obj ob' \<Longrightarrow> advances st st'"
  shows "runs_ok advances res s q0 q ph"
proof -
  have "(\<lambda>k. q k @ (if k = srv_loop (srv s) then [] else [])) = q" by simp
  then show ?thesis using assms(5-7) by (intro runs_okI [OF assms(1-4)]) simp_all
qed

text \<open>An object whose connection and reactor do not change stays in its stage.\<close>

lemma quiet_stage:
  assumes "conn_effect s obj ob ob' (m_epoller l) [] s'" "co_conn ob' = co_conn ob" "loops s (co_loop ob) = Some l" "obj_at st s q obj ob"
    and "\<And>i. about obj (q' i) = about obj (q i)"
  shows "obj_at st s' q' obj ob'"
proof -
  obtain k base' where e: "srv s' = srv s" "co_loop ob' = co_loop ob"
    "loops s' = (loops s)(co_loop ob \<mapsto> k\<lparr>m_epoller := m_epoller l\<rparr>, srv_loop (srv s) \<mapsto> base')"
    using assms(1) by (auto simp: conn_effect_def)
  have "loops s' (co_loop ob) = Some (k\<lparr>m_epoller := m_epoller l\<rparr>)" using e(3) assms(4) by (simp add: obj_at_def)
  then show ?thesis using assms(2-5) e(1,2) by (simp add: obj_at_def)
qed

lemma advances_from: "obj_at st0 s q obj ob \<Longrightarrow> advances st0 st' \<Longrightarrow> obj_at st s q obj ob \<Longrightarrow> advances st st'"
  using obj_at_unique by metis

lemma up_chan_open: "up_chan (co_conn ob) c \<Longrightarrow> obj_at st s q obj ob \<Longrightarrow> st = Open"
  using obj_at_open by (auto simp: up_chan_def)

lemma runs_ok_none:
  "res = Inr s' \<Longrightarrow> queued_in s' = queued_in s \<Longrightarrow> net_ok s' q ph \<Longrightarrow> same_threads s s' \<Longrightarrow> moves R s q0 s' q \<Longrightarrow> runs_ok R res s q0 q ph"
  unfolding runs_ok_def by (intro exI [of _ s'] exI [of _ "\<lambda>_. []"]) simp

lemma runs_ok_mono: "runs_ok (=) res s q0 q ph \<Longrightarrow> runs_ok advances res s q0 q ph"
  unfolding runs_ok_def using moves_mono [of "(=)" _ _ _ _ advances] by fastforce

lemma still_open:
  assumes "net_ok s q ph" "conn_effect s obj ob ob' r [] s'" "obj_at Open s q obj ob"
    and "chans r (m_channel (co_conn ob)) = Some c" "conn_chan obj (m_conn_fd (co_conn ob)) c" "conn_wf obj (co_conn ob')"
    and "up_chan (co_conn ob') c"
  shows "net_ok s' q ph"
proof (rule net_ok_conn [OF assms(1,2,6,4,5), where st = Open])
  have "reactor_inv r" "m_channel (co_conn ob') = m_channel (co_conn ob)"
    using assms(2) by (auto simp: conn_effect_def reg_only_def)
  moreover have "m_index c = kAdded" "m_fd c = m_conn_fd (co_conn ob)" using assms(5,7) by (simp_all add: conn_chan_def up_chan_def)
  moreover from calculation have "m_channels r (m_conn_fd (co_conn ob)) = Some (m_channel (co_conn ob))"
    using reactor_inv_added [OF _ assms(4)] by simp
  ultimately show "stage_ok Open obj (co_conn ob') c (m_channels r (m_conn_fd (co_conn ob))) (about obj (q (co_loop ob)))
      (about obj (q (srv_loop (srv s)))) (m_connections (srv s) (m_conn_fd (co_conn ob)) = Some obj)"
    using assms(3,7) by (auto simp: obj_at_def)
qed (use assms(7) in \<open>auto simp: up_chan_def\<close>)

lemma now_closing:
  assumes "net_ok s q ph" "conn_effect s obj ob ob' r [FRemoveConnection obj] s'" "obj_at Open s q obj ob"
    and "chans r (m_channel (co_conn ob)) = Some c" "conn_chan obj (m_conn_fd (co_conn ob)) c" "conn_wf obj (co_conn ob')"
    and "m_state (co_conn ob') = kDisconnected" "m_index c = kDeleted" "m_events c = 0"
    and "m_channels r (m_conn_fd (co_conn ob)) = Some (m_channel (co_conn ob))"
    and "ph (co_loop ob) = InEvents cbs ps" "m_channel (co_conn ob) \<notin> set ps" "CbRead obj \<notin> set cbs"
  shows "net_ok s' (\<lambda>k. q k @ (if k = srv_loop (srv s) then [FRemoveConnection obj] else [])) ph"
proof (rule net_ok_conn [OF assms(1,2,6,4,5), where st = Closing])
  have e: "objs s obj = Some ob" "m_channel (co_conn ob') = m_channel (co_conn ob)" "srv s' = srv s"
    "objs s' obj \<noteq> None" "loops s (srv_loop (srv s)) \<noteq> None"
    using assms(2) by (auto simp: conn_effect_def)
  have ib: "co_loop ob \<noteq> srv_loop (srv s)" using assms(3) by (simp add: obj_at_def)
  show "stage_ok Closing obj (co_conn ob') c (m_channels r (m_conn_fd (co_conn ob)))
      (about obj (q (co_loop ob) @ (if co_loop ob = srv_loop (srv s) then [FRemoveConnection obj] else [])))
      (about obj (q (srv_loop (srv s)) @ (if srv_loop (srv s) = srv_loop (srv s) then [FRemoveConnection obj] else [])))
      (m_connections (srv s) (m_conn_fd (co_conn ob)) = Some obj)"
    using assms(3,7-10) e(2) ib by (auto simp: obj_at_def)
  show "f \<in> set (q i) \<or> loops s i \<noteq> None \<and> task_ok s' i f"
    if "f \<in> set (q i @ (if i = srv_loop (srv s) then [FRemoveConnection obj] else []))" for i f
    using that e by (auto split: if_splits)
  show "m_state (co_conn ob') = kConnected \<or> m_state (co_conn ob') = kDisconnecting"
    if a: "ph i = InEvents cbs' ps'" "CbRead obj \<in> set cbs'" for i cbs' ps'
    using pending_read [OF assms(1) a] a e(1) assms(11,13) by auto
qed (use assms(8,11,12) in auto)

lemma obj_at_quiet:
  assumes "obj_at st s q obj ob" "st \<noteq> Open" "loops s (co_loop ob) = Some l"
  shows "\<exists>c. chans (m_epoller l) (m_channel (co_conn ob)) = Some c \<and> \<not> isWriting c"
  using assms by (cases st) (auto simp: obj_at_def isWriting_def)

lemma call_read:
  assumes "net_ok s q ph" "ph i = InEvents cbs ps" "cb_ok s i ps (CbRead obj)" "CbRead obj \<notin> set cbs"
    and "results_ok cf rs (CbRead obj) s" "loops s i = Some l"
  shows "runs_ok advances (run_callback cf rs (m_thread_id l) i (CbRead obj) s) s q q ph"
proof -
  obtain ob where ob: "objs s obj = Some ob" "co_loop ob = i" "m_channel (co_conn ob) \<notin> set ps"
    "m_state (co_conn ob) = kConnected \<or> m_state (co_conn ob) = kDisconnecting"
    using assms(3) by (auto simp: handled_def)
  obtain st where st: "obj_at st s q obj ob" using net_ok_obj [OF assms(1) ob(1)] by blast
  have at: "obj_at Open s q obj ob" using obj_at_open [OF st ob(4)] st by simp
  obtain base where loc: "located s obj ob l base (m_thread_id l)" and r: "reactor_inv (m_epoller l)"
    using located_on [OF assms(1) ob(1) _ st] assms(6) ob(2) by blast
  obtain c where c: "conn_open (view s ob l) c" using obj_at_conn_open [OF at _ r] assms(6) ob(2) by blast
  have ib: "co_loop ob \<noteq> srv_loop (srv s)" using st by (simp add: obj_at_def)
  show ?thesis
  proof (cases "\<exists>d. rs_read rs = Inr d \<and> d \<noteq> []")
    case True
    then obtain d where d: "rs_read rs = Inr d" "d \<noteq> []" by blast
    from message_effect [OF loc c d, of cf] assms(5) d(1) ob(1)
    obtain s' ob' r c' where e: "run_callback cf rs (m_thread_id l) (co_loop ob) (CbRead obj) s = Inr s'"
      "conn_effect s obj ob ob' r [] s'" "chans r (m_channel (co_conn ob)) = Some c'"
      "conn_chan obj (m_conn_fd (co_conn ob)) c'" "conn_wf obj (co_conn ob')" "up_chan (co_conn ob') c'"
      by (auto simp: results_ok_def)
    from still_open [OF assms(1) e(2) at e(3-6)]
    have "runs_ok advances (run_callback cf rs (m_thread_id l) (co_loop ob) (CbRead obj) s) s q q ph"
      using advances_from [OF at] up_chan_open [OF e(6)] by (intro runs_okI [OF e(1,2) ib assms(1)]) (simp, simp, fastforce)
    then show ?thesis using ob(2) by simp
  next
    case False
    then have "(\<exists>e. rs_read rs = Inl e) \<or> rs_read rs = Inr []" by (cases "rs_read rs") auto
    then obtain e where d: "rs_read rs = Inl e \<or> rs_read rs = Inr []" by blast
    from close_effect [OF loc c d, of cf]
    obtain s' ob' r c' where e: "run_callback cf rs (m_thread_id l) (co_loop ob) (CbRead obj) s = Inr s'"
      "conn_effect s obj ob ob' r [FRemoveConnection obj] s'" "chans r (m_channel (co_conn ob)) = Some c'"
      "conn_chan obj (m_conn_fd (co_conn ob)) c'" "conn_wf obj (co_conn ob')" "m_state (co_conn ob') = kDisconnected"
      "m_index c' = kDeleted" "m_events c' = 0" "m_channels r (m_conn_fd (co_conn ob)) = Some (m_channel (co_conn ob))"
      by blast
    let ?q = "\<lambda>k. q k @ (if k = srv_loop (srv s) then [FRemoveConnection obj] else [])"
    have "st' = Closing" if "obj_at st' s' ?q obj ob'" for st'
      using that e(6) conn_effect_threads [OF e(2)] by (cases st') (auto simp: obj_at_def up_chan_def same_threads_def)
    then have adv: "advances st0 st'" if "obj_at st0 s q obj ob" "obj_at st' s' ?q obj ob'" for st0 st'
      using advances_from [OF at _ that(1)] that(2) by simp
    have "net_ok s' ?q ph" using now_closing [OF assms(1) e(2) at e(3-9) _ ob(3) assms(4)] assms(2) ob(2) by simp
    then have "runs_ok advances (run_callback cf rs (m_thread_id l) (co_loop ob) (CbRead obj) s) s q q ph"
      using adv by (intro runs_okI [OF e(1,2) ib assms(1)]) auto
    then show ?thesis using ob(2) by simp
  qed
qed

lemma quiet_runs:
  assumes "net_ok s q ph" "loops s i = Some l" "objs s obj = Some ob" "co_loop ob = i" "res = Inr s'"
    and "conn_effect s obj ob ob' (m_epoller l) [] s'" "co_conn ob' = co_conn ob"
  shows "runs_ok advances res s q q ph"
proof -
  obtain st where st: "obj_at st s q obj ob" using net_ok_obj [OF assms(1,3)] by blast
  then obtain c where c: "chans (m_epoller l) (m_channel (co_conn ob)) = Some c" "conn_wf obj (co_conn ob)"
    "conn_chan obj (m_conn_fd (co_conn ob)) c" "stage_ok st obj (co_conn ob) c (m_channels (m_epoller l) (m_conn_fd (co_conn ob)))
      (about obj (q (co_loop ob))) (about obj (q (srv_loop (srv s)))) (m_connections (srv s) (m_conn_fd (co_conn ob)) = Some obj)"
    "co_loop ob \<noteq> srv_loop (srv s)"
    using assms(2,4) by (auto simp: obj_at_def)
  have ok': "net_ok s' q ph"
    by (rule net_ok_quiet [OF assms(1,6,7) _ c(4,1-3)]) (use assms(2,4) in simp_all)
  have "obj_at st' s' q obj ob' \<Longrightarrow> advances st0 st'" if "obj_at st0 s q obj ob" for st0 st'
    using quiet_stage [OF assms(6,7) _ that] assms(2,4) obj_at_unique by fastforce
  then show ?thesis using ok' by (intro runs_okI_quiet [OF assms(5,6) c(5) assms(1)]) auto
qed

lemma call_write_error:
  assumes "net_ok s q ph" "loops s i = Some l"
  shows "cb_ok s i ps (CbWrite obj) \<Longrightarrow> results_ok cf rs (CbWrite obj) s \<Longrightarrow>
      runs_ok advances (run_callback cf rs (m_thread_id l) i (CbWrite obj) s) s q q ph"
    and "cb_ok s i ps (CbError obj) \<Longrightarrow> runs_ok advances (run_callback cf rs (m_thread_id l) i (CbError obj) s) s q q ph"
proof -
  have obj: "\<exists>ob base st. objs s obj = Some ob \<and> co_loop ob = i \<and> located s obj ob l base (m_thread_id l) \<and>
      reactor_inv (m_epoller l) \<and> obj_at st s q obj ob" if h: "handled s i ps obj False"
  proof -
    obtain ob where ob: "objs s obj = Some ob" "co_loop ob = i" using h by (auto simp: handled_def)
    obtain st where st: "obj_at st s q obj ob" using net_ok_obj [OF assms(1) ob(1)] by blast
    then show ?thesis using located_on [OF assms(1) ob(1) _ st] assms(2) ob by blast
  qed
  show "runs_ok advances (run_callback cf rs (m_thread_id l) i (CbWrite obj) s) s q q ph"
    if a: "cb_ok s i ps (CbWrite obj)" "results_ok cf rs (CbWrite obj) s"
  proof -
    obtain ob base st where o: "objs s obj = Some ob" "co_loop ob = i" "located s obj ob l base (m_thread_id l)"
      "reactor_inv (m_epoller l)" "obj_at st s q obj ob"
      using obj a(1) by auto
    show ?thesis
    proof (cases "st = Open")
      case True
      obtain c where c: "conn_open (view s ob l) c" using obj_at_conn_open [OF _ _ o(4)] o(2,5) True assms(2) by blast
      from write_effect [OF o(3) c, of rs cf] a(2) o(1)
      obtain s' ob' r c' where e: "run_callback cf rs (m_thread_id l) (co_loop ob) (CbWrite obj) s = Inr s'"
        "conn_effect s obj ob ob' r [] s'" "chans r (m_channel (co_conn ob)) = Some c'"
        "conn_chan obj (m_conn_fd (co_conn ob)) c'" "conn_wf obj (co_conn ob')" "up_chan (co_conn ob') c'"
        by (auto simp: results_ok_def)
      have ib: "co_loop ob \<noteq> srv_loop (srv s)" using o(5) by (simp add: obj_at_def)
      have at: "obj_at Open s q obj ob" using o(5) True by simp
      from still_open [OF assms(1) e(2) at e(3-6)]
      have "runs_ok advances (run_callback cf rs (m_thread_id l) (co_loop ob) (CbWrite obj) s) s q q ph"
        using advances_from [OF at] up_chan_open [OF e(6)] by (intro runs_okI [OF e(1,2) ib assms(1)]) (simp, simp, fastforce)
      then show ?thesis using o(2) by simp
    next
      case False
      then obtain c where "chans (m_epoller l) (m_channel (co_conn ob)) = Some c" "\<not> isWriting c"
        using obj_at_quiet [OF o(5)] assms(2) o(2) by blast
      from quiet_effects(2) [OF o(3,4) this, of cf rs] quiet_runs [OF assms o(1,2)] o(2) show ?thesis by auto
    qed
  qed
  show "runs_ok advances (run_callback cf rs (m_thread_id l) i (CbError obj) s) s q q ph" if a: "cb_ok s i ps (CbError obj)"
  proof -
    obtain ob base st where o: "objs s obj = Some ob" "co_loop ob = i" "located s obj ob l base (m_thread_id l)"
      "reactor_inv (m_epoller l)" "obj_at st s q obj ob"
      using obj a by auto
    obtain c where "chans (m_epoller l) (m_channel (co_conn ob)) = Some c" using o(2,5) assms(2) by (auto simp: obj_at_def)
    from quiet_effects(1) [OF o(3,4) this, of cf rs] quiet_runs [OF assms o(1,2)] o(2) show ?thesis by auto
  qed
qed

section \<open>Functors\<close>

lemma stage_of_head:
  assumes "stage_ok st obj co c mp (f # qs) qb listed"
  shows "f = FEstablished obj \<Longrightarrow> st = Fresh \<and> qs = []" "f = FDestructor obj \<Longrightarrow> st = Removing \<and> qs = []"
    "f = FShutDownInLoop obj \<Longrightarrow> stage_ok st obj co c mp qs qb listed"
  using assms by (cases st; auto simp: append_eq_Cons_conv Cons_eq_append_conv)+

text \<open>The events of other loops do not concern a connection of the loop that runs its functors.\<close>

lemma no_events:
  assumes "net_ok s q ph" "objs s obj = Some ob" "\<And>cbs ps. ph (co_loop ob) \<noteq> InEvents cbs ps" "ph k = InEvents cbs ps"
  shows "CbRead obj \<notin> set cbs"
  using pending_read [OF assms(1,4), of obj] assms(2-4) by fastforce

text \<open>Loop \<open>i\<close> is about to run \<open>f\<close>, and \<open>qs\<close> is what it has to run then.\<close>

definition functor_step :: "http_server \<Rightarrow> (nat \<Rightarrow> http_task list) \<Rightarrow> (nat \<Rightarrow> phase) \<Rightarrow> nat \<Rightarrow> http_task \<Rightarrow> http_task list \<Rightarrow>
   timer_cb Timer net_loop \<Rightarrow> bool" where
  "functor_step s q ph i f qs l \<longleftrightarrow> net_ok s q ph \<and> q i = f # qs \<and> (\<forall>cbs ps. ph i \<noteq> InEvents cbs ps) \<and> loops s i = Some l"

lemma functor_stepD:
  assumes "functor_step s q ph i f qs l"
  shows "net_ok s q ph" "q i = f # qs" "ph i \<noteq> InEvents cbs ps" "loops s i = Some l" "task_ok s i f"
    "target f = Some obj \<Longrightarrow> y \<noteq> obj \<Longrightarrow> about y ((q(i := qs)) k) = about y (q k)"
    "g \<in> set ((q(i := qs)) k) \<Longrightarrow> g \<in> set (q k)"
  using assms by (auto simp: functor_step_def net_ok_def tasks_inv_def split: if_splits)

lemma functor_object:
  assumes "functor_step s q ph i f qs l" "target f = Some obj" "lives_on s i obj"
  shows "\<exists>ob base st c. objs s obj = Some ob \<and> co_loop ob = i \<and> i \<noteq> srv_loop (srv s) \<and> located s obj ob l base (m_thread_id l) \<and>
     reactor_inv (m_epoller l) \<and> chans (m_epoller l) (m_channel (co_conn ob)) = Some c \<and> conn_wf obj (co_conn ob) \<and>
     conn_chan obj (m_conn_fd (co_conn ob)) c \<and>
     stage_ok st obj (co_conn ob) c (m_channels (m_epoller l) (m_conn_fd (co_conn ob))) (f # about obj qs)
       (about obj (q (srv_loop (srv s)))) (m_connections (srv s) (m_conn_fd (co_conn ob)) = Some obj) \<and> obj_at st s q obj ob"
proof -
  note ok = functor_stepD(1) [OF assms(1)] and loop = functor_stepD(4) [OF assms(1)] and head = functor_stepD(2) [OF assms(1)]
  obtain ob where ob: "objs s obj = Some ob" "co_loop ob = i" using assms(3) by (auto simp: lives_on_def)
  obtain st where st: "obj_at st s q obj ob" using net_ok_obj [OF ok ob(1)] by blast
  obtain base where base: "located s obj ob l base (m_thread_id l)" "reactor_inv (m_epoller l)"
    using located_on [OF ok ob(1) _ st] loop ob(2) by blast
  show ?thesis using st base ob loop head assms(2) by (auto simp: obj_at_def intro!: exI [of _ base] exI [of _ st])
qed

lemma run_established:
  assumes fs: "functor_step s q ph i f qs l" and f: "f = FEstablished obj"
  shows "runs_ok advances (run_functor cf rs (m_thread_id l) i f s) s q (q(i := qs)) ph"
proof -
  note ok = functor_stepD(1) [OF fs] and quiet = functor_stepD(3) [OF fs] and loop = functor_stepD(4) [OF fs]
    and task = functor_stepD(5) [OF fs] and others = functor_stepD(6) [OF fs] and popped = functor_stepD(7) [OF fs]
  obtain ob base st c where o: "objs s obj = Some ob" "co_loop ob = i" "i \<noteq> srv_loop (srv s)" "located s obj ob l base (m_thread_id l)"
    "reactor_inv (m_epoller l)" "chans (m_epoller l) (m_channel (co_conn ob)) = Some c" "conn_wf obj (co_conn ob)"
    "conn_chan obj (m_conn_fd (co_conn ob)) c"
    "stage_ok st obj (co_conn ob) c (m_channels (m_epoller l) (m_conn_fd (co_conn ob))) (f # about obj qs)
       (about obj (q (srv_loop (srv s)))) (m_connections (srv s) (m_conn_fd (co_conn ob)) = Some obj)" "obj_at st s q obj ob"
    using functor_object [OF fs, of obj] task f by auto
  note h = stage_of_head(1) [OF o(9) f]
  have st: "m_index c = kNew" "m_events c = 0" "m_channels (m_epoller l) (m_conn_fd (co_conn ob)) = None"
    "readable (m_output_buffer (co_conn ob)) = []" "about obj (q (srv_loop (srv s))) = []"
    "m_connections (srv s) (m_conn_fd (co_conn ob)) = Some obj"
    using o(9) h by simp_all
  obtain s' ob' r c' fs where e: "run_functor cf rs (m_thread_id l) (co_loop ob) (FEstablished obj) s = Inr s'"
    "conn_effect s obj ob ob' r fs s'" "fs = [] \<or> fs = [FOther (idle_timer rs obj)]" "chans r (m_channel (co_conn ob)) = Some c'"
    "conn_chan obj (m_conn_fd (co_conn ob)) c'" "conn_wf obj (co_conn ob')" "up_chan (co_conn ob') c'"
    "m_channels r (m_conn_fd (co_conn ob)) = Some (m_channel (co_conn ob))"
    using established_effect [OF o(4-6) st(1-3) o(8,7) st(4), of cf rs] by blast
  have e2: "m_channel (co_conn ob') = m_channel (co_conn ob)" "srv s' = srv s" "loops s (srv_loop (srv s)) \<noteq> None"
    using e(2) by (auto simp: conn_effect_def)
  have fs: "about y fs = []" for y using e(3) by auto
  let ?q = "\<lambda>k. (q(i := qs)) k @ (if k = srv_loop (srv s) then fs else [])"
  have ab: "about y (?q k) = about y (q k)" if "y \<noteq> obj" for y k using others [of obj y k] that f fs by simp
  have ok': "net_ok s' ?q ph"
  proof (rule net_ok_conn [OF ok e(2,6,4,5) _ ab, where st = Open])
    show "g \<in> set (q k) \<or> loops s k \<noteq> None \<and> task_ok s' k g"
      if "g \<in> set ((q(i := qs)) k @ (if k = srv_loop (srv s) then fs else []))" for k g
      using that popped [of g k] e(3) e2 by (auto simp: idle_timer_def Timer_new_def split: if_splits)
    show "stage_ok Open obj (co_conn ob') c' (m_channels r (m_conn_fd (co_conn ob)))
        (about obj ((q(i := qs)) (co_loop ob) @ (if co_loop ob = srv_loop (srv s) then fs else [])))
        (about obj ((q(i := qs)) (srv_loop (srv s)) @ (if srv_loop (srv s) = srv_loop (srv s) then fs else [])))
        (m_connections (srv s) (m_conn_fd (co_conn ob)) = Some obj)"
      using h st e(7,8) e2(1) fs o(2,3) by simp
  qed (use no_events [OF ok o(1)] quiet o(2) in auto)
  have "advances st0 st'" if "obj_at st0 s q obj ob" "obj_at st' s' ?q obj ob'" for st0 st'
    using advances_from [OF o(10) _ that(1)] h up_chan_open [OF e(7) that(2)] by simp
  then show ?thesis using runs_okI [OF e(1,2) _ ok ok' ab] o(2,3) f by blast
qed

lemma run_destructor:
  assumes fs: "functor_step s q ph i f qs l" and f: "f = FDestructor obj"
  shows "runs_ok advances (run_functor cf rs (m_thread_id l) i f s) s q (q(i := qs)) ph"
proof -
  note ok = functor_stepD(1) [OF fs] and quiet = functor_stepD(3) [OF fs] and loop = functor_stepD(4) [OF fs]
    and task = functor_stepD(5) [OF fs] and others = functor_stepD(6) [OF fs] and popped = functor_stepD(7) [OF fs]
  obtain ob base st c where o: "objs s obj = Some ob" "co_loop ob = i" "i \<noteq> srv_loop (srv s)" "located s obj ob l base (m_thread_id l)"
    "reactor_inv (m_epoller l)" "chans (m_epoller l) (m_channel (co_conn ob)) = Some c" "conn_wf obj (co_conn ob)"
    "conn_chan obj (m_conn_fd (co_conn ob)) c"
    "stage_ok st obj (co_conn ob) c (m_channels (m_epoller l) (m_conn_fd (co_conn ob))) (f # about obj qs)
       (about obj (q (srv_loop (srv s)))) (m_connections (srv s) (m_conn_fd (co_conn ob)) = Some obj)" "obj_at st s q obj ob"
    using functor_object [OF fs, of obj] task f by auto
  note h = stage_of_head(2) [OF o(9) f]
  have st: "m_state (co_conn ob) = kDisconnected" "m_channels (m_epoller l) (m_conn_fd (co_conn ob)) = Some (m_channel (co_conn ob))"
    "m_events c = 0" "about obj (q (srv_loop (srv s))) = []" "m_connections (srv s) (m_conn_fd (co_conn ob)) \<noteq> Some obj"
    using o(9) h by simp_all
  obtain s' ob' r where e: "run_functor cf rs (m_thread_id l) (co_loop ob) (FDestructor obj) s = Inr s'"
    "conn_effect s obj ob ob' r [] s'" "chans r (m_channel (co_conn ob)) = Some (c\<lparr>m_index := kDeleted\<rparr>)"
    "conn_wf obj (co_conn ob')" "m_state (co_conn ob') = kDisconnected" "m_channels r (m_conn_fd (co_conn ob)) = None"
    using destructor_effect [OF o(4-6) st(1,2) o(8,7), of cf rs] by blast
  have ab: "about y ((q(i := qs)) k) = about y (q k)" if "y \<noteq> obj" for y k using others [of obj y k] that f by simp
  have ok': "net_ok s' (q(i := qs)) ph"
  proof (rule net_ok_conn [OF ok e(2,4,3) _ _ ab, where st = Detached])
    show "conn_chan obj (m_conn_fd (co_conn ob)) (c\<lparr>m_index := kDeleted\<rparr>)" using o(8) by (simp add: conn_chan_def)
    show "stage_ok Detached obj (co_conn ob') (c\<lparr>m_index := kDeleted\<rparr>) (m_channels r (m_conn_fd (co_conn ob)))
        (about obj ((q(i := qs)) (co_loop ob))) (about obj ((q(i := qs)) (srv_loop (srv s))))
        (m_connections (srv s) (m_conn_fd (co_conn ob)) = Some obj)"
      using h st e(5,6) o(2,3) by simp
  qed (use no_events [OF ok o(1)] quiet o(2) popped in auto)
  have "advances st0 st'" if "obj_at st0 s q obj ob" "obj_at st' s' (q(i := qs)) obj ob'" for st0 st'
  proof -
    have "co_loop ob' = i" "srv s' = srv s" "m_conn_fd (co_conn ob') = m_conn_fd (co_conn ob)"
      using e(2) o(2) by (auto simp: conn_effect_def)
    then have "st' = Detached" using that(2) h st(4,5) e(5) o(3) by (cases st') (auto simp: obj_at_def up_chan_def)
    then show ?thesis using advances_from [OF o(10) _ that(1)] h by simp
  qed
  then show ?thesis using runs_okI_quiet [OF e(1,2) _ ok ok' ab] o(2,3) f by blast
qed

lemma run_shutDown:
  assumes fs: "functor_step s q ph i f qs l" and f: "f = FShutDownInLoop obj"
  shows "runs_ok advances (run_functor cf rs (m_thread_id l) i f s) s q (q(i := qs)) ph"
proof -
  note ok = functor_stepD(1) [OF fs] and quiet = functor_stepD(3) [OF fs] and loop = functor_stepD(4) [OF fs]
    and task = functor_stepD(5) [OF fs] and others = functor_stepD(6) [OF fs] and popped = functor_stepD(7) [OF fs]
  obtain ob base st c where o: "objs s obj = Some ob" "co_loop ob = i" "i \<noteq> srv_loop (srv s)" "located s obj ob l base (m_thread_id l)"
    "reactor_inv (m_epoller l)" "chans (m_epoller l) (m_channel (co_conn ob)) = Some c" "conn_wf obj (co_conn ob)"
    "conn_chan obj (m_conn_fd (co_conn ob)) c"
    "stage_ok st obj (co_conn ob) c (m_channels (m_epoller l) (m_conn_fd (co_conn ob))) (f # about obj qs)
       (about obj (q (srv_loop (srv s)))) (m_connections (srv s) (m_conn_fd (co_conn ob)) = Some obj)" "obj_at st s q obj ob"
    using functor_object [OF fs, of obj] task f by auto
  obtain s' ob' where e: "run_functor cf rs (m_thread_id l) (co_loop ob) (FShutDownInLoop obj) s = Inr s'"
    "conn_effect s obj ob ob' (m_epoller l) [] s'" "co_conn ob' = co_conn ob"
    using quiet_effects(3) [OF o(4-6)] by blast
  have ab: "about y ((q(i := qs)) k) = about y (q k)" if "y \<noteq> obj" for y k using others [of obj y k] that f by simp
  have ok': "net_ok s' (q(i := qs)) ph"
  proof (rule net_ok_quiet [OF ok e(2,3) _ _ o(6-8) ab, where st = st])
    show "stage_ok st obj (co_conn ob) c (m_channels (m_epoller l) (m_conn_fd (co_conn ob))) (about obj ((q(i := qs)) (co_loop ob)))
        (about obj ((q(i := qs)) (srv_loop (srv s)))) (m_connections (srv s) (m_conn_fd (co_conn ob)) = Some obj)"
      using stage_of_head(3) [OF o(9) f] o(2,3) by simp
  qed (use loop o(2) popped in auto)
  have "obj_at st s (q(i := qs)) obj ob"
    using o(2,3,6-8,10) stage_of_head(3) [OF o(9) f] loop by (auto simp: obj_at_def)
  then have "obj_at st s' (q(i := qs)) obj ob'" using quiet_stage [OF e(2,3)] loop o(2) by blast
  then have "advances st0 st'" if "obj_at st0 s q obj ob" "obj_at st' s' (q(i := qs)) obj ob'" for st0 st'
    using advances_from [OF o(10) _ that(1)] obj_at_unique [OF _ that(2)] by fastforce
  then show ?thesis using runs_okI_quiet [OF e(1,2) _ ok ok' ab] o(2,3) f by blast
qed

end
