(* ===== verification/NetSteps.thy ===== *)
theory NetSteps
  imports ConnSteps
begin

text \<open>
  The other steps of the running server: timers, the acceptor, the removal of a connection, the
  steps of a loop between callbacks, and the release of an object.  Together with the steps of a
  connection they give that every enabled step succeeds and keeps the invariant.
\<close>

section \<open>Timers\<close>

text \<open>The base loop's timer channel and the timers change, nothing else.\<close>

lemma net_ok_timer:
  assumes "net_ok s q ph" "srv s' = srv s" "objs s' = objs s" "loops s (srv_loop (srv s)) = Some base"
    and "loops s' = (loops s)(srv_loop (srv s) \<mapsto> base\<lparr>m_epoller := r\<rparr>)"
    and "m_timer_channel (up_timer (upper s')) = m_timer_channel (up_timer (upper s))"
    and "\<forall>t \<in> set (m_timer (up_timer (upper s'))). m_callback t \<noteq> None"
    and "reg_only (m_timer_channel (up_timer (upper s))) fd (m_epoller base) r" "chans r (m_timer_channel (up_timer (upper s))) = Some c"
    and "m_read_callback c = Some CbTimer" "sys_chan True c" "updatable r (m_timer_channel (up_timer (upper s))) c"
    and "added s (srv_loop (srv s)) (m_timer_channel (up_timer (upper s))) \<Longrightarrow> m_index c = kAdded"
  shows "net_ok s' q ph" "moves (=) s q s' q"
proof -
  let ?b = "srv_loop (srv s)" and ?p = "m_timer_channel (up_timer (upper s))"
  have n: "world_inv s" "objs_inv s q" "events_inv s ph" using assms(1) by (simp_all add: net_ok_def)
  have off: "co_loop ob \<noteq> ?b" if "objs s obj = Some ob" for obj ob using net_ok_obj [OF assms(1) that] by (auto simp: obj_at_def)
  have loc: "local_change x ?b ?p fd s s'" for x using assms(2-5,8) off by (auto simp: local_change_def)
  have st: "stays x s s'" for x using assms(3) by (simp add: stays_def)
  have at': "obj_at st s' q obj ob" if "objs s obj = Some ob" "obj_at st s q obj ob" for st obj ob
    using obj_at_change [OF loc [of "Suc obj"] _ that(1) _ that(2)] by simp
  then show "moves (=) s q s' q" using assms(3) by (intro moves_same_objs) auto
  have at: "\<exists>st. obj_at st s' q obj ob" if "objs s' obj = Some ob" for obj ob
    using net_ok_obj [OF assms(1)] at' that assms(3) by metis
  have e: "entry_ok s' d obj = entry_ok s d obj" for d obj
    using assms(3-5) by (auto simp: entry_ok_def split: option.splits)
  have "srv_inv s'" using n(1) assms(2) e by (intro srv_inv_change [OF _ loc [of 0]]) (auto simp: world_inv_def srv_inv_def)
  then have "world_inv s'" using n(1) assms(2,4,5) by (intro world_inv_change [OF n(1) loc [of 0]]) (auto simp: world_inv_def)
  moreover have "timers_inv s'" using assms by (auto simp: timers_inv_def)
  ultimately show "net_ok s' q ph"
  proof (rule net_ok_change [OF assms(1) loc [of 0] st])
    show "\<exists>c. chans (m_epoller l) ?p = Some c \<and> m_index c = kAdded"
      if "ph ?b = InEvents cbs ps" "?p \<in> set ps" "loops s' ?b = Some l" for l cbs ps
      using that active_added [OF assms(1) that(1,2)] assms(5,9,13) by auto
    show "\<exists>ob. objs s' 0 = Some ob \<and> (m_state (co_conn ob) = kConnected \<or> m_state (co_conn ob) = kDisconnecting)"
      if "ph i = InEvents cbs ps" "CbRead 0 \<in> set cbs" for i cbs ps
      using pending_read [OF assms(1) that] assms(3) by auto
    show "owned s' ?b ?p \<or> sys_chan (?b = ?b) d" if "loops s' ?b = Some l" "chans (m_epoller l) ?p = Some d" for l d
      using that assms(5,9,11) by auto
  qed (use at assms(3) in auto)
qed

lemma enableTimerfd_world:
  assumes "net_ok s q ph" "loops s (srv_loop (srv s)) = Some base" "m_timer_channel rb = m_timer_channel (up_timer (upper s))"
  shows "\<exists>r c fd. enableTimerfd base rb = Inr (base\<lparr>m_epoller := r\<rparr>) \<and>
     reg_only (m_timer_channel (up_timer (upper s))) fd (m_epoller base) r \<and> chans r (m_timer_channel (up_timer (upper s))) = Some c \<and>
     m_read_callback c = Some CbTimer \<and> sys_chan True c \<and> updatable r (m_timer_channel (up_timer (upper s))) c \<and>
     (added s (srv_loop (srv s)) (m_timer_channel (up_timer (upper s))) \<longrightarrow> m_index c = kAdded)"
proof -
  let ?r = "m_epoller base" and ?p = "m_timer_channel (up_timer (upper s))"
  have n: "world_inv s" "chans_inv s" "timers_inv s" using assms(1) by (simp_all add: net_ok_def)
  have inv: "reactor_inv ?r" using n(1) assms(2) by (simp add: world_inv_def srv_inv_def)
  obtain c where c: "chans ?r ?p = Some c" "m_read_callback c = Some CbTimer" "updatable ?r ?p c"
    using n(3) assms(2) by (auto simp: timers_inv_def)
  have "\<not> owned s (srv_loop (srv s)) ?p" using net_ok_obj [OF assms(1)] unfolding owned_def obj_at_def by blast
  then have sys: "sys_chan True c" using n(2) assms(2) c(1) unfolding chans_inv_def by fastforce
  show ?thesis
  proof (cases "isRegistered c")
    case True
    then show ?thesis using c sys inv assms(2,3)
      by (intro exI [of _ ?r] exI [of _ c] exI [of _ 0]) (auto simp: enableTimerfd_def reg_only_def added_def)
  next
    case False
    obtain r where r: "enableReading ?r ?p = Inr r" "reactor_inv r" "m_channels r = (m_channels ?r)(m_fd c \<mapsto> ?p)"
      "chans r = (chans ?r)(?p \<mapsto> c\<lparr>m_events := m_events c OR kReadEvent, m_index := kAdded\<rparr>)"
      using set_and_update_effect [OF inv c(1,3), of "\<lambda>e. e OR kReadEvent"] mask_nonzero(1)
      by (auto simp: enableReading_def index_after_def)
    then show ?thesis using c(1,2) sys assms(3) False
      by (intro exI [of _ r] exI [of _ "c\<lparr>m_events := m_events c OR kReadEvent, m_index := kAdded\<rparr>"] exI [of _ "m_fd c"])
        (simp add: enableTimerfd_def reg_only_def updatable_def sys_chan_def)
  qed
qed

lemma set_insert_subset: "set (set_insert t ts) \<subseteq> insert t (set ts)"
  by (induction ts) auto

text \<open>Adding a timer on the base loop's thread.\<close>

lemma addTimer_world:
  assumes "net_ok s q ph" "loops s (srv_loop (srv s)) = Some base" "m_callback t \<noteq> None"
  shows "\<exists>r rb. addTimerInLoop (m_thread_id base) now k t (base, up_timer (upper s)) = Inr (base\<lparr>m_epoller := r\<rparr>, rb) \<and>
     (\<forall>s'. srv s' = srv s \<longrightarrow> objs s' = objs s \<longrightarrow> loops s' = (loops s)(srv_loop (srv s) \<mapsto> base\<lparr>m_epoller := r\<rparr>) \<longrightarrow>
        up_timer (upper s') = rb \<longrightarrow> net_ok s' q ph \<and> moves (=) s q s' q \<and> queued_in s' = queued_in s)"
proof -
  obtain r c fd where r: "enableTimerfd base (up_timer (upper s)) = Inr (base\<lparr>m_epoller := r\<rparr>)"
    "reg_only (m_timer_channel (up_timer (upper s))) fd (m_epoller base) r" "chans r (m_timer_channel (up_timer (upper s))) = Some c"
    "m_read_callback c = Some CbTimer" "sys_chan True c" "updatable r (m_timer_channel (up_timer (upper s))) c"
    "added s (srv_loop (srv s)) (m_timer_channel (up_timer (upper s))) \<longrightarrow> m_index c = kAdded"
    using enableTimerfd_world [OF assms(1,2) refl] by blast
  obtain rb where rb: "addTimerInLoop (m_thread_id base) now k t (base, up_timer (upper s)) = Inr (base\<lparr>m_epoller := r\<rparr>, rb)"
    "m_timer rb = set_insert t (m_timer (up_timer (upper s)))"
    using addTimerInLoop_queue [OF _ r(1), of "m_thread_id base" now k t] by (auto simp: isInLoopThread_def)
  have ch: "m_timer_channel rb = m_timer_channel (up_timer (upper s))"
    using rb(1) by (auto simp: addTimerInLoop_def insertTimer_def resetTimerFd_def res_simps Let_def split: if_splits)
  have "timers_inv s" using assms(1) by (simp add: net_ok_def)
  then have cb: "\<forall>u \<in> set (m_timer rb). m_callback u \<noteq> None"
    using rb(2) set_insert_subset [of t "m_timer (up_timer (upper s))"] assms(3) by (auto simp: timers_inv_def)
  show ?thesis
  proof (intro exI conjI allI impI, rule rb(1))
    fix s' :: http_server assume a: "srv s' = srv s" "objs s' = objs s" "loops s' = (loops s)(srv_loop (srv s) \<mapsto> base\<lparr>m_epoller := r\<rparr>)"
      "up_timer (upper s') = rb"
    show "net_ok s' q ph" by (rule net_ok_timer [OF assms(1) a(1,2) assms(2) a(3)]) (use a(4) ch cb r in auto)
    show "moves (=) s q s' q" by (rule net_ok_timer [OF assms(1) a(1,2) assms(2) a(3)]) (use a(4) ch cb r in auto)
    show "queued_in s' = queued_in s" using a(3) assms(2) by (auto simp: queued_in_def)
  qed
qed

lemma base_loop_of: "net_ok s q ph \<Longrightarrow> \<exists>base. loops s (srv_loop (srv s)) = Some base"
  by (auto simp: net_ok_def world_inv_def srv_inv_def)

text \<open>A functor that adds a timer.\<close>

lemma run_add_timer:
  assumes fs: "functor_step s q ph i f qs l" and f: "f = FOther t"
  shows "runs_ok advances (run_functor cf rs (m_thread_id l) i f s) s q (q(i := qs)) ph"
proof -
  note ok = functor_stepD(1) [OF fs] and loop = functor_stepD(4) [OF fs] and task = functor_stepD(5) [OF fs]
  have t: "i = srv_loop (srv s)" "m_callback t \<noteq> None" using task f by simp_all
  have ab: "about y ((q(i := qs)) k) = about y (q k)" for y k using functor_stepD(2) [OF fs] f by auto
  then have ok': "net_ok s (q(i := qs)) ph"
    using ok functor_stepD(7) [OF fs] unfolding net_ok_def objs_inv_def obj_at_def tasks_inv_def by metis
  have b: "loops s (srv_loop (srv s)) = Some l" using loop t(1) by simp
  obtain r rb where r: "addTimerInLoop (m_thread_id l) (rs_clock rs 0) (rs_kernel rs) t (l, up_timer (upper s)) =
      Inr (l\<lparr>m_epoller := r\<rparr>, rb)"
    "\<forall>s'. srv s' = srv s \<longrightarrow> objs s' = objs s \<longrightarrow> loops s' = (loops s)(srv_loop (srv s) \<mapsto> l\<lparr>m_epoller := r\<rparr>) \<longrightarrow>
        up_timer (upper s') = rb \<longrightarrow> net_ok s' (q(i := qs)) ph \<and> moves (=) s (q(i := qs)) s' (q(i := qs)) \<and> queued_in s' = queued_in s"
    using addTimer_world [OF ok' b t(2)] by blast
  let ?s = "put_timer rb (put_loop (srv_loop (srv s)) (l\<lparr>m_epoller := r\<rparr>) s)"
  have w: "net_ok ?s (q(i := qs)) ph \<and> moves (=) s (q(i := qs)) ?s (q(i := qs)) \<and> queued_in ?s = queued_in s"
    using r(2) by (simp add: put_timer_def)
  have "moves (=) s q s (q(i := qs))" by (rule moves_refl) (simp, rule ab)
  then have "moves (=) s q ?s (q(i := qs))" using moves_trans w by blast
  then show ?thesis using r(1) b f w
    by (intro runs_ok_mono runs_ok_none [of _ ?s]) (simp_all add: run_functor_def add_timer_functor_def same_threads_def put_timer_def)
qed

text \<open>The base thread asks a connection of another loop to shut down: the state changes and a functor is queued.\<close>

lemma net_ok_asked:
  assumes "net_ok s q ph" "objs s obj = Some ob" "m_state (co_conn ob) = kConnected" "loops s (co_loop ob) = Some l"
    and "srv s' = srv s" "upper s' = upper s" "objs s' = (objs s)(obj \<mapsto> ob')" "co_loop ob' = co_loop ob"
    and "co_conn ob' = (co_conn ob)\<lparr>m_state := kDisconnecting\<rparr>" "loops s' = (loops s)(co_loop ob \<mapsto> l')"
    and "m_epoller l' = m_epoller l" "m_thread_id l' = m_thread_id l"
  shows "net_ok s' (\<lambda>k. q k @ (if k = co_loop ob then [FShutDownInLoop obj] else [])) ph"
    "moves (=) s q s' (\<lambda>k. q k @ (if k = co_loop ob then [FShutDownInLoop obj] else []))"
proof -
  let ?i = "co_loop ob" and ?b = "srv_loop (srv s)" and ?p = "m_channel (co_conn ob)" and ?fd = "m_conn_fd (co_conn ob)"
  have n: "world_inv s" "events_inv s ph" using assms(1) by (simp_all add: net_ok_def)
  obtain st where st: "obj_at st s q obj ob" using net_ok_obj [OF assms(1,2)] by blast
  then have at: "obj_at Open s q obj ob" using obj_at_open [OF st] assms(3) by simp
  have ib: "?i \<noteq> ?b" using at by (simp add: obj_at_def)
  have r: "reactor_inv (m_epoller l)" using n(1) assms(4) by (simp add: world_inv_def srv_inv_def)
  have loc: "local_change obj ?i ?p ?fd s s'"
    using assms(2,4,5,7,10,11) r channel_identity [OF assms(1,2)] by (auto simp: local_change_def reg_only_def)
  have stay: "stays obj s s'" using assms(2,7-9) by (simp add: stays_def)
  have "entry_ok s fd' obj" if "m_connections (srv s) fd' = Some obj" for fd' using that n(1) by (simp add: world_inv_def srv_inv_def)
  then have "srv_inv s'" using n(1) assms(2,5,7-10)
    by (intro srv_inv_change [OF _ loc]) (auto simp: world_inv_def srv_inv_def entry_ok_def)
  then have w: "world_inv s'" using n(1) assms(4,5,10,12) by (intro world_inv_change [OF n(1) loc]) (auto simp: world_inv_def)
  have t: "timers_inv s'" using assms(1,5,6,10) ib by (auto simp: net_ok_def timers_inv_def)
  have at': "obj_at Open s' (\<lambda>k. q k @ (if k = ?i then [FShutDownInLoop obj] else [])) obj ob'"
    using at assms(4,5,8-11) ib by (auto simp: obj_at_def conn_wf_def up_chan_def)
  show "moves (=) s q s' (\<lambda>k. q k @ (if k = ?i then [FShutDownInLoop obj] else []))"
    by (rule moves_change [OF loc]) (use at at' obj_at_unique [OF at] assms(2,7) in auto)
  show "net_ok s' (\<lambda>k. q k @ (if k = ?i then [FShutDownInLoop obj] else [])) ph"
  proof (rule net_ok_change [OF assms(1) loc stay w t])
    show "\<exists>c. chans (m_epoller k) ?p = Some c \<and> m_index c = kAdded"
      if "ph ?i = InEvents cbs ps" "?p \<in> set ps" "loops s' ?i = Some k" for k cbs ps
      using that(3) at assms(4,10,11) by (auto simp: obj_at_def up_chan_def)
    show "f \<in> set (q k) \<or> loops s k \<noteq> None \<and> task_ok s' k f" if "f \<in> set (q k @ (if k = ?i then [FShutDownInLoop obj] else []))" for k f
      using that assms(4,7,8) by (auto simp: lives_on_def split: if_splits)
    show "owned s' ?i ?p \<or> sys_chan (?i = ?b) c" for c using assms(7-9) by (auto simp: owned_def)
  qed (use at' assms(2,7,9) in auto)
qed

text \<open>The idle test of one connection, on the base loop's thread.\<close>

definition idle_ready :: "http_server \<Rightarrow> (nat \<Rightarrow> http_task list) \<Rightarrow> (nat \<Rightarrow> phase) \<Rightarrow> nat \<Rightarrow> ConnObj \<Rightarrow> timer_cb Timer net_loop \<Rightarrow>
   timer_cb Timer net_loop \<Rightarrow> bool" where
  "idle_ready s q ph obj ob base l \<longleftrightarrow> net_ok s q ph \<and> loops s (srv_loop (srv s)) = Some base \<and> objs s obj = Some ob \<and>
     loops s (co_loop ob) = Some l \<and> co_loop ob \<noteq> srv_loop (srv s) \<and> m_self (co_conn ob) = obj \<and>
     \<not> isInLoopThread l (m_thread_id base)"

lemma idle_readyD:
  assumes "idle_ready s q ph obj ob base l"
  shows "net_ok s q ph" "loops s (srv_loop (srv s)) = Some base" "objs s obj = Some ob" "loops s (co_loop ob) = Some l"
    "co_loop ob \<noteq> srv_loop (srv s)" "m_self (co_conn ob) = obj" "\<not> isInLoopThread l (m_thread_id base)"
    "on_conn (with_http op) obj s = res_bind (op (http_of (view s ob l) base)) (\<lambda>v. Inr (unfocus obj (co_loop ob) (of_http s v)))"
  using assms by (auto simp: idle_ready_def on_conn_view with_http_base res_bind_assoc)

lemma idle_asks:
  assumes i: "idle_ready s q ph obj ob base l" and "ce_tid e = m_thread_id base" "m_state (co_conn ob) = kConnected"
    and late: "ts_less (addTime (m_last_receive_time (co_conn ob)) kIdleConnectionTimeOuts) now"
  shows "runs_ok (=) (on_conn (with_http (handleIdleConnection FOther e now now1 now2 k True)) obj s) s q q ph"
proof -
  let ?i = "co_loop ob" and ?t = "m_thread_id base" and ?h = "http_of (view s ob l) base"
  let ?h1 = "log_line (idle_message (co_conn ob)) ?h"
  note r = idle_readyD [OF i]
  define v where "v = (log_line (shutdown_message (conn ?h1)) (set_state kDisconnecting ?h1))
    \<lparr>m_loop := queueInLoop l ?t (FShutDownInLoop obj)\<rparr>"
  have v: "conn v = (co_conn ob)\<lparr>m_state := kDisconnecting\<rparr>" "m_loop v = queueInLoop l ?t (FShutDownInLoop obj)" "env v = env ?h"
    by (simp_all add: v_def)
  have "handleIdleConnection FOther e now now1 now2 k True ?h = Inr v"
    using late assms(2,3) r(6,7) by (simp add: handleIdleConnection_def shutDown_def v_def Let_def)
  then have run: "on_conn (with_http (handleIdleConnection FOther e now now1 now2 k True)) obj s = Inr (unfocus obj ?i (of_http s v))"
    by (simp add: r(8))
  let ?s = "unfocus obj ?i (of_http s v)" and ?q = "\<lambda>k. q k @ (if k = ?i then [FShutDownInLoop obj] else [])"
  have "\<lparr>up_timer = base_timer (env ?h), up_auto = m_auto_close_idle_connection (env ?h)\<rparr> = upper s" by simp
  then have s: "srv ?s = srv s" "upper ?s = upper s" "loops ?s = (loops s)(?i \<mapsto> queueInLoop l ?t (FShutDownInLoop obj))"
    "objs ?s = (objs s)(obj \<mapsto> obj_of ?i (of_http s v))"
    using v r(2,5) by (auto simp: obj_of_def fun_upd_idem)
  have "net_ok ?s ?q ph" "moves (=) s q ?s ?q" using net_ok_asked [OF r(1,3) assms(3) r(4) s(1,2,4) _ _ s(3)] v by simp_all
  then show ?thesis unfolding runs_ok_def using run s(1,3) r(4)
    by (intro exI [of _ ?s] exI [of _ "\<lambda>k. if k = ?i then [FShutDownInLoop obj] else []"]) (simp add: queued_in_def same_threads_def)
qed

lemma idle_forgets:
  assumes i: "idle_ready s q ph obj ob base l" and "m_state (co_conn ob) \<noteq> kConnected"
    and late: "ts_less (addTime (m_last_receive_time (co_conn ob)) kIdleConnectionTimeOuts) now"
  shows "runs_ok (=) (on_conn (with_http (handleIdleConnection FOther e now now1 now2 k True)) obj s) s q q ph"
proof -
  let ?h = "http_of (view s ob l) base"
  let ?h1 = "log_line (idle_message (co_conn ob)) ?h"
  note r = idle_readyD [OF i]
  have "handleIdleConnection FOther e now now1 now2 k True ?h = Inr ?h1"
    using late assms(2) by (simp add: handleIdleConnection_def shutDown_def)
  then have run: "on_conn (with_http (handleIdleConnection FOther e now now1 now2 k True)) obj s = Inr (unfocus obj (co_loop ob) (of_http s ?h1))"
    by (simp add: r(8))
  let ?s = "unfocus obj (co_loop ob) (of_http s ?h1)"
  have "\<lparr>up_timer = base_timer (env ?h), up_auto = m_auto_close_idle_connection (env ?h)\<rparr> = upper s" by simp
  then have s: "srv ?s = srv s" "upper ?s = upper s" "loops ?s = loops s" "objs ?s = objs s"
    using r(2-5) by (auto simp: fun_upd_idem)
  then have "calm s ?s" by (intro calm_same) (auto intro: exI [of _ "m_acceptor (srv s)"])
  then show ?thesis using net_ok_calm [OF r(1)] run s(1,3)
    by (intro runs_ok_none [of _ ?s]) (simp_all add: queued_in_def fun_eq_iff same_threads_def)
qed

lemma idle_again:
  assumes i: "idle_ready s q ph obj ob base l" and "ce_tid e = m_thread_id base"
    and early: "\<not> ts_less (addTime (m_last_receive_time (co_conn ob)) kIdleConnectionTimeOuts) now"
  shows "runs_ok (=) (on_conn (with_http (handleIdleConnection FOther e now now1 now2 k True)) obj s) s q q ph"
proof -
  let ?b = "srv_loop (srv s)" and ?t = "m_thread_id base" and ?h = "http_of (view s ob l) base"
  let ?t1 = "Timer_new (Some (IdleConnection obj)) (addTime now1 kIdleConnectionTimeOuts) 0"
  note i = idle_readyD [OF i]
  obtain r rb where r: "addTimerInLoop ?t now2 k ?t1 (base, up_timer (upper s)) = Inr (base\<lparr>m_epoller := r\<rparr>, rb)"
    "\<forall>s'. srv s' = srv s \<longrightarrow> objs s' = objs s \<longrightarrow> loops s' = (loops s)(?b \<mapsto> base\<lparr>m_epoller := r\<rparr>) \<longrightarrow>
      up_timer (upper s') = rb \<longrightarrow> net_ok s' q ph \<and> moves (=) s q s' q \<and> queued_in s' = queued_in s"
    using addTimer_world [OF i(1,2), of ?t1 now2 k] by (auto simp: Timer_new_def)
  define v where "v = ?h\<lparr>env := (env ?h)\<lparr>base_loop := base\<lparr>m_epoller := r\<rparr>, base_timer := rb\<rparr>\<rparr>"
  have "handleIdleConnection FOther e now now1 now2 k True ?h = Inr v"
    using early r(1) assms(2) i(6)
    by (simp add: handleIdleConnection_def base_runAfter_def runAfter_def addTimer_def v_def Let_def isInLoopThread_def)
  then have run: "on_conn (with_http (handleIdleConnection FOther e now now1 now2 k True)) obj s = Inr (unfocus obj (co_loop ob) (of_http s v))"
    by (simp add: i(8))
  let ?s = "unfocus obj (co_loop ob) (of_http s v)"
  have s: "srv ?s = srv s" "objs ?s = objs s" "loops ?s = (loops s)(?b \<mapsto> base\<lparr>m_epoller := r\<rparr>)" "up_timer (upper ?s) = rb"
    using i(3-5) by (auto simp: v_def fun_upd_idem)
  then have "net_ok ?s q ph \<and> moves (=) s q ?s q \<and> queued_in ?s = queued_in s" using r(2) by blast
  moreover have "same_threads s ?s" unfolding same_threads_def s(1,3) using i(2) by simp
  ultimately show ?thesis using run by (intro runs_ok_none [of _ ?s]) simp_all
qed

lemma idle_step:
  assumes "net_ok s q ph" "loops s (srv_loop (srv s)) = Some base" "objs s obj = Some ob" "e = call_env_of cf rs (m_thread_id base) obj"
  shows "runs_ok (=) (on_conn (with_http (handleIdleConnection FOther e now now1 now2 k True)) obj s) s q q ph"
proof -
  obtain st where "obj_at st s q obj ob" using net_ok_obj [OF assms(1,3)] by blast
  then obtain l where l: "loops s (co_loop ob) = Some l" "co_loop ob \<noteq> srv_loop (srv s)" "m_self (co_conn ob) = obj"
    by (auto simp: obj_at_def conn_wf_def)
  then have i: "idle_ready s q ph obj ob base l"
    using assms(1-3) by (auto simp: idle_ready_def net_ok_def world_inv_def isInLoopThread_def)
  have e: "ce_tid e = m_thread_id base" using assms(4) by (simp add: call_env_of_def)
  show ?thesis
    using idle_asks [OF i e, of now now1 now2 k] idle_forgets [OF i, of now e now1 now2 k] idle_again [OF i e, of now now1 now2 k] by argo
qed

text \<open>The timer event: every expired timer runs, the repeating ones are put back.\<close>

definition timer_state :: "http_server \<Rightarrow> http_server \<times> timer_cb RBTreeTimer \<Rightarrow> (nat \<Rightarrow> http_task list) \<Rightarrow> (nat \<Rightarrow> phase) \<Rightarrow> bool" where
  "timer_state s0 = (\<lambda>(s, rb) q ph. same_threads s0 s \<and> (\<exists>more. (\<forall>k. queued_in s k = queued_in s0 k @ more k) \<and>
     net_ok (put_timer rb s) (\<lambda>k. q k @ more k) ph \<and> moves (=) s0 q s (\<lambda>k. q k @ more k)))"

lemma put_timer_fields [simp]:
  "srv (put_timer rb s) = srv s" "objs (put_timer rb s) = objs s" "loops (put_timer rb s) = loops s"
  "up_timer (upper (put_timer rb s)) = rb" "queued_in (put_timer rb s) = queued_in s" "put_timer rb (put_timer rb' s) = put_timer rb s"
  "put_timer (up_timer (upper s)) s = s"
  by (simp_all add: put_timer_def queued_in_def fun_eq_iff)

lemma moves_put_timer [simp]: "moves R s q (put_timer rb s') q' = moves R s q s' q'" "moves R (put_timer rb s) q s' q' = moves R s q s' q'"
  by (simp_all add: moves_def obj_at_def)

lemma net_ok_put_timer:
  assumes "net_ok (put_timer rb s) q ph" "m_timer_channel rb' = m_timer_channel rb" "set (m_timer rb') \<subseteq> insert t (set (m_timer rb))"
    "m_callback t \<noteq> None"
  shows "net_ok (put_timer rb' s) q ph"
proof -
  let ?s = "put_timer rb s"
  obtain base where b: "loops ?s (srv_loop (srv ?s)) = Some base" using base_loop_of [OF assms(1)] by blast
  have n: "chans_inv ?s" "timers_inv ?s" "world_inv ?s" using assms(1) by (simp_all add: net_ok_def)
  then obtain c where c: "chans (m_epoller base) (m_timer_channel rb) = Some c" "m_read_callback c = Some CbTimer"
    "updatable (m_epoller base) (m_timer_channel rb) c"
    using b by (auto simp: timers_inv_def)
  have "\<not> owned ?s (srv_loop (srv s)) (m_timer_channel rb)"
    using net_ok_obj [OF assms(1)] unfolding owned_def obj_at_def by auto
  then have sys: "sys_chan True c" using n(1) b c(1) unfolding chans_inv_def by fastforce
  have inv: "reactor_inv (m_epoller base)" using n(3) b by (simp add: world_inv_def srv_inv_def)
  have l: "loops (put_timer rb' s) = (loops ?s)(srv_loop (srv ?s) \<mapsto> base\<lparr>m_epoller := m_epoller base\<rparr>)"
    using b by (simp add: fun_upd_idem)
  show ?thesis
    by (rule net_ok_timer [OF assms(1) _ _ b l, where c = c and fd = 0])
      (use assms(2-4) c sys b inv n(2) in \<open>auto simp: reg_only_def added_def timers_inv_def\<close>)
qed

lemma run_timer_cb_ok:
  assumes "timer_state s0 (s, rb) q ph" "loops s0 (srv_loop (srv s0)) = Some base"
  shows "\<exists>s' rb'. run_timer_cb cf rs (m_thread_id base) cb (s, rb) = Inr (s', rb') \<and> timer_state s0 (s', rb') q ph"
proof -
  obtain more where st: "same_threads s0 s" "\<And>k. queued_in s k = queued_in s0 k @ more k"
    "net_ok (put_timer rb s) (\<lambda>k. q k @ more k) ph" "moves (=) s0 q s (\<lambda>k. q k @ more k)"
    using assms by (auto simp: timer_state_def)
  have "map_option m_thread_id (loops s (srv_loop (srv s))) = Some (m_thread_id base)"
    using st(1) assms(2) by (simp add: same_threads_def)
  then obtain base' where b: "loops s (srv_loop (srv s)) = Some base'" "m_thread_id base' = m_thread_id base" by auto
  show ?thesis
  proof (cases "\<exists>obj ob. cb = IdleConnection obj \<and> objs s obj = Some ob")
    case False
    then have "run_timer_cb cf rs (m_thread_id base) cb (s, rb) = Inr (s, rb)" by (cases cb) (auto simp: run_timer_cb_def)
    then show ?thesis using assms(1) by blast
  next
    case True
    then obtain obj ob where o: "cb = IdleConnection obj" "objs s obj = Some ob" by blast
    from idle_step [OF st(3), of base' obj ob] b o(2)
    obtain s' more' where r: "on_conn (with_http (handleIdleConnection FOther (call_env_of cf rs (m_thread_id base) obj) (rs_now rs obj)
        (rs_now1 rs obj) (rs_now2 rs obj) (rs_kernel rs) True)) obj (put_timer rb s) = Inr s'"
      "same_threads (put_timer rb s) s'" "\<And>k. queued_in s' k = queued_in s k @ more' k" "net_ok s' (\<lambda>k. (q k @ more k) @ more' k) ph"
      "moves (=) s (\<lambda>k. q k @ more k) s' (\<lambda>k. (q k @ more k) @ more' k)"
      by (fastforce simp: runs_ok_def)
    have "same_threads s s'" using r(2) by (simp add: same_threads_def)
    then have "timer_state s0 (s', up_timer (upper s')) q ph"
      using r st(2) same_threads_trans [OF st(1)] moves_trans [OF st(4) r(5)] unfolding timer_state_def
      by (auto intro!: exI [of _ "\<lambda>k. more k @ more' k"])
    then show ?thesis using o r(1) by (simp add: run_timer_cb_def)
  qed
qed

lemma repeat_ok:
  assumes "timer_state s0 (s, rb) q ph" "m_callback t \<noteq> None"
  shows "timer_state s0 (s, handleRepeatTimer now t rb) q ph"
proof -
  let ?t = "Timer_restart now t" and ?rb = "handleRepeatTimer now t rb"
  obtain more where m: "same_threads s0 s" "\<And>k. queued_in s k = queued_in s0 k @ more k"
    "net_ok (put_timer rb s) (\<lambda>k. q k @ more k) ph" "moves (=) s0 q s (\<lambda>k. q k @ more k)"
    using assms(1) by (auto simp: timer_state_def)
  have "set (m_timer ?rb) \<subseteq> insert ?t (set (m_timer rb))" "m_timer_channel ?rb = m_timer_channel rb"
    using set_insert_subset [of ?t "m_timer rb"] by (auto simp: handleRepeatTimer_def insertTimer_def Let_def)
  moreover have "m_callback ?t \<noteq> None" using assms(2) by (simp add: Timer_restart_def)
  ultimately have "net_ok (put_timer ?rb s) (\<lambda>k. q k @ more k) ph" using net_ok_put_timer [OF m(3)] by blast
  then show ?thesis using m by (auto simp: timer_state_def)
qed

lemma run_expired_ok:
  assumes "timer_state s0 (s, rb) q ph" "loops s0 (srv_loop (srv s0)) = Some base" "\<forall>t \<in> set ts. m_callback t \<noteq> None"
  shows "\<exists>s' rb'. run_expired (run_timer_cb cf rs (m_thread_id base)) clock n ts (s, rb) = Inr (s', rb') \<and> timer_state s0 (s', rb') q ph"
  using assms(1,3)
proof (induction ts arbitrary: s rb n)
  case (Cons t ts)
  obtain cb where cb: "m_callback t = Some cb" using Cons.prems(2) by auto
  obtain s1 rb1 where r: "run_timer_cb cf rs (m_thread_id base) cb (s, rb) = Inr (s1, rb1)" "timer_state s0 (s1, rb1) q ph"
    using run_timer_cb_ok [OF Cons.prems(1) assms(2)] by blast
  have "timer_state s0 (s1, handleRepeatTimer (clock n) t rb1) q ph" using repeat_ok [OF r(2)] Cons.prems(2) by simp
  from Cons.IH [OF this, of "n + 1"] show ?case using r(1) cb Cons.prems(2) by (simp add: Timer_run_def)
qed simp

lemma timer_event_ok:
  assumes "net_ok s q ph" "loops s (srv_loop (srv s)) = Some base"
  shows "runs_ok (=) (server_timer_event cf rs (m_thread_id base) s) s q q ph"
proof (cases "rs_timer_read rs = 8")
  case False
  then show ?thesis using assms
    by (intro runs_ok_none [of _ s]) (simp_all add: server_timer_event_def isInLoopThread_def same_threads_def moves_refl)
next
  case True
  let ?rb = "up_timer (upper s)"
  obtain es rest where sp: "lower_bound_split (rs_clock rs 0) (m_timer ?rb) = (es, rest)" by fastforce
  have cbs: "\<forall>t \<in> set (m_timer ?rb). m_callback t \<noteq> None" using assms(1) by (simp add: net_ok_def timers_inv_def)
  have sub: "set es \<subseteq> set (m_timer ?rb)" "set rest \<subseteq> set (m_timer ?rb)"
    using sp by (auto simp: lower_bound_split_def Let_def dest: set_takeWhileD set_dropWhileD)
  let ?rb1 = "?rb\<lparr>m_timer := rest, deadline := None\<rparr>"
  have "net_ok (put_timer ?rb s) q ph" using assms(1) by simp
  then have "net_ok (put_timer ?rb1 s) q ph"
    by (rule net_ok_put_timer [where t = "Timer_new (Some TimerEvent) (rs_clock rs 0) 0"]) (use sub(2) in \<open>auto simp: Timer_new_def\<close>)
  then have "timer_state s (s, ?rb1) q ph"
    by (auto simp: timer_state_def same_threads_def moves_refl intro!: exI [of _ "\<lambda>_. []"])
  from run_expired_ok [OF this assms(2), of es cf rs "rs_clock rs" 1] cbs sub(1)
  obtain s2 rb2 where r: "run_expired (run_timer_cb cf rs (m_thread_id base)) (rs_clock rs) 1 es (s, ?rb1) = Inr (s2, rb2)"
    "timer_state s (s2, rb2) q ph"
    by blast
  then obtain more where m: "same_threads s s2" "\<And>k. queued_in s2 k = queued_in s k @ more k" "net_ok (put_timer rb2 s2) (\<lambda>k. q k @ more k) ph"
    "moves (=) s q s2 (\<lambda>k. q k @ more k)"
    by (auto simp: timer_state_def)
  have "map_option m_thread_id (loops s2 (srv_loop (srv s2))) = Some (m_thread_id base)" using m(1) assms(2) by (simp add: same_threads_def)
  then obtain base2 where b2: "loops s2 (srv_loop (srv s2)) = Some base2" "m_thread_id base2 = m_thread_id base" by auto
  obtain rb3 where rb3: "server_timer_event cf rs (m_thread_id base) s = Inr (put_timer rb3 s2)"
    "m_timer_channel rb3 = m_timer_channel rb2" "m_timer rb3 = m_timer rb2"
    using assms(2) True sp r(1) b2
    by (cases "m_timer rb2") (auto simp: server_timer_event_def isInLoopThread_def resetTimerFd_def Let_def)
  have "net_ok (put_timer rb3 s2) (\<lambda>k. q k @ more k) ph"
    by (rule net_ok_put_timer [OF m(3), of _ "Timer_new (Some TimerEvent) (rs_clock rs 0) 0"]) (use rb3 in \<open>auto simp: Timer_new_def\<close>)
  then show ?thesis unfolding runs_ok_def using rb3(1) m(1,2,4)
    by (intro exI [of _ "put_timer rb3 s2"] exI [of _ more]) (simp add: same_threads_def)
qed

section \<open>Removing a connection\<close>

lemma run_remove:
  assumes fs: "functor_step s q ph i f qs l" and f: "f = FRemoveConnection obj"
  shows "runs_ok advances (run_functor cf rs (m_thread_id l) i f s) s q (q(i := qs)) ph"
proof -
  note ok = functor_stepD(1) [OF fs] and loop = functor_stepD(4) [OF fs] and head = functor_stepD(2) [OF fs]
  have i: "i = srv_loop (srv s)" using functor_stepD(5) [OF fs] f by simp
  obtain ob where ob: "objs s obj = Some ob" using functor_stepD(5) [OF fs] f by auto
  let ?j = "co_loop ob" and ?p = "m_channel (co_conn ob)" and ?fd = "m_conn_fd (co_conn ob)"
  obtain st where st: "obj_at st s q obj ob" using net_ok_obj [OF ok ob] by blast
  have ab: "about obj (q (srv_loop (srv s))) = FRemoveConnection obj # about obj qs" using head i f by simp
  have clo: "st = Closing" "about obj qs = []" using st ab by (cases st; auto simp: obj_at_def)+
  obtain k c where c: "loops s ?j = Some k" "chans (m_epoller k) ?p = Some c" "conn_chan obj ?fd c" "?j \<noteq> srv_loop (srv s)"
    "conn_wf obj (co_conn ob)" "m_state (co_conn ob) = kDisconnected" "m_index c = kDeleted" "m_events c = 0"
    "m_channels (m_epoller k) ?fd = Some ?p" "set (about obj (q ?j)) \<subseteq> {FShutDownInLoop obj}" "m_connections (srv s) ?fd = Some obj"
    using st clo(1) by (auto simp: obj_at_def)
  obtain ip port where ip: "m_ip_port (co_conn ob) = Some (ip, port)" using c(5) by (auto simp: conn_wf_def)
  define s1 where "s1 = s\<lparr>srv := (srv s)\<lparr>m_connections := (m_connections (srv s))(?fd := None)\<rparr>\<rparr>"
  define s' where "s' = put_loop ?j (queueInLoop k (m_thread_id l) (FDestructor obj)) (srv_log_line (remove_message (ntoa_buf s1) port) s1)"
  have run: "run_functor cf rs (m_thread_id l) i f s = Inr s'"
    using loop i ob c(1) ip f by (simp add: run_functor_def run_server_functor_def handleRemoveConnectionInLoop_def s'_def s1_def
        isInLoopThread_def Let_def)
  have s': "srv s' = (srv s)\<lparr>m_connections := (m_connections (srv s))(?fd := None)\<rparr>" "objs s' = objs s" "upper s' = upper s"
    "loops s' = (loops s)(?j \<mapsto> queueInLoop k (m_thread_id l) (FDestructor obj))"
    by (simp_all add: s'_def s1_def)
  have n: "world_inv s" "events_inv s ph" using ok by (simp_all add: net_ok_def)
  have r: "reactor_inv (m_epoller k)" using n(1) c(1) by (simp add: world_inv_def srv_inv_def)
  have loc: "local_change obj ?j ?p ?fd s s'"
    using s' c(1,11) r channel_identity [OF ok ob] by (auto simp: local_change_def reg_only_def)
  have stay: "stays obj s s'" using s'(2) by (simp add: stays_def)
  have ent: "entry_ok s' d obj" if "m_connections (srv s') d = Some obj" for d
  proof -
    have "entry_ok s d obj" using n(1) that s'(1) by (auto simp: world_inv_def srv_inv_def split: if_splits)
    then show ?thesis using s'(2,4) by (auto simp: entry_ok_def split: option.splits)
  qed
  then have "srv_inv s'" using n(1) s'(1) by (intro srv_inv_change [OF _ loc]) (auto simp: world_inv_def srv_inv_def)
  then have w: "world_inv s'" using n(1) s'(1,4) c(1) by (intro world_inv_change [OF n(1) loc]) (auto simp: world_inv_def)
  have t: "timers_inv s'" using ok s' c(1,4) by (auto simp: net_ok_def timers_inv_def)
  let ?q = "\<lambda>k. (q(i := qs)) k @ (if k = ?j then [FDestructor obj] else [])"
  have at': "obj_at Removing s' ?q obj ob" using c s' i clo(2) by (auto simp: obj_at_def)
  have ab: "about y (?q k) = about y (q k)" if "y \<noteq> obj" for y k using functor_stepD(6) [OF fs, of obj y k] that f by simp
  have "advances st0 Removing" if "obj_at st0 s q obj ob" for st0 using advances_from [OF st _ that] clo(1) by simp
  then have mv: "moves advances s q s' ?q" using ob s'(2) at' by (intro moves_change [OF loc ab]) auto
  have "net_ok s' ?q ph"
  proof (rule net_ok_change [OF ok loc stay w t _ ab])
    show "g \<in> set (q m) \<or> loops s m \<noteq> None \<and> task_ok s' m g" if "g \<in> set (?q m)" for m g
      using that functor_stepD(7) [OF fs, of g m] ob c(1) s'(2) by (auto simp: lives_on_def split: if_splits)
    show "\<exists>d. chans (m_epoller m) ?p = Some d \<and> m_index d = kAdded" if "ph ?j = InEvents cbs ps" "?p \<in> set ps" "loops s' ?j = Some m"
      for m cbs ps
      using active_added [OF ok that(1,2)] c(1,2,7) by (auto simp: added_def)
    show "\<exists>ob. objs s' obj = Some ob \<and> (m_state (co_conn ob) = kConnected \<or> m_state (co_conn ob) = kDisconnecting)"
      if "ph m = InEvents cbs ps" "CbRead obj \<in> set cbs" for m cbs ps
      using pending_read [OF ok that] s'(2) by auto
    show "owned s' ?j ?p \<or> sys_chan (?j = srv_loop (srv s)) d" for d using ob s'(2) by (auto simp: owned_def)
  qed (use at' ob s'(2) in auto)
  then show ?thesis unfolding runs_ok_def using run s' c(1) mv
    by (intro exI [of _ s'] exI [of _ "\<lambda>k. if k = ?j then [FDestructor obj] else []"]) (simp add: queued_in_def same_threads_def)
qed

section \<open>Accepting a connection\<close>

lemma no_object_no_functor:
  assumes "net_ok s q ph" "objs s x = None"
  shows "about x (q k) = []"
proof -
  have "target f \<noteq> Some x" if "f \<in> set (q k)" for f
  proof
    assume t: "target f = Some x"
    have "task_ok s k f" using assms(1) that by (simp add: net_ok_def tasks_inv_def)
    then show False using t assms(2) by (cases f) (auto simp: lives_on_def)
  qed
  then show ?thesis by (simp add: about_def filter_empty_conv)
qed

text \<open>A fresh channel address and a free descriptor are nobody's.\<close>

lemma new_apart:
  assumes "net_ok s q ph" "loops s i = Some l" "fresh_for self chan s" "free_fd fd s"
  shows "objs s y = Some ob \<Longrightarrow> m_conn_fd (co_conn ob) \<noteq> fd"
    "objs s y = Some ob \<Longrightarrow> co_loop ob = i \<Longrightarrow> m_channel (co_conn ob) \<noteq> chan"
    "m_connections (srv s) fd \<noteq> Some y" "m_channels (m_epoller l) fd = None"
proof -
  have w: "world_inv s" using assms(1) by (simp add: net_ok_def)
  have at: "\<exists>st. obj_at st s q y ob" if "objs s y = Some ob" for y ob using net_ok_obj [OF assms(1) that] .
  have fds: "m_conn_fd (co_conn ob) \<noteq> fd" if "objs s y = Some ob" for y ob
    using at [OF that] assms(4) by (auto simp: obj_at_def conn_chan_def free_fd_def)
  then show "objs s y = Some ob \<Longrightarrow> m_conn_fd (co_conn ob) \<noteq> fd" .
  show "m_channel (co_conn ob) \<noteq> chan" if "objs s y = Some ob" "co_loop ob = i"
    using at [OF that(1)] assms(2,3) that(2) by (auto simp: obj_at_def fresh_for_def)
  show "m_connections (srv s) fd \<noteq> Some y"
  proof
    assume "m_connections (srv s) fd = Some y"
    then have "entry_ok s fd y" using w by (simp add: world_inv_def srv_inv_def)
    then show False using fds by (auto simp: entry_ok_def split: option.splits)
  qed
  have "reactor_inv (m_epoller l)" using w assms(2) by (simp add: world_inv_def srv_inv_def)
  then have "m_channels (m_epoller l) fd \<noteq> Some p" for p
    using reactor_inv_mapped [of "m_epoller l" fd p] assms(2,4) by (auto simp: free_fd_def)
  then show "m_channels (m_epoller l) fd = None" by (cases "m_channels (m_epoller l) fd") auto
qed

lemma net_ok_new:
  assumes "net_ok s q ph" "loops s i = Some l" "i \<noteq> srv_loop (srv s)" "fresh_for self chan s" "free_fd fd s"
    and "srv_inv s'" "pool_ready (m_loop_thread_pool (srv s'))" "srv_loop (srv s') = srv_loop (srv s)"
    and "m_loops (m_loop_thread_pool (srv s')) = m_loops (m_loop_thread_pool (srv s))"
    and "m_connections (srv s') = (m_connections (srv s))(fd \<mapsto> self)" "loops s' = (loops s)(i \<mapsto> l')"
    and "m_thread_id l' = m_thread_id l" "m_epoller l' = put_chan (m_epoller l) chan (connection_channel fd self)"
    and "objs s' = (objs s)(self \<mapsto> new_obj i self fd n chan addr)" "upper s' = upper s"
  shows "net_ok s' (\<lambda>k. q k @ (if k = i then [FEstablished self] else [])) ph"
    "moves advances s q s' (\<lambda>k. q k @ (if k = i then [FEstablished self] else []))"
proof -
  let ?b = "srv_loop (srv s)" and ?ob = "new_obj i self fd n chan addr"
  have n: "world_inv s" "events_inv s ph" using assms(1) by (simp_all add: net_ok_def)
  have fresh: "objs s self = None" "chans (m_epoller l) chan = None" using assms(2,4) by (simp_all add: fresh_for_def)
  note apart = new_apart [OF assms(1,2,4,5)]
  have "reactor_inv (m_epoller l')" using assms(6,11) unfolding srv_inv_def by (metis fun_upd_same)
  then have loc: "local_change self i chan fd s s'"
    using assms(2,8,10,11,13,14) apart(1-3) by (auto simp: local_change_def reg_only_def)
  have stay: "stays self s s'" using fresh(1) by (simp add: stays_def)
  have w: "world_inv s'" using n(1) assms(2,6-9,11,12) by (intro world_inv_change [OF n(1) loc]) auto
  have t: "timers_inv s'" using assms(1,3,8,11,15) by (auto simp: net_ok_def timers_inv_def)
  have co: "co_conn ?ob = (TcpConnection_new self fd n chan)\<lparr>m_ip_port := Some (m_ip addr, m_port addr)\<rparr>" "co_loop ?ob = i"
    by (simp_all add: new_obj_def)
  have wf: "conn_wf self (co_conn ?ob)" using co buf_reach_inv [OF buf_reach.reach_new] front_inv_default
    by (simp add: conn_wf_def TcpConnection_new_def)
  have at: "obj_at Fresh s' (\<lambda>k. q k @ (if k = i then [FEstablished self] else [])) self ?ob"
    using wf co apart(4) assms(3,8,10,11,13) no_object_no_functor [OF assms(1) fresh(1)]
    by (auto simp: obj_at_def TcpConnection_new_def conn_chan_def connection_channel_def setErrorCallback_def
        setWriteCallback_def setReadCallback_def Channel_new_def)
  show "moves advances s q s' (\<lambda>k. q k @ (if k = i then [FEstablished self] else []))"
    by (rule moves_change [OF loc]) (use at fresh(1) assms(14) in auto)
  show "net_ok s' (\<lambda>k. q k @ (if k = i then [FEstablished self] else [])) ph"
  proof (rule net_ok_change [OF assms(1) loc stay w t])
    show "\<exists>c. chans (m_epoller k) chan = Some c \<and> m_index c = kAdded" if "ph i = InEvents cbs ps" "chan \<in> set ps" "loops s' i = Some k"
      for k cbs ps
      using active_added [OF assms(1) that(1,2)] assms(2) fresh(2) by (auto simp: added_def)
    show "\<exists>ob. objs s' self = Some ob \<and> (m_state (co_conn ob) = kConnected \<or> m_state (co_conn ob) = kDisconnecting)"
      if "ph k = InEvents cbs ps" "CbRead self \<in> set cbs" for k cbs ps
      using pending_read [OF assms(1) that] fresh(1) by auto
    show "f \<in> set (q k) \<or> loops s k \<noteq> None \<and> task_ok s' k f" if "f \<in> set (q k @ (if k = i then [FEstablished self] else []))" for k f
      using that assms(2,14) co(2) by (auto simp: lives_on_def split: if_splits)
    show "owned s' i chan \<or> sys_chan (i = ?b) c" for c using assms(14) co by (auto simp: owned_def TcpConnection_new_def)
    show "m_conn_fd (co_conn ob') \<noteq> m_conn_fd (co_conn ob)" if "objs s' self = Some ob'" "objs s y = Some ob" for ob' y ob
      using that apart(1) [OF that(2)] assms(14) co by (auto simp: TcpConnection_new_def)
  qed (use at assms(14) in auto)
qed

lemma call_accept:
  assumes "net_ok s q ph" "results_ok cf rs CbAccept s" "loops s (srv_loop (srv s)) = Some base"
  shows "runs_ok advances (run_callback cf rs (m_thread_id base) i CbAccept s) s q q ph"
proof -
  have same: "net_ok s1 q ph \<and> moves (=) s q s1 q \<and> same_threads s s1 \<and> queued_in s1 = queued_in s"
    if "\<exists>a. srv s1 = (srv s)\<lparr>m_acceptor := a\<rparr>" "objs s1 = objs s" "upper s1 = upper s" "loops s1 = loops s" for s1
    using net_ok_same [OF assms(1) that(1-3)] that by (auto simp: same_threads_def queued_in_def fun_eq_iff)
  have keep: "\<exists>a. srv s = (srv s)\<lparr>m_acceptor := a\<rparr>" by (intro exI [of _ "m_acceptor (srv s)"]) simp
  show ?thesis
  proof (cases "rs_accept rs")
    case (Inl e)
    then obtain s1 where s1: "run_callback cf rs (m_thread_id base) i CbAccept s = Inr s1" "\<exists>a. srv s1 = (srv s)\<lparr>m_acceptor := a\<rparr>"
      "objs s1 = objs s" "upper s1 = upper s" "loops s1 = loops s"
      using keep by (cases "e = EMFILE"; cases "rs_accept2 rs")
        (auto simp: run_callback_def handleConnect_def set_idle_def close_idle_def take_waiting_def srv_log_line_def Let_def)
    then show ?thesis using same by (intro runs_ok_mono runs_ok_none [of _ s1]) simp_all
  next
    case (Inr fd)
    have ok: "free_fd fd s" "fresh_for (rs_self rs) (rs_chan rs) s" "rs_sockopt rs = (True, True)"
      using assms(2) Inr by (simp_all add: results_ok_def)
    show ?thesis
    proof (cases "backlog s")
      case Nil
      then have "run_callback cf rs (m_thread_id base) i CbAccept s = Inr s"
        using Inr ok(3) by (simp add: run_callback_def handleConnect_def setKeepAlive_def setTcpNoDelay_def)
      then show ?thesis using same [OF keep] by (intro runs_ok_mono runs_ok_none [of _ s]) simp_all
    next
      case (Cons peer rest)
      let ?s = "(take_waiting s)\<lparr>ntoa_buf := m_ip peer\<rparr>" and ?tp = "m_loop_thread_pool (srv s)" and ?t = "m_thread_id base"
      let ?cb = "server_onConnection rs ?t"
      have s0: "srv ?s = srv s" "objs ?s = objs s" "loops ?s = loops s" "upper ?s = upper s" by (simp_all add: take_waiting_def)
      have n: "srv_inv ?s" "pool_ready (m_loop_thread_pool (srv ?s))" using assms(1) s0(1) by (simp_all add: net_ok_def world_inv_def taken_keeps)
      define j where "j = m_loops ?tp ! nat (m_next_loop_index ?tp)"
      have jm: "j \<in> set (m_loops ?tp)" unfolding j_def using n(2) s0(1) by (simp add: next_loop_member)
      then have j: "j \<noteq> srv_loop (srv s)" "loops s j \<noteq> None" using assms(1) by (auto simp: net_ok_def world_inv_def)
      then obtain l where l: "loops s j = Some l" by auto
      have thr: "\<not> isInLoopThread l ?t" using assms(1,3) l j(1) unfolding net_ok_def world_inv_def isInLoopThread_def by metis
      have fresh: "chans (m_epoller l) (rs_chan rs) = None" "objs s (rs_self rs) = None" using ok(2) l by (simp_all add: fresh_for_def)
      obtain s' l' where s': "handleNewConnection ?cb ?t (rs_self rs) (rs_chan rs) fd peer ?s = Inr s'" "srv_inv s'"
        "pool_ready (m_loop_thread_pool (srv s'))" "srv_loop (srv s') = srv_loop (srv s)"
        "m_connections (srv s') = (m_connections (srv s))(fd \<mapsto> rs_self rs)" "loops s' = (loops s)(j \<mapsto> l')"
        "m_thread_id l' = m_thread_id l" "m_epoller l' = put_chan (m_epoller l) (rs_chan rs) (connection_channel fd (rs_self rs))"
        "m_pending_functors l' = m_pending_functors l @ [FEstablished (rs_self rs)]"
        "objs s' = (objs s)(rs_self rs \<mapsto> new_obj j (rs_self rs) fd (m_next_connection_id (srv s)) (rs_chan rs) peer)" "upper s' = upper s"
        using handleNewConnection_queued [OF n, of j l ?t "rs_chan rs" "rs_self rs" ?cb fd peer] s0 l thr fresh
        by (auto simp: j_def)
      have ml: "m_loops (m_loop_thread_pool (srv s')) = m_loops ?tp"
        using s'(1) getNextLoop_ready [OF n(2)] l thr s0
        by (auto simp: handleNewConnection_def server_runInLoop_def Let_def j_def [symmetric] isInLoopThread_def)
      have run: "run_callback cf rs ?t i CbAccept s = Inr s'"
        using Inr ok(3) Cons s'(1) by (simp add: run_callback_def handleConnect_def setKeepAlive_def setTcpNoDelay_def)
      note new = net_ok_new [OF assms(1) l j(1) ok(2,1) s'(2-4) ml s'(5-8,10,11)]
      show ?thesis unfolding runs_ok_def using run s' l new
        by (intro exI [of _ s'] exI [of _ "\<lambda>k. if k = j then [FEstablished (rs_self rs)] else []"])
          (simp add: queued_in_def same_threads_def)
    qed
  qed
qed

section \<open>The other steps of a loop\<close>

lemma fill_effect:
  assumes "\<forall>p \<in> set (map snd evs). chans r p \<noteq> None" "reactor_inv r"
  shows "\<exists>r'. fillActiveChannels r evs act = Inr (r', act @ map snd evs) \<and> reactor_inv r' \<and> m_channels r' = m_channels r \<and>
     (\<forall>p. rel_option (\<lambda>c c'. \<exists>x. c' = setRevents c x) (chans r p) (chans r' p))"
  using assms
proof (induction evs arbitrary: r act)
  case Nil
  have "\<exists>x. c = setRevents c x" for c :: "'a Channel" by (intro exI [of _ "m_revents c"]) (simp add: setRevents_def)
  then show ?case using Nil by (simp add: option.rel_refl)
next
  case (Cons ev evs)
  obtain e p where ev: "ev = (e, p)" by fastforce
  obtain c where c: "chans r p = Some c" using Cons.prems(1) ev by auto
  let ?r = "put_chan r p (setRevents c e)"
  have live: "\<forall>q \<in> set (map snd evs). chans ?r q \<noteq> None" using Cons.prems(1) by simp
  have "reactor_inv ?r" by (rule inv_same_registration [OF Cons.prems(2) c]) simp_all
  then obtain r' where r': "fillActiveChannels ?r evs (act @ [p]) = Inr (r', (act @ [p]) @ map snd evs)" "reactor_inv r'"
    "m_channels r' = m_channels ?r" "\<And>q. rel_option (\<lambda>c c'. \<exists>x. c' = setRevents c x) (chans ?r q) (chans r' q)"
    using Cons.IH [of ?r "act @ [p]", OF live] by blast
  have "rel_option (\<lambda>c c'. \<exists>x. c' = setRevents c x) (chans r q) (chans r' q)" for q
    using r'(4) [of q] c by (cases "q = p") (auto simp: option_rel_Some1 setRevents_def)
  then show ?case using r'(1-3) c ev by simp
qed

lemma net_inv_goto:
  assumes "net_inv \<sigma>" "same_threads (nw \<sigma>) s" "net_ok s (todo (goto i p \<sigma> s)) ((phases \<sigma>)(i := p))"
  shows "net_inv (goto i p \<sigma> s)"
proof -
  have "m_thread_id l = thread_of \<sigma> k" if l: "loops s k = Some l" for k l
  proof -
    have "map_option m_thread_id (loops s k) = map_option m_thread_id (loops (nw \<sigma>) k)" using assms(2) by (simp add: same_threads_def)
    then obtain l' where "loops (nw \<sigma>) k = Some l'" "m_thread_id l' = m_thread_id l" using l by (cases "loops (nw \<sigma>) k") auto
    then show ?thesis using assms(1) by (auto simp: net_inv_def threads_ok_def)
  qed
  then show ?thesis using assms(3) by (simp add: net_inv_def threads_ok_def) (simp add: goto_def)
qed

text \<open>A step that succeeds, keeps the invariant and takes every connection on in its life.\<close>

definition good_step :: "config \<Rightarrow> action \<Rightarrow> net_sys \<Rightarrow> bool" where
  "good_step cf a \<sigma> \<longleftrightarrow> (\<exists>\<sigma>'. do_action cf a \<sigma> = Inr \<sigma>' \<and> net_inv \<sigma>' \<and> lives_go_on \<sigma> \<sigma>')"

lemma good_stepI:
  assumes "do_action cf a \<sigma> = Inr (goto i p \<sigma> s)" "net_inv \<sigma>" "same_threads (nw \<sigma>) s"
    and "net_ok s q ((phases \<sigma>)(i := p))" "todo (goto i p \<sigma> s) = q" "moves advances (nw \<sigma>) (todo \<sigma>) s q"
  shows "good_step cf a \<sigma>"
proof -
  have "net_inv (goto i p \<sigma> s)" using net_inv_goto [OF assms(2,3)] assms(4,5) by simp
  moreover have "lives_go_on \<sigma> (goto i p \<sigma> s)" using assms(5,6) by (intro moves_lives) (simp add: goto_def)
  ultimately show ?thesis using assms(1) by (auto simp: good_step_def)
qed

lemma moves_advances: "moves (=) s q s' q' \<Longrightarrow> moves advances s q s' q'"
  by (erule moves_mono) simp

lemma same_threads_put: "loops s i = Some l \<Longrightarrow> m_thread_id l' = m_thread_id l \<Longrightarrow> same_threads s (put_loop i l' s)"
  by (simp add: same_threads_def)

lemma poll_ok:
  assumes "net_inv \<sigma>" "phases \<sigma> i = AtPoll" "loops (nw \<sigma>) i = Some l" "reports_ok wait (m_epoller l)"
  shows "good_step cf (Poll i wait) \<sigma>"
proof -
  let ?s = "nw \<sigma>" and ?r = "m_epoller l"
  have ok: "net_ok ?s (todo \<sigma>) (phases \<sigma>)" using assms(1) by (simp add: net_inv_def)
  then have inv: "reactor_inv ?r" using assms(3) by (simp add: net_ok_def world_inv_def srv_inv_def)
  define evs where "evs = (case wait of Inl _ \<Rightarrow> [] | Inr evs \<Rightarrow> evs)"
  have d: "distinct (map snd evs)" using assms(4) by (auto simp: evs_def reports_ok_def split: sum.splits)
  have reg: "\<exists>c. chans ?r p = Some c \<and> m_index c = kAdded" if h: "p \<in> set (map snd evs)" for p
  proof -
    obtain fd e where "registered ?r fd = Some (e, p)"
      using h assms(4) reactor_inv_registered [OF inv] by (auto simp: evs_def reports_ok_def split: sum.splits)
    then show ?thesis by (auto simp: registered_def split: option.splits if_splits)
  qed
  then obtain r' where r': "fillActiveChannels ?r evs [] = Inr (r', map snd evs)" "reactor_inv r'" "m_channels r' = m_channels ?r"
    "\<And>p. rel_option (\<lambda>c c'. \<exists>x. c' = setRevents c x) (chans ?r p) (chans r' p)"
    using fill_effect [of evs ?r "[]"] inv by fastforce
  have poll: "epoller_poll ?r wait [] = Inr (r', map snd evs)"
    using r'(1) by (cases wait) (simp_all add: epoller_poll_def evs_def)
  let ?l = "l\<lparr>m_epoller := r', m_active_channels := map snd evs\<rparr>"
  let ?s' = "put_loop i ?l ?s"
  have calm: "calm_loop l ?l" using r'(2-4) by (simp add: calm_loop_def)
  have "rel_option calm_loop (loops ?s k) (loops ?s' k)" for k
    using calm assms(3) calm_loop_refl by (auto intro: option.rel_refl)
  then have "calm ?s ?s'" by (auto simp: calm_def intro: exI [of _ "m_acceptor (srv ?s)"])
  note ok' = net_ok_calm [OF ok this]
  have "added ?s' i p" if h: "p \<in> set (map snd evs)" for p
  proof -
    obtain c where c: "chans ?r p = Some c" "m_index c = kAdded" using reg [OF h] by blast
    then show ?thesis using calm_chan(1) [OF calm, of p c] by (auto simp: added_def)
  qed
  then have "events_inv ?s' ((phases \<sigma>)(i := InEvents [] (map snd evs)))"
    using ok'(1) d by (auto simp: net_ok_def events_inv_def)
  moreover have "todo (goto i (InEvents [] (map snd evs)) \<sigma> ?s') = todo \<sigma>"
    using assms(2,3) by (auto simp: todo_def goto_def queued_in_def fun_eq_iff)
  ultimately show ?thesis using assms(3) poll ok'(1) same_threads_put [OF assms(3)] moves_advances [OF ok'(2)]
    by (intro good_stepI [OF _ assms(1)]) (simp_all add: net_ok_def)
qed

text \<open>The callbacks an event makes a connection's or one of the program's own channels call.\<close>

lemma handleEvent_shape:
  "\<exists>a b d e. handleEvent alive c = (if a then case m_error_callback c of None \<Rightarrow> [] | Some cb \<Rightarrow> [cb] else []) @
     (if b then case m_close_callback c of None \<Rightarrow> [] | Some cb \<Rightarrow> [cb] else []) @
     (if d then case m_read_callback c of None \<Rightarrow> [] | Some cb \<Rightarrow> [cb] else []) @
     (if e then case m_write_callback c of None \<Rightarrow> [] | Some cb \<Rightarrow> [cb] else [])"
proof (cases "handleEvent alive c = []")
  case True
  show ?thesis unfolding True by (intro exI [of _ False]) simp
next
  case False
  then have "handleEvent alive c = handleEventWithGuard c" unfolding handleEvent_def by metis
  then show ?thesis unfolding handleEventWithGuard_def by (intro exI)
qed

lemma handleEvent_conn:
  assumes "conn_chan obj fd c"
  shows "set (handleEvent alive c) \<subseteq> {CbRead obj, CbWrite obj, CbError obj}" "distinct (handleEvent alive c)"
proof -
  obtain a b d e where "handleEvent alive c = (if a then [CbError obj] else []) @ (if b then [] else []) @
      (if d then [CbRead obj] else []) @ (if e then [CbWrite obj] else [])"
    using handleEvent_shape [of alive c] assms by (auto simp: conn_chan_def cong: if_cong)
  then show "set (handleEvent alive c) \<subseteq> {CbRead obj, CbWrite obj, CbError obj}" "distinct (handleEvent alive c)" by auto
qed

lemma handleEvent_sys:
  assumes "sys_chan b c"
  shows "set (handleEvent alive c) \<subseteq> set_option (m_read_callback c)" "distinct (handleEvent alive c)"
proof -
  obtain cb where cb: "m_read_callback c = Some cb" "m_error_callback c = None" "m_close_callback c = None" "m_write_callback c = None"
    using assms by (auto simp: sys_chan_def)
  obtain a b d e where "handleEvent alive c = (if a then [] else []) @ (if b then [] else []) @ (if d then [cb] else []) @ (if e then [] else [])"
    using handleEvent_shape [of alive c] unfolding cb option.case by blast
  then show "set (handleEvent alive c) \<subseteq> set_option (m_read_callback c)" "distinct (handleEvent alive c)" using cb(1) by auto
qed

lemma dispatch_ok:
  assumes "net_inv \<sigma>" "phases \<sigma> i = InEvents [] (p # ps)"
  shows "good_step cf (Dispatch i) \<sigma>"
proof -
  let ?s = "nw \<sigma>"
  have ok: "net_ok ?s (todo \<sigma>) (phases \<sigma>)" using assms(1) by (simp add: net_inv_def)
  then have inv: "events_inv ?s (phases \<sigma>)" by (simp add: net_ok_def)
  have ev: "distinct (p # ps)" "\<forall>q \<in> set (p # ps). added ?s i q"
    using inv assms(2) unfolding events_inv_def by blast+
  then obtain l c where l: "loops ?s i = Some l" "chans (m_epoller l) p = Some c" "m_index c = kAdded" by (auto simp: added_def)
  let ?cbs = "handleEvent (\<lambda>obj. objs ?s obj \<noteq> None) c"
  have "(\<forall>cb \<in> set ?cbs. cb_ok ?s i ps cb) \<and> distinct ?cbs"
  proof (cases "owned ?s i p")
    case True
    then obtain obj ob where o: "objs ?s obj = Some ob" "co_loop ob = i" "m_channel (co_conn ob) = p" by (auto simp: owned_def)
    obtain st where st: "obj_at st ?s (todo \<sigma>) obj ob" using net_ok_obj [OF ok o(1)] by blast
    then have "st = Open" "conn_chan obj (m_conn_fd (co_conn ob)) c" using o l by (cases st; auto simp: obj_at_def)+
    then have "m_state (co_conn ob) = kConnected \<or> m_state (co_conn ob) = kDisconnecting"
      using st by (auto simp: obj_at_def up_chan_def)
    then have "handled ?s i ps obj b" for b using o ev(1) by (auto simp: handled_def)
    then show ?thesis using handleEvent_conn [OF \<open>conn_chan _ _ c\<close>, of "\<lambda>obj. objs ?s obj \<noteq> None"] by fastforce
  next
    case False
    then have sys: "sys_chan (i = srv_loop (srv ?s)) c" using ok l by (auto simp: net_ok_def chans_inv_def)
    then show ?thesis using handleEvent_sys [OF sys, of "\<lambda>obj. objs ?s obj \<noteq> None"] by (auto simp: sys_chan_def)
  qed
  then have "events_inv ?s ((phases \<sigma>)(i := InEvents ?cbs ps))"
    using inv ev l(1) by (auto simp: events_inv_def)
  moreover have "todo (goto i (InEvents ?cbs ps) \<sigma> ?s) = todo \<sigma>"
    using assms(2) by (auto simp: todo_def goto_def fun_eq_iff)
  ultimately show ?thesis using ok assms(2) l
    by (intro good_stepI [where q = "todo \<sigma>" and s = ?s and i = i and p = "InEvents ?cbs ps", OF _ assms(1)])
      (simp_all add: net_ok_def same_threads_def)
qed

lemma swap_finish_ok:
  assumes "net_inv \<sigma>"
  shows "phases \<sigma> i = InEvents [] [] \<Longrightarrow> good_step cf (Swap i) \<sigma>"
    and "phases \<sigma> i = InFunctors [] \<Longrightarrow> good_step cf (Finish i) \<sigma>"
proof -
  let ?s = "nw \<sigma>"
  have ok: "net_ok ?s (todo \<sigma>) (phases \<sigma>)" using assms by (simp add: net_inv_def)
  have loop: "\<exists>l. loops ?s i = Some l" if "phases \<sigma> i \<noteq> AtPoll" using ok that by (auto simp: net_ok_def events_inv_def)
  have same: "net_ok (put_loop i l' ?s) (todo \<sigma>) (phases \<sigma>)" "moves advances ?s (todo \<sigma>) (put_loop i l' ?s) (todo \<sigma>)"
    if "loops ?s i = Some l" "m_epoller l' = m_epoller l" "m_thread_id l' = m_thread_id l" for l l'
  proof -
    have "calm ?s (put_loop i l' ?s)" using that by (intro calm_same) (auto intro: exI [of _ "m_acceptor (srv ?s)"])
    from net_ok_calm [OF ok this] moves_advances
    show "net_ok (put_loop i l' ?s) (todo \<sigma>) (phases \<sigma>)" "moves advances ?s (todo \<sigma>) (put_loop i l' ?s) (todo \<sigma>)" by blast+
  qed
  show "good_step cf (Swap i) \<sigma>" if ph: "phases \<sigma> i = InEvents [] []"
  proof -
    obtain l where l: "loops ?s i = Some l" using loop ph by auto
    let ?l = "l\<lparr>m_calling_pending_functors := True, m_pending_functors := []\<rparr>"
    let ?\<sigma> = "goto i (InFunctors (m_pending_functors l)) \<sigma> (put_loop i ?l ?s)"
    have "todo ?\<sigma> = todo \<sigma>" using l ph by (auto simp: todo_def goto_def queued_in_def fun_eq_iff)
    moreover have ok': "net_ok (put_loop i ?l ?s) (todo \<sigma>) (phases \<sigma>)" by (rule same(1) [OF l]) simp_all
    moreover have "events_inv (put_loop i ?l ?s) ((phases \<sigma>)(i := InFunctors (m_pending_functors l)))"
      using ok' by (intro events_inv_functors(1)) (simp_all add: net_ok_def)
    ultimately show ?thesis using l same(2) [OF l, of ?l] same_threads_put [OF l]
      by (intro good_stepI [OF _ assms]) (simp_all add: net_ok_def swap_functors_def)
  qed
  show "good_step cf (Finish i) \<sigma>" if ph: "phases \<sigma> i = InFunctors []"
  proof -
    obtain l where l: "loops ?s i = Some l" using loop ph by auto
    let ?l = "l\<lparr>m_calling_pending_functors := False\<rparr>"
    let ?\<sigma> = "goto i AtPoll \<sigma> (put_loop i ?l ?s)"
    have "todo ?\<sigma> = todo \<sigma>" using l ph by (auto simp: todo_def goto_def queued_in_def fun_eq_iff)
    moreover have ok': "net_ok (put_loop i ?l ?s) (todo \<sigma>) (phases \<sigma>)" by (rule same(1) [OF l]) simp_all
    moreover have "events_inv (put_loop i ?l ?s) ((phases \<sigma>)(i := AtPoll))"
      using ok' by (intro events_inv_functors(2)) (simp_all add: net_ok_def)
    ultimately show ?thesis using l same(2) [OF l, of ?l] same_threads_put [OF l]
      by (intro good_stepI [OF _ assms]) (simp_all add: net_ok_def)
  qed
qed

section \<open>Releasing a connection object\<close>

lemma release_stage:
  assumes "net_inv \<sigma>" "objs (nw \<sigma>) obj = Some ob" "\<not> held_by obj \<sigma>"
  shows "obj_at Detached (nw \<sigma>) (todo \<sigma>) obj ob" "about obj (todo \<sigma> k) = []"
proof -
  have ok: "net_ok (nw \<sigma>) (todo \<sigma>) (phases \<sigma>)" using assms(1) by (simp add: net_inv_def)
  obtain st where st: "obj_at st (nw \<sigma>) (todo \<sigma>) obj ob" using net_ok_obj [OF ok assms(2)] by blast
  have "FDestructor obj \<notin> set (todo \<sigma> (co_loop ob))" "\<And>fd. m_connections (srv (nw \<sigma>)) fd \<noteq> Some obj"
    using assms(3) by (auto simp: held_by_def)
  moreover have "FDestructor obj \<in> set (todo \<sigma> (co_loop ob))" if "about obj (todo \<sigma> (co_loop ob)) = fs @ [FDestructor obj]" for fs
  proof -
    have "FDestructor obj \<in> set (about obj (todo \<sigma> (co_loop ob)))" using that by simp
    then show ?thesis by (simp add: about_def)
  qed
  ultimately have "st = Detached" using st by (cases st) (auto simp: obj_at_def)
  then show at: "obj_at Detached (nw \<sigma>) (todo \<sigma>) obj ob" using st by simp
  show "about obj (todo \<sigma> k) = []"
  proof (rule ccontr)
    assume "about obj (todo \<sigma> k) \<noteq> []"
    then obtain f where f: "f \<in> set (todo \<sigma> k)" "target f = Some obj" by (auto simp: about_def filter_empty_conv)
    have "task_ok (nw \<sigma>) k f" using ok f(1) by (simp add: net_ok_def tasks_inv_def)
    then have "k = co_loop ob \<or> k = srv_loop (srv (nw \<sigma>))" using f(2) assms(2) by (cases f) (auto simp: lives_on_def)
    then have "about obj (todo \<sigma> k) = []" using at by (auto simp: obj_at_def)
    then show False using f by (auto simp: about_def filter_empty_conv)
  qed
qed

lemma release_chans:
  assumes "chans_inv s" "local_change obj j p fd s s'" "objs s obj = Some ob" "objs s' = (objs s)(obj := None)"
    and "srv s' = srv s" "\<And>k. loops s' (co_loop ob) = Some k \<Longrightarrow> chans (m_epoller k) (m_channel (co_conn ob)) = None"
    and "j = co_loop ob" "p = m_channel (co_conn ob)"
  shows "chans_inv s'"
  unfolding chans_inv_def
proof (intro allI impI)
  fix i k q d assume a: "loops s' i = Some k" "chans (m_epoller k) q = Some d"
  have iq: "i \<noteq> j \<or> q \<noteq> p" using a assms(6-8) by auto
  obtain k0 where k0: "loops s i = Some k0" "chans (m_epoller k0) q = Some d" using chan_before [OF assms(2) a(1) iq] a(2) by auto
  have "owned s' i q" if "owned s i q"
  proof -
    obtain y b where y: "objs s y = Some b" "co_loop b = i" "m_channel (co_conn b) = q" using \<open>owned s i q\<close> by (auto simp: owned_def)
    then have "y \<noteq> obj" using iq assms(3,7,8) by auto
    then show ?thesis using y assms(4) unfolding owned_def by (intro exI [of _ y] exI [of _ b]) simp
  qed
  then show "owned s' i q \<or> sys_chan (i = srv_loop (srv s')) d" using k0 assms(1,5) unfolding chans_inv_def by metis
qed

lemma release_events:
  assumes "events_inv (nw \<sigma>) (phases \<sigma>)" "local_change obj j p fd (nw \<sigma>) s'" "srv s' = srv (nw \<sigma>)" "objs s' = (objs (nw \<sigma>))(obj := None)"
    and "\<not> added (nw \<sigma>) j p" "\<not> held_by obj \<sigma>"
  shows "events_inv s' (phases \<sigma>)"
  unfolding events_inv_def
proof (intro allI conjI impI ballI)
  fix i assume "phases \<sigma> i \<noteq> AtPoll"
  then have "loops (nw \<sigma>) i \<noteq> None" using assms(1) by (auto simp: events_inv_def)
  then show "loops s' i \<noteq> None" using loop_kept [OF assms(2)] by blast
next
  fix i cbs ps assume ph: "phases \<sigma> i = InEvents cbs ps"
  note old = assms(1) [unfolded events_inv_def, rule_format, of i, THEN conjunct2, rule_format, OF ph]
  show "distinct cbs" "distinct ps" using old by simp_all
  show "added s' i q" if "q \<in> set ps" for q
  proof -
    have a: "added (nw \<sigma>) i q" using old that by blast
    then have "i \<noteq> j \<or> q \<noteq> p" using assms(5) by auto
    then show ?thesis using added_change [OF assms(2) a] by blast
  qed
  show "cb_ok s' i ps cb" if h: "cb \<in> set cbs" for cb
  proof -
    have "cb_ok (nw \<sigma>) i ps cb" using old h by blast
    moreover have "cb \<notin> {CbRead obj, CbWrite obj, CbError obj}" using h ph assms(6) unfolding held_by_def by blast
    ultimately show ?thesis using assms(3,4) by (cases cb) (auto simp: handled_def)
  qed
qed

lemma release_ok:
  assumes "net_inv \<sigma>" "objs (nw \<sigma>) obj = Some ob" "\<not> held_by obj \<sigma>"
  shows "good_step cf (Release obj) \<sigma>"
proof -
  let ?s = "nw \<sigma>" and ?q = "todo \<sigma>" and ?ph = "phases \<sigma>"
  let ?j = "co_loop ob" and ?p = "m_channel (co_conn ob)" and ?fd = "m_conn_fd (co_conn ob)"
  have ok: "net_ok ?s ?q ?ph" using assms(1) by (simp add: net_inv_def)
  note at = release_stage [OF assms]
  obtain l c where l: "loops ?s ?j = Some l" "chans (m_epoller l) ?p = Some c" "conn_chan obj ?fd c" "?j \<noteq> srv_loop (srv ?s)"
    "m_index c = kDeleted" "m_channels (m_epoller l) ?fd \<noteq> Some ?p"
    using at(1) by (auto simp: obj_at_def)
  have n: "world_inv ?s" "events_inv ?s ?ph" using ok by (simp_all add: net_ok_def)
  have inv: "reactor_inv (m_epoller l)" using n(1) l(1) by (simp add: world_inv_def srv_inv_def)
  have fd: "m_fd c = ?fd" using l(3) by (simp add: conn_chan_def)
  define r where "r = (m_epoller l)\<lparr>chans := (chans (m_epoller l))(?p := None)\<rparr>"
  have des: "Channel_destroy (m_epoller l) ?p = Inr r" using l(2,6) fd by (simp add: Channel_destroy_def hasChannel_def r_def)
  have "m_channels (m_epoller l) d \<noteq> Some ?p" for d
    using reactor_inv_mapped [OF inv, of d ?p] l(2,6) fd by auto
  then have rinv: "reactor_inv r" unfolding r_def using inv_forget [OF inv] by blast
  define s' where "s' = (put_loop ?j (l\<lparr>m_epoller := r\<rparr>) (?s\<lparr>closed_fds := closed_fds ?s @ [?fd]\<rparr>))\<lparr>objs := (objs ?s)(obj := None)\<rparr>"
  have run: "TcpConnection_destroy obj ?s = Inr s'"
    using assms(2) l(1) des by (simp add: TcpConnection_destroy_def s'_def Let_def deref_loop_def)
  have s': "srv s' = srv ?s" "objs s' = (objs ?s)(obj := None)" "upper s' = upper ?s" "loops s' = (loops ?s)(?j \<mapsto> l\<lparr>m_epoller := r\<rparr>)"
    by (simp_all add: s'_def)
  have loc: "local_change obj ?j ?p ?fd ?s s'"
    using s' l(1) rinv channel_identity [OF ok assms(2)] by (auto simp: local_change_def reg_only_def r_def)
  have unl: "m_connections (srv ?s) d \<noteq> Some obj" for d using assms(3) by (auto simp: held_by_def)
  then have "srv_inv s'" using n(1) s'(1) by (intro srv_inv_change [OF _ loc]) (auto simp: world_inv_def srv_inv_def)
  then have w: "world_inv s'" using n(1) s'(1,4) l(1) by (intro world_inv_change [OF n(1) loc]) (auto simp: world_inv_def)
  have "objs_inv ?s ?q" using ok by (simp add: net_ok_def)
  then have "objs_inv s' ?q" by (rule objs_inv_change [OF _ loc]) (use s'(2) in auto)
  moreover have "fds_inv s'" using ok s'(2) by (auto simp: net_ok_def fds_inv_def split: if_splits)
  moreover have "chans_inv s'"
    using ok s'(1,4) by (intro release_chans [OF _ loc assms(2) s'(2)]) (auto simp: net_ok_def r_def)
  moreover have "tasks_inv s' ?q" unfolding tasks_inv_def
  proof (intro allI ballI)
    fix i f assume f: "f \<in> set (?q i)"
    then have t: "loops ?s i \<noteq> None" "task_ok ?s i f" using ok by (auto simp: net_ok_def tasks_inv_def)
    have "target f \<noteq> Some obj" using at(2) [of i] f by (auto simp: about_def filter_empty_conv)
    then show "loops s' i \<noteq> None \<and> task_ok s' i f" using t s' l(1) by (cases f) (auto simp: lives_on_def)
  qed
  moreover have "\<not> added ?s ?j ?p" using l(1,2,5) by (auto simp: added_def)
  then have "events_inv s' ?ph" by (rule release_events [OF n(2) loc s'(1,2) _ assms(3)])
  moreover have "timers_inv s'" using ok s' l(4) by (auto simp: net_ok_def timers_inv_def)
  ultimately have "net_ok s' ?q ?ph" using w by (simp add: net_ok_def)
  moreover have "todo (\<sigma>\<lparr>nw := s'\<rparr>) = todo \<sigma>" using s'(4) l(1) by (auto simp: todo_def queued_in_def fun_eq_iff)
  moreover have "threads_ok (thread_of \<sigma>) s'" using assms(1) s'(4) l(1) by (auto simp: net_inv_def threads_ok_def)
  moreover have "obj_at st s' ?q y b" if "y \<noteq> obj" "objs ?s y = Some b" "obj_at st ?s ?q y b" for st y b
    using obj_at_change [OF loc that(1,2) _ that(3)] by simp
  then have "\<exists>st'. obj_at st' s' ?q y b \<and> advances st st'" if "y \<noteq> obj" "objs ?s y = Some b" "obj_at st ?s ?q y b" for st y b
    using that advances_refl by blast
  then have "lives_go_on \<sigma> (\<sigma>\<lparr>nw := s'\<rparr>)" if "todo (\<sigma>\<lparr>nw := s'\<rparr>) = todo \<sigma>"
    unfolding lives_go_on_def using s'(2) that at(1) obj_at_unique assms(2) by (auto split: option.splits)
  ultimately show ?thesis using run by (auto simp: net_inv_def good_step_def)
qed

section \<open>Every step\<close>

lemma callback_ok:
  assumes "net_ok s q ph" "ph i = InEvents cbs ps" "cb_ok s i ps cb" "cb \<notin> set cbs" "results_ok cf rs cb s" "loops s i = Some l"
  shows "runs_ok advances (run_callback cf rs (m_thread_id l) i cb s) s q q ph"
proof (cases cb)
  case CbWakeup
  let ?s = "put_loop i (handleRead_wakeup l) s"
  have "calm s ?s" using assms(6)
    by (intro calm_same) (auto simp: handleRead_wakeup_def intro: exI [of _ "m_acceptor (srv s)"])
  then show ?thesis using CbWakeup assms(6) net_ok_calm [OF assms(1)]
    by (intro runs_ok_mono runs_ok_none [of _ ?s]) (auto simp: run_callback_def queued_in_def same_threads_def handleRead_wakeup_def)
next
  case CbTimer
  then show ?thesis using runs_ok_mono [OF timer_event_ok [OF assms(1), of l cf rs]] assms(3,6) by (simp add: run_callback_def)
next
  case CbAccept
  then show ?thesis using call_accept [OF assms(1), of cf rs l i] assms(3,5,6) by simp
next
  case (CbRead obj)
  then show ?thesis using call_read [OF assms(1,2), of obj cf rs l] assms(3-6) by simp
next
  case (CbWrite obj)
  then show ?thesis using call_write_error(1) [OF assms(1,6)] assms(3,5) by blast
next
  case (CbError obj)
  then show ?thesis using call_write_error(2) [OF assms(1,6)] assms(3) by blast
qed

lemma functor_ok:
  assumes "functor_step s q ph i f qs l"
  shows "runs_ok advances (run_functor cf rs (m_thread_id l) i f s) s q (q(i := qs)) ph"
  using run_established [OF assms] run_destructor [OF assms] run_shutDown [OF assms] run_remove [OF assms] run_add_timer [OF assms]
    functor_stepD(5) [OF assms] by (cases f) auto

lemma call_good:
  assumes "net_inv \<sigma>" "phases \<sigma> i = InEvents (cb # cbs) ps" "results_ok cf rs cb (nw \<sigma>)"
  shows "good_step cf (Call i rs) \<sigma>"
proof -
  let ?s = "nw \<sigma>"
  note ph = assms(2,3)
  have ok: "net_ok ?s (todo \<sigma>) (phases \<sigma>)" using assms(1) by (simp add: net_inv_def)
  then have ev: "events_inv ?s (phases \<sigma>)" by (simp add: net_ok_def)
  note dr = events_inv_drop [OF ev ph(1)]
  obtain l where l: "loops ?s i = Some l" using dr(4) by auto
  let ?ph = "(phases \<sigma>)(i := InEvents cbs ps)"
  have ok': "net_ok ?s (todo \<sigma>) ?ph" using ok dr(1) by (simp add: net_ok_def)
  from callback_ok [OF ok' _ dr(2,3) ph(2) l]
  obtain s' more where s': "run_callback cf rs (m_thread_id l) i cb ?s = Inr s'" "\<And>k. queued_in s' k = queued_in ?s k @ more k"
    "net_ok s' (\<lambda>k. todo \<sigma> k @ more k) ?ph" "same_threads ?s s'" "moves advances ?s (todo \<sigma>) s' (\<lambda>k. todo \<sigma> k @ more k)"
    by (auto simp: runs_ok_def)
  have "todo (goto i (InEvents cbs ps) \<sigma> s') = (\<lambda>k. todo \<sigma> k @ more k)"
    using ph(1) s'(2) by (auto simp: todo_def goto_def fun_eq_iff)
  moreover have "m_thread_id l = thread_of \<sigma> i" using assms(1) l by (simp add: net_inv_def threads_ok_def)
  ultimately show ?thesis using ph(1) s'(1) by (intro good_stepI [OF _ assms(1) s'(4,3) _ s'(5)]) simp_all
qed

lemma functor_good:
  assumes "net_inv \<sigma>" "phases \<sigma> i = InFunctors (f # fs)"
  shows "good_step cf (RunFunctor i rs) \<sigma>"
proof -
  let ?s = "nw \<sigma>"
  note ph = assms(2)
  have ok: "net_ok ?s (todo \<sigma>) (phases \<sigma>)" using assms(1) by (simp add: net_inv_def)
  then have ev: "events_inv ?s (phases \<sigma>)" by (simp add: net_ok_def)
  then obtain l where l: "loops ?s i = Some l" using ph by (fastforce simp: events_inv_def)
  let ?ph = "(phases \<sigma>)(i := InFunctors fs)"
  have ok': "net_ok ?s (todo \<sigma>) ?ph" using ok events_inv_functors(1) [OF ev, of i fs] l by (simp add: net_ok_def)
  have "functor_step ?s (todo \<sigma>) ?ph i f (fs @ queued_in ?s i) l"
    using ok' ph l by (simp add: functor_step_def todo_def)
  from functor_ok [OF this, of cf rs]
  obtain s' more where s': "run_functor cf rs (m_thread_id l) i f ?s = Inr s'" "\<And>k. queued_in s' k = queued_in ?s k @ more k"
    "net_ok s' (\<lambda>k. ((todo \<sigma>)(i := fs @ queued_in ?s i)) k @ more k) ?ph" "same_threads ?s s'"
    "moves advances ?s (todo \<sigma>) s' (\<lambda>k. ((todo \<sigma>)(i := fs @ queued_in ?s i)) k @ more k)"
    unfolding runs_ok_def by blast
  have "todo (goto i (InFunctors fs) \<sigma> s') = (\<lambda>k. ((todo \<sigma>)(i := fs @ queued_in ?s i)) k @ more k)"
    using ph s'(2) by (auto simp: todo_def goto_def fun_eq_iff)
  moreover have "m_thread_id l = thread_of \<sigma> i" using assms(1) l by (simp add: net_inv_def threads_ok_def)
  ultimately show ?thesis using ph s'(1) by (intro good_stepI [OF _ assms(1) s'(4,3) _ s'(5)]) simp_all
qed

lemma step_good:
  assumes "net_inv \<sigma>" "enabled cf a \<sigma>"
  shows "good_step cf a \<sigma>"
proof (cases a)
  case (Poll i wait)
  then show ?thesis using poll_ok [OF assms(1)] assms(2) by auto
next
  case (Dispatch i)
  then show ?thesis using dispatch_ok [OF assms(1)] assms(2) by fastforce
next
  case (Call i rs)
  then show ?thesis using call_good [OF assms(1)] assms(2) by auto
next
  case (Swap i)
  then show ?thesis using swap_finish_ok(1) [OF assms(1), of i cf] assms(2) by simp
next
  case (RunFunctor i rs)
  then show ?thesis using functor_good [OF assms(1)] assms(2) by auto
next
  case (Finish i)
  then show ?thesis using swap_finish_ok(2) [OF assms(1), of i cf] assms(2) by simp
next
  case (Release obj)
  then show ?thesis using release_ok [OF assms(1)] assms(2) by (auto simp del: do_action.simps)
next
  case (Arrive peer)
  let ?s = "(nw \<sigma>)\<lparr>backlog := backlog (nw \<sigma>) @ [peer]\<rparr>"
  have "net_ok (nw \<sigma>) (todo \<sigma>) (phases \<sigma>)" using assms(1) by (simp add: net_inv_def)
  moreover have "calm (nw \<sigma>) ?s" by (rule calm_same) (auto intro: exI [of _ "m_acceptor (srv (nw \<sigma>))"])
  ultimately have "net_ok ?s (todo \<sigma>) (phases \<sigma>)" "moves advances (nw \<sigma>) (todo \<sigma>) ?s (todo \<sigma>)"
    using net_ok_calm moves_advances by blast+
  moreover have "threads_ok (thread_of \<sigma>) ?s" using assms(1) by (simp add: net_inv_def threads_ok_def)
  moreover have "todo (\<sigma>\<lparr>nw := ?s\<rparr>) = todo \<sigma>" by (auto simp: todo_def queued_in_def fun_eq_iff)
  ultimately show ?thesis using Arrive moves_lives [of \<sigma> "\<sigma>\<lparr>nw := ?s\<rparr>"] by (auto simp: net_inv_def good_step_def)
qed

lemma step_ok:
  assumes "net_inv \<sigma>" "enabled cf a \<sigma>"
  shows "\<exists>\<sigma>'. do_action cf a \<sigma> = Inr \<sigma>' \<and> net_inv \<sigma>'" "do_action cf a \<sigma> = Inr \<sigma>' \<Longrightarrow> lives_go_on \<sigma> \<sigma>'"
  using step_good [OF assms] by (auto simp: good_step_def)

end
