(* ===== verification/NetRuns.thy ===== *)
theory NetRuns
  imports NetSteps
begin

text \<open>
  The runs of the server: the states that are reached from a started server by the steps of its
  loops, of the kernel and of the shared pointers, and what holds in all of them.  No step faults,
  every pointer is live, every connection is in exactly one stage of its life, and every loop gets
  back to \<open>epoll_wait\<close>.  The steps of a loop that runs alone are the round that the event-loop
  code describes as a whole.
\<close>

section \<open>Reachable states\<close>

text \<open>
  A server that has been started: it has no connections, nothing is queued, the channels of its
  loops are the program's own, and the thread that runs a loop is the one that made it.
\<close>

definition started :: "(nat \<Rightarrow> nat) \<Rightarrow> http_server \<Rightarrow> bool" where
  "started t s \<longleftrightarrow> world_inv s \<and> threads_ok t s \<and> timers_inv s \<and> objs s = Map.empty \<and>
     (\<forall>i l. loops s i = Some l \<longrightarrow> m_pending_functors l = [] \<and>
        (\<forall>p c. chans (m_epoller l) p = Some c \<longrightarrow> sys_chan (i = srv_loop (srv s)) c))"

definition at_start :: "(nat \<Rightarrow> nat) \<Rightarrow> http_server \<Rightarrow> net_sys" where
  "at_start t s = \<lparr>nw = s, phases = (\<lambda>_. AtPoll), thread_of = t\<rparr>"

inductive net_run :: "config \<Rightarrow> net_sys \<Rightarrow> net_sys \<Rightarrow> bool" for cf \<sigma>0 where
  start: "net_run cf \<sigma>0 \<sigma>0"
| step: "net_run cf \<sigma>0 \<sigma> \<Longrightarrow> enabled cf a \<sigma> \<Longrightarrow> do_action cf a \<sigma> = Inr \<sigma>' \<Longrightarrow> net_run cf \<sigma>0 \<sigma>'"

definition net_reach :: "config \<Rightarrow> net_sys \<Rightarrow> bool" where
  "net_reach cf \<sigma> \<longleftrightarrow> (\<exists>t s. started t s \<and> net_run cf (at_start t s) \<sigma>)"

lemma started_inv:
  assumes "started t s"
  shows "net_inv (at_start t s)"
proof -
  let ?\<sigma> = "at_start t s"
  have q: "todo ?\<sigma> = (\<lambda>_. [])" using assms by (auto simp: at_start_def todo_def queued_in_def started_def fun_eq_iff split: option.split)
  have "events_inv s (\<lambda>_. AtPoll)" by (simp add: events_inv_def)
  moreover have "objs_inv s (\<lambda>_. [])" "fds_inv s" "tasks_inv s (\<lambda>_. [])"
    using assms by (simp_all add: objs_inv_def fds_inv_def tasks_inv_def started_def)
  moreover have "chans_inv s" using assms unfolding chans_inv_def started_def by blast
  ultimately show ?thesis using assms q by (simp add: net_inv_def net_ok_def started_def) (simp add: at_start_def)
qed

lemma net_run_inv: "net_run cf \<sigma>0 \<sigma> \<Longrightarrow> net_inv \<sigma>0 \<Longrightarrow> net_inv \<sigma>"
proof (induction rule: net_run.induct)
  case (step \<sigma> a \<sigma>')
  then show ?case using step_ok [of \<sigma> cf a] by auto
qed simp

lemma net_reach_inv:
  assumes "net_reach cf \<sigma>"
  shows "net_inv \<sigma>" "net_ok (nw \<sigma>) (todo \<sigma>) (phases \<sigma>)"
proof -
  show "net_inv \<sigma>" using assms net_run_inv started_inv unfolding net_reach_def by blast
  then show "net_ok (nw \<sigma>) (todo \<sigma>) (phases \<sigma>)" by (simp add: net_inv_def)
qed

lemma net_reach_step: "net_reach cf \<sigma> \<Longrightarrow> enabled cf a \<sigma> \<Longrightarrow> do_action cf a \<sigma> = Inr \<sigma>' \<Longrightarrow> net_reach cf \<sigma>'"
  unfolding net_reach_def using net_run.step by blast

section \<open>The round of a loop\<close>

text \<open>The loop a step belongs to, and how much of its round a loop has still to do.\<close>

fun of_loop :: "nat \<Rightarrow> action \<Rightarrow> bool" where
  "of_loop i (Poll j wait) \<longleftrightarrow> j = i" | "of_loop i (Dispatch j) \<longleftrightarrow> j = i" | "of_loop i (Call j rs) \<longleftrightarrow> j = i"
| "of_loop i (Swap j) \<longleftrightarrow> j = i" | "of_loop i (RunFunctor j rs) \<longleftrightarrow> j = i" | "of_loop i (Finish j) \<longleftrightarrow> j = i"
| "of_loop i (Release obj) \<longleftrightarrow> False" | "of_loop i (Arrive peer) \<longleftrightarrow> False"

fun left :: "phase \<Rightarrow> nat \<times> nat" where
  "left AtPoll = (0, 0)"
| "left (InFunctors fs) = (1, length fs)"
| "left (InEvents cbs ps) = (2, 5 * length ps + length cbs)"

lemma phases_goto [simp]: "phases (goto i ph \<sigma> s) = (phases \<sigma>)(i := ph)" "nw (goto i ph \<sigma> s) = s" "thread_of (goto i ph \<sigma> s) = thread_of \<sigma>"
  "goto i ph (goto i ph' \<sigma> s') s = goto i ph \<sigma> s"
  by (simp_all add: goto_def)

lemma handleEvent_length: "length (handleEvent alive c) \<le> 4"
proof -
  have "length (case x of None \<Rightarrow> [] | Some cb \<Rightarrow> [cb]) \<le> 1" for x :: "'b option" by (cases x) simp_all
  then show ?thesis using handleEvent_shape [of alive c] by (auto split: option.split)
qed

text \<open>A step of another loop leaves the phase of this one; one of its own makes the rest of the round smaller.\<close>

lemma other_step: "do_action cf a \<sigma> = Inr \<sigma>' \<Longrightarrow> \<not> of_loop i a \<Longrightarrow> phases \<sigma>' i = phases \<sigma> i"
  by (cases a) (auto simp: res_simps Let_def swap_functors_def split: phase.splits list.splits prod.splits)

lemma own_step:
  assumes "do_action cf a \<sigma> = Inr \<sigma>'" "enabled cf a \<sigma>" "of_loop i a" "phases \<sigma> i \<noteq> AtPoll"
  shows "(left (phases \<sigma>' i), left (phases \<sigma> i)) \<in> less_than <*lex*> less_than"
proof (cases a)
  case (Dispatch j)
  then obtain p ps where ph: "phases \<sigma> i = InEvents [] (p # ps)" "j = i" using assms(2,3) by auto
  then obtain c where "phases \<sigma>' i = InEvents (handleEvent (\<lambda>obj. objs (nw \<sigma>) obj \<noteq> None) c) ps"
    using assms(1) Dispatch by (auto simp: res_simps)
  then show ?thesis using ph handleEvent_length [of "\<lambda>obj. objs (nw \<sigma>) obj \<noteq> None" c] by simp
qed (use assms in \<open>auto simp: res_simps Let_def swap_functors_def\<close>)

text \<open>Whatever the kernel answers, a loop inside its round has a next step.\<close>

definition all_fail :: "results \<Rightarrow> results" where
  "all_fail rs = rs\<lparr>rs_read := Inl EAGAIN, rs_write := Inl EAGAIN, rs_accept := Inl EAGAIN\<rparr>"

lemma all_fail_ok: "results_ok cf (all_fail rs) cb s"
  by (cases cb) (simp_all add: results_ok_def all_fail_def write_bound_def split: option.split)

lemma next_step: "phases \<sigma> i \<noteq> AtPoll \<Longrightarrow> \<exists>a. of_loop i a \<and> enabled cf a \<sigma>"
proof (cases "phases \<sigma> i")
  case (InEvents cbs ps)
  show ?thesis
  proof (cases cbs)
    case (Cons cb cbs')
    then have "enabled cf (Call i (all_fail undefined)) \<sigma>" using InEvents all_fail_ok by simp
    then show ?thesis using of_loop.simps(3) by blast
  next
    case Nil
    then have "enabled cf (if ps = [] then Swap i else Dispatch i) \<sigma>" using InEvents by (cases ps) simp_all
    moreover have "of_loop i (if ps = [] then Swap i else Dispatch i)" by simp
    ultimately show ?thesis by blast
  qed
next
  case (InFunctors fs)
  then have "enabled cf (if fs = [] then Finish i else RunFunctor i undefined) \<sigma>" by (cases fs) simp_all
  moreover have "of_loop i (if fs = [] then Finish i else RunFunctor i undefined)" by simp
  ultimately show ?thesis by blast
qed simp

text \<open>
  A loop that runs alone takes the step its phase asks for until it is back at \<open>epoll_wait\<close>.  The
  results of a callback are given by callback, those of a functor by its position \<open>k\<close> in the list
  that was swapped out.
\<close>

fun next_action :: "(chan_cb \<Rightarrow> results) \<Rightarrow> (nat \<Rightarrow> results) \<Rightarrow> nat \<Rightarrow> nat \<Rightarrow> phase \<Rightarrow> action option" where
  "next_action rsc rsf i k AtPoll = None"
| "next_action rsc rsf i k (InEvents (cb # cbs) ps) = Some (Call i (rsc cb))"
| "next_action rsc rsf i k (InEvents [] (p # ps)) = Some (Dispatch i)"
| "next_action rsc rsf i k (InEvents [] []) = Some (Swap i)"
| "next_action rsc rsf i k (InFunctors (f # fs)) = Some (RunFunctor i (rsf k))"
| "next_action rsc rsf i k (InFunctors []) = Some (Finish i)"

fun position :: "phase \<Rightarrow> nat \<Rightarrow> nat" where
  "position (InFunctors (f # fs)) k = Suc k"
| "position ph k = k"

inductive alone :: "config \<Rightarrow> (chan_cb \<Rightarrow> results) \<Rightarrow> (nat \<Rightarrow> results) \<Rightarrow> nat \<Rightarrow> nat \<Rightarrow> net_sys \<Rightarrow> net_sys result \<Rightarrow> bool"
  for cf rsc rsf i where
  back_at_poll: "next_action rsc rsf i k (phases \<sigma> i) = None \<Longrightarrow> alone cf rsc rsf i k \<sigma> (Inr \<sigma>)"
| fault: "next_action rsc rsf i k (phases \<sigma> i) = Some a \<Longrightarrow> do_action cf a \<sigma> = Inl e \<Longrightarrow> alone cf rsc rsf i k \<sigma> (Inl e)"
| go_on: "next_action rsc rsf i k (phases \<sigma> i) = Some a \<Longrightarrow> do_action cf a \<sigma> = Inr \<sigma>' \<Longrightarrow>
    alone cf rsc rsf i (position (phases \<sigma> i) k) \<sigma>' r \<Longrightarrow> alone cf rsc rsf i k \<sigma> r"

text \<open>One step of such a run, whether it faults or not.\<close>

lemma alone_bind:
  assumes "next_action rsc rsf i k (phases \<sigma> i) = Some a" "do_action cf a \<sigma> = res_bind m (\<lambda>s. Inr (g s))"
    and "\<And>s. m = Inr s \<Longrightarrow> alone cf rsc rsf i (position (phases \<sigma> i) k) (g s) (f s)"
  shows "alone cf rsc rsf i k \<sigma> (res_bind m f)"
proof (cases m)
  case (Inl e)
  then show ?thesis using alone.fault [OF assms(1)] assms(2) by simp
next
  case (Inr s)
  then show ?thesis using alone.go_on [OF assms(1) _ assms(3) [OF Inr]] assms(2) by simp
qed

lemma alone_functors:
  assumes "phases \<sigma> i = InFunctors fs"
  shows "alone cf rsc rsf i k \<sigma>
     (res_bind (run_all (\<lambda>(k, f). run_functor cf (rsf k) (thread_of \<sigma> i) i f) (enumerate k fs) (nw \<sigma>))
       (\<lambda>s. res_bind (deref_loop s i) (\<lambda>l. Inr (goto i AtPoll \<sigma> (put_loop i (l\<lparr>m_calling_pending_functors := False\<rparr>) s)))))"
  using assms
proof (induction fs arbitrary: \<sigma> k)
  case Nil
  then have "alone cf rsc rsf i k \<sigma> (res_bind (deref_loop (nw \<sigma>) i)
      (\<lambda>l. Inr (goto i AtPoll \<sigma> (put_loop i (l\<lparr>m_calling_pending_functors := False\<rparr>) (nw \<sigma>)))))"
    by (intro alone_bind [where a = "Finish i" and g = "\<lambda>l. goto i AtPoll \<sigma> (put_loop i (l\<lparr>m_calling_pending_functors := False\<rparr>) (nw \<sigma>))"])
      (simp_all add: alone.back_at_poll)
  then show ?case by simp
next
  case (Cons f fs)
  let ?m = "run_functor cf (rsf k) (thread_of \<sigma> i) i f (nw \<sigma>)" and ?g = "\<lambda>s. goto i (InFunctors fs) \<sigma> s"
  have "alone cf rsc rsf i k \<sigma> (res_bind ?m (\<lambda>s.
     res_bind (run_all (\<lambda>(k, f). run_functor cf (rsf k) (thread_of \<sigma> i) i f) (enumerate (Suc k) fs) s)
       (\<lambda>s. res_bind (deref_loop s i) (\<lambda>l. Inr (goto i AtPoll \<sigma> (put_loop i (l\<lparr>m_calling_pending_functors := False\<rparr>) s))))))"
  proof (rule alone_bind [where a = "RunFunctor i (rsf k)" and g = ?g])
    fix s
    show "alone cf rsc rsf i (position (phases \<sigma> i) k) (?g s)
       (res_bind (run_all (\<lambda>(k, f). run_functor cf (rsf k) (thread_of \<sigma> i) i f) (enumerate (Suc k) fs) s)
         (\<lambda>s. res_bind (deref_loop s i) (\<lambda>l. Inr (goto i AtPoll \<sigma> (put_loop i (l\<lparr>m_calling_pending_functors := False\<rparr>) s)))))"
      using Cons.IH [of "?g s" "Suc k"] Cons.prems by simp
  qed (use Cons.prems in simp_all)
  then show ?case by (cases ?m) simp_all
qed

lemma alone_swap:
  assumes "phases \<sigma> i = InEvents [] []"
  shows "alone cf rsc rsf i 0 \<sigma> (res_bind (world_doPendingFunctors cf rsf (thread_of \<sigma> i) i (nw \<sigma>)) (\<lambda>s. Inr (goto i AtPoll \<sigma> s)))"
proof -
  let ?l2 = "\<lambda>l :: timer_cb Timer net_loop. l\<lparr>m_calling_pending_functors := True, m_pending_functors := []\<rparr>"
  let ?g = "\<lambda>l. goto i (InFunctors (m_pending_functors l)) \<sigma> (put_loop i (?l2 l) (nw \<sigma>))"
  let ?f = "\<lambda>l. res_bind (run_all (\<lambda>(k, f). run_functor cf (rsf k) (thread_of \<sigma> i) i f) (enumerate 0 (m_pending_functors l)) (put_loop i (?l2 l) (nw \<sigma>)))
       (\<lambda>s. res_bind (deref_loop s i) (\<lambda>l. Inr (goto i AtPoll \<sigma> (put_loop i (l\<lparr>m_calling_pending_functors := False\<rparr>) s))))"
  have "alone cf rsc rsf i 0 \<sigma> (res_bind (deref_loop (nw \<sigma>) i) ?f)"
  proof (rule alone_bind [where a = "Swap i" and g = ?g])
    show "alone cf rsc rsf i (position (phases \<sigma> i) 0) (?g l) (?f l)" for l
      using alone_functors [of "?g l" i "m_pending_functors l" cf rsc rsf 0] assms by simp
  qed (use assms in \<open>simp_all add: swap_functors_def Let_def\<close>)
  moreover have "res_bind (world_doPendingFunctors cf rsf (thread_of \<sigma> i) i (nw \<sigma>)) (\<lambda>s. Inr (goto i AtPoll \<sigma> s)) = res_bind (deref_loop (nw \<sigma>) i) ?f"
    by (simp add: world_doPendingFunctors_def swap_functors_def Let_def res_bind_assoc)
  ultimately show ?thesis by simp
qed

lemma alone_calls:
  assumes "phases \<sigma> i = InEvents cbs ps"
    and "\<And>s. alone cf rsc rsf i 0 (goto i (InEvents [] ps) \<sigma> s) (f s)"
  shows "alone cf rsc rsf i 0 \<sigma> (res_bind (run_all (\<lambda>cb. run_callback cf (rsc cb) (thread_of \<sigma> i) i cb) cbs (nw \<sigma>)) f)"
  using assms
proof (induction cbs arbitrary: \<sigma>)
  case Nil
  have "goto i (InEvents [] ps) \<sigma> (nw \<sigma>) = \<sigma>" using Nil(1) by (simp add: goto_def fun_upd_idem)
  then show ?case using Nil(2) [of "nw \<sigma>"] by simp
next
  case (Cons cb cbs)
  let ?m = "run_callback cf (rsc cb) (thread_of \<sigma> i) i cb (nw \<sigma>)"
  have "alone cf rsc rsf i 0 \<sigma> (res_bind ?m (\<lambda>s. res_bind (run_all (\<lambda>cb. run_callback cf (rsc cb) (thread_of \<sigma> i) i cb) cbs s) f))"
  proof (rule alone_bind [where a = "Call i (rsc cb)" and g = "goto i (InEvents cbs ps) \<sigma>"])
    fix s
    have "alone cf rsc rsf i 0 (goto i (InEvents [] ps) (goto i (InEvents cbs ps) \<sigma> s) s') (f s')" for s' using Cons.prems(2) by simp
    from Cons.IH [OF _ this] show "alone cf rsc rsf i (position (phases \<sigma> i) 0) (goto i (InEvents cbs ps) \<sigma> s)
        (res_bind (run_all (\<lambda>cb. run_callback cf (rsc cb) (thread_of \<sigma> i) i cb) cbs s) f)"
      using Cons.prems(1) by simp
  qed (use Cons.prems(1) in simp_all)
  then show ?case by (cases ?m) simp_all
qed

lemma alone_events:
  assumes "phases \<sigma> i = InEvents [] ps"
  shows "alone cf rsc rsf i 0 \<sigma> (res_bind (run_all (world_handle_channel cf rsc (thread_of \<sigma> i) i) ps (nw \<sigma>))
     (\<lambda>s. res_bind (world_doPendingFunctors cf rsf (thread_of \<sigma> i) i s) (\<lambda>s. Inr (goto i AtPoll \<sigma> s))))"
  using assms
proof (induction ps arbitrary: \<sigma>)
  case Nil
  then show ?case using alone_swap by simp
next
  case (Cons p ps)
  let ?rest = "\<lambda>s. res_bind (run_all (world_handle_channel cf rsc (thread_of \<sigma> i) i) ps s)
     (\<lambda>s. res_bind (world_doPendingFunctors cf rsf (thread_of \<sigma> i) i s) (\<lambda>s. Inr (goto i AtPoll \<sigma> s)))"
  let ?h = "handleEvent (\<lambda>obj. objs (nw \<sigma>) obj \<noteq> None)"
  let ?m = "res_bind (deref_loop (nw \<sigma>) i) (\<lambda>l. deref (m_epoller l) p)"
  have "alone cf rsc rsf i 0 \<sigma> (res_bind ?m (\<lambda>c.
      res_bind (run_all (\<lambda>cb. run_callback cf (rsc cb) (thread_of \<sigma> i) i cb) (?h c) (nw \<sigma>)) ?rest))"
  proof (rule alone_bind [where a = "Dispatch i" and g = "\<lambda>c. goto i (InEvents (?h c) ps) \<sigma> (nw \<sigma>)"])
    fix c
    have "alone cf rsc rsf i 0 (goto i (InEvents [] ps) (goto i (InEvents (?h c) ps) \<sigma> (nw \<sigma>)) s) (?rest s)" for s
      using Cons.IH [of "goto i (InEvents [] ps) \<sigma> s"] by simp
    from alone_calls [OF _ this] show "alone cf rsc rsf i (position (phases \<sigma> i) 0) (goto i (InEvents (?h c) ps) \<sigma> (nw \<sigma>))
        (res_bind (run_all (\<lambda>cb. run_callback cf (rsc cb) (thread_of \<sigma> i) i cb) (?h c) (nw \<sigma>)) ?rest)"
      using Cons.prems by simp
  qed (use Cons.prems in \<open>simp_all add: res_bind_assoc\<close>)
  moreover have "world_handle_channel cf rsc (thread_of \<sigma> i) i p (nw \<sigma>) =
      res_bind ?m (\<lambda>c. run_all (\<lambda>cb. run_callback cf (rsc cb) (thread_of \<sigma> i) i cb) (?h c) (nw \<sigma>))"
    by (simp add: world_handle_channel_def res_bind_assoc)
  ultimately show ?case by (simp add: res_bind_assoc)
qed

section \<open>Properties\<close>


end
