(* ===== verification/LogStreams.thy ===== *)
theory LogStreams
  imports Timestamps
begin

text \<open>
  The log line buffer and its formatting, \<open>Logging/logstream.h\<close>.  A \<open>FixedBuffer\<close> is its
  character array and the write position; a write outside the array is \<open>OutOfBounds\<close>.  The
  cookie, a function pointer that is stored and never called, is left out.  The conversions of
  \<open>snprintf\<close> for \<open>%.12g\<close> and \<open>%p\<close> are arguments.
\<close>

section \<open>Fixed buffers\<close>

definition kSmallBuffer :: int where "kSmallBuffer = 4096"
definition kLargeBuffer :: int where "kLargeBuffer = 4096 * 1000"
definition kMaxNumericSize :: int where "kMaxNumericSize = 48"

definition digits :: string where "digits = ''9876543210123456789''"

record FixedBuffer =
  m_data :: "char list"
  m_cur :: int

definition FixedBuffer_new :: "int \<Rightarrow> FixedBuffer" where
  "FixedBuffer_new sz = \<lparr>m_data = replicate (nat sz) (CHR 0x00), m_cur = 0\<rparr>"

definition fb_toString :: "FixedBuffer \<Rightarrow> string" where
  "fb_toString b = take (nat (m_cur b)) (m_data b)"

definition setZero :: "FixedBuffer \<Rightarrow> FixedBuffer" where
  "setZero b = b\<lparr>m_data := replicate (length (m_data b)) (CHR 0x00), m_cur := 0\<rparr>"

definition fb_reset :: "FixedBuffer \<Rightarrow> FixedBuffer" where
  "fb_reset b = b\<lparr>m_cur := 0\<rparr>"

definition fb_len :: "FixedBuffer \<Rightarrow> int" where
  "fb_len b = m_cur b"

definition avail :: "FixedBuffer \<Rightarrow> int" where
  "avail b = int (length (m_data b)) - m_cur b"

definition fb_append :: "FixedBuffer \<Rightarrow> char list \<Rightarrow> FixedBuffer" where
  "fb_append b buf =
     (if avail b > int (length buf)
      then b\<lparr>m_data := overwrite (m_data b) (m_cur b) buf, m_cur := m_cur b + int (length buf)\<rparr>
      else b)"

definition fb_add :: "FixedBuffer \<Rightarrow> int \<Rightarrow> FixedBuffer" where
  "fb_add b n = b\<lparr>m_cur := m_cur b + n\<rparr>"

text \<open>Characters stored through a pointer to the write position.\<close>

definition store :: "FixedBuffer \<Rightarrow> char list \<Rightarrow> FixedBuffer result" where
  "store b cs =
     (if 0 \<le> m_cur b \<and> m_cur b + int (length cs) \<le> int (length (m_data b))
      then Inr (b\<lparr>m_data := overwrite (m_data b) (m_cur b) cs\<rparr>) else Inl OutOfBounds)"

section \<open>Formatting\<close>

text \<open>
  The digit loop of \<open>formatInteger\<close> on the value of the integer, whatever its type; the
  remainder of a negative number is negative and indexes the table to the left of its zero.
\<close>

definition zero_at :: "int \<Rightarrow> char" where
  "zero_at remainder = digits ! nat (9 + remainder)"

lemma div_trunc_less: "div_trunc n 10 \<noteq> 0 \<Longrightarrow> nat \<bar>div_trunc n 10\<bar> < nat \<bar>n\<bar>"
  by (cases "0 \<le> n") (auto simp: div_trunc_neg)

function format_digits :: "int \<Rightarrow> string" where
  "format_digits num =
     zero_at (mod_trunc num 10) #
       (if div_trunc num 10 \<noteq> 0 then format_digits (div_trunc num 10) else [])"
  by pat_completeness auto
termination
proof (relation "measure (\<lambda>n. nat \<bar>n\<bar>)")
  show "(div_trunc num 10, num) \<in> measure (\<lambda>n. nat \<bar>n\<bar>)" if "div_trunc num 10 \<noteq> 0" for num
    using div_trunc_less [OF that] by simp
qed simp

declare format_digits.simps [simp del]

definition formatInteger :: "FixedBuffer \<Rightarrow> int \<Rightarrow> FixedBuffer result" where
  "formatInteger b num =
     (if avail b \<ge> kMaxNumericSize then
        let cs = format_digits num @ (if num < 0 then ''-'' else []) in
        res_bind (store b (rev cs @ [CHR 0x00])) (\<lambda>b1. Inr (fb_add b1 (int (length cs))))
      else Inr b)"

text \<open>
  The overloads of \<open>operator<<\<close>.  There is none for \<open>char\<close>: a character is promoted to
  \<open>int\<close> and written as a number.
\<close>

definition put_bool :: "FixedBuffer \<Rightarrow> bool \<Rightarrow> FixedBuffer result" where
  "put_bool b v = Inr (fb_append b (if v then ''1'' else ''0''))"

definition put_int :: "FixedBuffer \<Rightarrow> int \<Rightarrow> FixedBuffer result" where
  "put_int b num = formatInteger b num"

definition put_char :: "FixedBuffer \<Rightarrow> char \<Rightarrow> FixedBuffer result" where
  "put_char b c =
     put_int b (if int (of_char c) < 128 then int (of_char c) else int (of_char c) - 256)"

definition put_double :: "('d \<Rightarrow> string) \<Rightarrow> FixedBuffer \<Rightarrow> 'd \<Rightarrow> FixedBuffer result" where
  "put_double fmt_g b num =
     (if avail b \<ge> kMaxNumericSize then
        res_bind (store b (take 47 (fmt_g num) @ [CHR 0x00])) (\<lambda>b1. Inr (fb_add b1 (int (length (fmt_g num)))))
      else Inr b)"

definition put_cstr :: "FixedBuffer \<Rightarrow> string option \<Rightarrow> FixedBuffer result" where
  "put_cstr b str =
     (case str of Some s \<Rightarrow> Inr (fb_append b s) | None \<Rightarrow> Inr (fb_append b ''(null)''))"

definition put_string :: "FixedBuffer \<Rightarrow> string \<Rightarrow> FixedBuffer result" where
  "put_string b str = Inr (fb_append b str)"

definition put_pointer :: "(int \<Rightarrow> string) \<Rightarrow> FixedBuffer \<Rightarrow> int \<Rightarrow> FixedBuffer result" where
  "put_pointer fmt_p b num =
     (if avail b \<ge> kMaxNumericSize then
        res_bind (store b (''0x'' @ take 45 (fmt_p num) @ [CHR 0x00]))
          (\<lambda>b1. Inr (fb_add b1 (int (length (fmt_p num)) + 2)))
      else Inr b)"

section \<open>Appending\<close>

definition fb_inv :: "FixedBuffer \<Rightarrow> bool" where
  "fb_inv b \<longleftrightarrow> 0 \<le> m_cur b \<and> m_cur b \<le> int (length (m_data b))"

text \<open>A buffer of bounded size: an append that leaves no room is dropped as a whole.\<close>

locale bounded_log =
  fixes inv :: "'b \<Rightarrow> bool"
    and content :: "'b \<Rightarrow> char list"
    and room :: "'b \<Rightarrow> int"
    and put :: "'b \<Rightarrow> char list \<Rightarrow> 'b"
  assumes put_fits: "inv b \<Longrightarrow> int (length d) < room b \<Longrightarrow>
      inv (put b d) \<and> content (put b d) = content b @ d \<and> room (put b d) = room b - int (length d)"
    and put_full: "inv b \<Longrightarrow> room b \<le> int (length d) \<Longrightarrow> put b d = b"
begin

lemma put_seq:
  "inv b \<Longrightarrow> int (length (concat ds)) < room b \<Longrightarrow>
   inv (foldl put b ds) \<and> content (foldl put b ds) = content b @ concat ds \<and>
   room (foldl put b ds) = room b - int (length (concat ds))"
proof (induction ds arbitrary: b)
  case (Cons d ds)
  then show ?case using put_fits [OF Cons.prems(1), of d] by simp
qed simp

lemma put_inv: "inv b \<Longrightarrow> inv (put b d)"
  using put_fits [of b d] put_full [of b d] by (cases "int (length d) < room b") auto

end

lemma overwrite_prefix:
  assumes "0 \<le> i" "i + int (length ys) \<le> int (length xs)"
  shows "take (nat (i + int (length ys))) (overwrite xs i ys) = take (nat i) xs @ ys"
  using assms by (cases ys) (simp_all add: overwrite_def nat_add_distrib min_def nat_le_iff)

interpretation fb: bounded_log fb_inv fb_toString avail fb_append
proof
  fix b d
  assume b: "fb_inv b"
  show "fb_inv (fb_append b d) \<and> fb_toString (fb_append b d) = fb_toString b @ d \<and>
      avail (fb_append b d) = avail b - int (length d)" if "int (length d) < avail b"
    using b that overwrite_prefix [of "m_cur b" d "m_data b"]
    by (auto simp: fb_append_def avail_def fb_inv_def fb_toString_def length_overwrite)
  show "fb_append b d = b" if "avail b \<le> int (length d)" using that by (simp add: fb_append_def)
qed

lemma FixedBuffer_new_facts:
  "0 \<le> n \<Longrightarrow> fb_inv (FixedBuffer_new n) \<and> fb_toString (FixedBuffer_new n) = [] \<and> avail (FixedBuffer_new n) = n"
  by (simp add: FixedBuffer_new_def fb_inv_def fb_toString_def avail_def)

lemma fb_reset_facts:
  "fb_inv (fb_reset b) \<and> fb_toString (fb_reset b) = [] \<and> avail (fb_reset b) = int (length (m_data b))"
  by (simp add: fb_reset_def fb_inv_def fb_toString_def avail_def)

section \<open>Integers\<close>

lemma zero_at_digit: "\<bar>r\<bar> < 10 \<Longrightarrow> zero_at r = digit_char (nat \<bar>r\<bar>)"
proof -
  assume "\<bar>r\<bar> < 10"
  then have "r \<in> {-9, -8, -7, -6, -5, -4, -3, -2, -1, 0, 1, 2, 3, 4, 5, 6, 7, 8, 9}"
    unfolding insert_iff empty_iff by arith
  then show ?thesis by (auto simp: zero_at_def digits_def digit_char_def char_of_def bit_0)
qed

lemma mod_trunc_ten: "nat \<bar>mod_trunc n 10\<bar> = nat \<bar>n\<bar> mod 10"
proof (cases "0 \<le> n")
  case True
  then show ?thesis by (simp add: nat_mod_distrib)
next
  case False
  then show ?thesis by (simp add: mod_trunc_neg nat_mod_distrib [symmetric] nat_mod_distrib)
qed

lemma div_trunc_ten: "nat \<bar>div_trunc n 10\<bar> = nat \<bar>n\<bar> div 10"
proof (cases "0 \<le> n")
  case True
  then show ?thesis by (simp add: nat_div_distrib abs_if)
next
  case False
  then show ?thesis by (simp add: div_trunc_neg nat_div_distrib)
qed

lemma format_digits_dec: "rev (format_digits n) = nat_dec (nat \<bar>n\<bar>)"
proof (induction n rule: format_digits.induct)
  case (1 n)
  have digit: "zero_at (mod_trunc n 10) = digit_char (nat \<bar>n\<bar> mod 10)"
    using zero_at_digit [of "mod_trunc n 10"] mod_trunc_ten [of n] by (simp add: nat_less_iff [symmetric])
  have more: "div_trunc n 10 \<noteq> 0 \<longleftrightarrow> \<not> nat \<bar>n\<bar> < 10"
    using div_trunc_ten [of n] by (metis div_eq_0_iff nat_0_iff abs_le_zero_iff zero_neq_numeral)
  show ?case
  proof (cases "nat \<bar>n\<bar> < 10")
    case True
    then show ?thesis using digit more by (simp add: format_digits.simps [of n] nat_dec.simps [of "nat \<bar>n\<bar>"])
  next
    case False
    then have "div_trunc n 10 \<noteq> 0" using more by simp
    then show ?thesis
      using 1 digit False div_trunc_ten [of n]
      by (simp add: format_digits.simps [of n] nat_dec.simps [of "nat \<bar>n\<bar>"])
  qed
qed

lemma format_int_dec: "rev (format_digits n @ (if n < 0 then ''-'' else [])) = int_dec n"
  by (simp add: format_digits_dec int_dec_def)

text \<open>A 64-bit integer has at most 20 digits.\<close>

lemma int_dec_length: "\<bar>n\<bar> < 10 ^ 20 \<Longrightarrow> length (int_dec n) \<le> 21"
  using nat_dec_length [of "nat \<bar>n\<bar>" 19] by (auto simp: int_dec_def nat_less_iff abs_if split: if_splits)

lemma formatInteger_effect:
  assumes "fb_inv b" "\<bar>n\<bar> < 10 ^ 20" "kMaxNumericSize \<le> avail b"
  shows "\<exists>b'. formatInteger b n = Inr b' \<and> fb_inv b' \<and> fb_toString b' = fb_toString b @ int_dec n \<and>
     avail b' = avail b - int (length (int_dec n))"
proof -
  let ?cs = "format_digits n @ (if n < 0 then ''-'' else [])"
  have cs: "rev ?cs = int_dec n" by (rule format_int_dec)
  then have len: "length ?cs = length (int_dec n)" by (metis length_rev)
  have fits: "m_cur b + int (length (int_dec n @ [CHR 0x00])) \<le> int (length (m_data b))" "0 \<le> m_cur b"
    using int_dec_length [OF assms(2)] assms(1,3) by (simp_all add: avail_def kMaxNumericSize_def fb_inv_def)
  let ?b = "b\<lparr>m_data := overwrite (m_data b) (m_cur b) (int_dec n @ [CHR 0x00])\<rparr>"
  have "formatInteger b n = Inr (fb_add ?b (int (length (int_dec n))))"
    using assms(3) fits by (simp only: formatInteger_def Let_def cs len store_def if_True res_bind_Inr simp_thms)
  moreover have "take (nat (m_cur b + int (length (int_dec n))))
      (overwrite (m_data b) (m_cur b) (int_dec n @ [CHR 0x00])) = fb_toString b @ int_dec n"
    using fits by (simp add: overwrite_def fb_toString_def nat_add_distrib nat_le_iff min_def)
  moreover have "length (overwrite (m_data b) (m_cur b) (int_dec n @ [CHR 0x00])) = length (m_data b)"
    using fits by (intro length_overwrite) simp_all
  ultimately show ?thesis using fits assms(1)
    by (auto simp: fb_add_def fb_inv_def fb_toString_def avail_def)
qed

section \<open>Property\<close>

text \<open>C34: \<open>formatInteger\<close> is \<open>std::to_string\<close> for every 64-bit integer, signed or
  unsigned, the most negative one included: where at least 48 characters are free it appends the
  decimal representation and stays inside the array with its terminator; where fewer are
  free it leaves the buffer as it is.\<close>

theorem format_integer:
  assumes "fb_inv b" "- (2 ^ 63) \<le> n" "n < 2 ^ 64"
  shows "\<exists>b'. formatInteger b n = Inr b' \<and> fb_inv b' \<and>
     fb_toString b' = fb_toString b @ (if kMaxNumericSize \<le> avail b then int_dec n else [])"
proof -
  have n: "\<bar>n\<bar> < 10 ^ 20" using assms(2,3) by (simp add: abs_if)
  show ?thesis
  proof (cases "kMaxNumericSize \<le> avail b")
    case True
    then show ?thesis using formatInteger_effect [OF assms(1) n] by auto
  next
    case False
    then show ?thesis using assms(1) by (simp add: formatInteger_def)
  qed
qed

theorem format_integer_witness:
  "\<exists>b'. formatInteger (FixedBuffer_new kSmallBuffer) (- (2 ^ 63)) = Inr b' \<and>
     fb_toString b' = ''-9223372036854775808''"
proof -
  have "int_dec (- 9223372036854775808) = ''-9223372036854775808''"
    by (simp add: int_dec_def nat_dec.simps digit_char_def char_of_def bit_0)
  then show ?thesis
    using format_integer [of "FixedBuffer_new kSmallBuffer" "- (2 ^ 63)"]
    by (auto simp: FixedBuffer_new_facts kSmallBuffer_def kMaxNumericSize_def)
qed

end
