(* ===== verification/Loggers.thy ===== *)
theory Loggers
  imports LogStreams
begin

text \<open>
  The logger front end, \<open>Logging/logging.h\<close> and \<open>Logging/logging.cpp\<close>: one log line is
  composed in the constructor, by the stream operators and in the destructor of a temporary,
  which hands it to the output function.  The hash of the thread identifier, the clock readings
  and \<open>strerror\<close> are arguments.
\<close>

section \<open>Levels and source files\<close>

datatype LogLevel = DEBUG | INFO | WARN | ERROR

fun level_num :: "LogLevel \<Rightarrow> nat" where
  "level_num DEBUG = 0" | "level_num INFO = 1" | "level_num WARN = 2" | "level_num ERROR = 3"

instantiation LogLevel :: linorder
begin

definition less_eq_LogLevel :: "LogLevel \<Rightarrow> LogLevel \<Rightarrow> bool" where
  "less_eq_LogLevel a b \<longleftrightarrow> level_num a \<le> level_num b"

definition less_LogLevel :: "LogLevel \<Rightarrow> LogLevel \<Rightarrow> bool" where
  "less_LogLevel a b \<longleftrightarrow> level_num a < level_num b"

instance
proof
  fix x y z :: LogLevel
  show "x < y \<longleftrightarrow> x \<le> y \<and> \<not> y \<le> x" by (auto simp: less_eq_LogLevel_def less_LogLevel_def)
  show "x \<le> x" by (simp add: less_eq_LogLevel_def)
  show "x \<le> z" if "x \<le> y" "y \<le> z" using that by (simp add: less_eq_LogLevel_def)
  show "x = y" if "x \<le> y" "y \<le> x"
    using that by (cases x; cases y) (simp_all add: less_eq_LogLevel_def)
  show "x \<le> y \<or> y \<le> x" by (auto simp: less_eq_LogLevel_def)
qed

end

text \<open>\<open>strrchr\<close> and the constructor of \<open>SourceFile\<close>.\<close>

fun strrchr :: "string \<Rightarrow> char \<Rightarrow> nat option" where
  "strrchr [] c = None"
| "strrchr (x # xs) c =
     (case strrchr xs c of Some i \<Rightarrow> Some (i + 1) | None \<Rightarrow> if x = c then Some 0 else None)"

record SourceFile =
  sf_data :: string
  sf_size :: int

definition SourceFile_new :: "string \<Rightarrow> SourceFile" where
  "SourceFile_new filename =
     (let d = (case strrchr filename CHR ''/'' of Some slash \<Rightarrow> drop (slash + 1) filename | None \<Rightarrow> filename)
      in \<lparr>sf_data = d, sf_size = int (length d)\<rparr>)"

text \<open>The macros: a debug or info statement is skipped below the global level.\<close>

definition log_enabled :: "LogLevel \<Rightarrow> LogLevel \<Rightarrow> bool" where
  "log_enabled g_logLevel l = (case l of DEBUG \<Rightarrow> g_logLevel \<le> DEBUG | INFO \<Rightarrow> g_logLevel \<le> INFO | _ \<Rightarrow> True)"

definition ErrorToString :: "(int \<Rightarrow> string) \<Rightarrow> int \<Rightarrow> string" where
  "ErrorToString strerror err = strerror err"

section \<open>One log line\<close>

record Impl =
  m_stream :: FixedBuffer
  m_level :: LogLevel
  m_line :: int
  m_tid :: nat
  m_lastSecond :: int
  m_basename :: SourceFile

fun getLogLevel :: "LogLevel \<Rightarrow> string" where
  "getLogLevel DEBUG = ''DEBUG''"
| "getLogLevel INFO = ''INFO''"
| "getLogLevel WARN = ''WARN''"
| "getLogLevel ERROR = ''ERROR''"

text \<open>A chain of \<open>operator<<\<close> on the stream.\<close>

datatype log_item = LStr string | LInt int | LChar char

definition put_item :: "log_item \<Rightarrow> FixedBuffer \<Rightarrow> FixedBuffer result" where
  "put_item it b =
     (case it of LStr s \<Rightarrow> put_string b s | LInt n \<Rightarrow> put_int b n | LChar c \<Rightarrow> put_char b c)"

fun put_items :: "log_item list \<Rightarrow> FixedBuffer \<Rightarrow> FixedBuffer result" where
  "put_items [] b = Inr b"
| "put_items (it # its) b = res_bind (put_item it b) (put_items its)"

definition formatTime :: "Timestamp \<Rightarrow> Impl \<Rightarrow> Impl result" where
  "formatTime now i =
     (let us = microsecondsSinceEpoch now;
          seconds = div_trunc us kMicroSecondsPerSecond;
          microseconds = mod_trunc us kMicroSecondsPerSecond;
          i1 = (if seconds \<noteq> m_lastSecond i then i\<lparr>m_lastSecond := seconds\<rparr> else i)
      in res_bind (put_items [LStr (toDefaultLogString now), LStr ''.'', LInt microseconds, LStr '' '',
                     LStr (nat_dec (m_tid i1)), LStr '' '', LStr (getLogLevel (m_level i1)), LStr '' ''] (m_stream i1))
           (\<lambda>b. Inr (i1\<lparr>m_stream := b\<rparr>)))"

definition Impl_new :: "int \<Rightarrow> Timestamp \<Rightarrow> nat \<Rightarrow> SourceFile \<Rightarrow> int \<Rightarrow> LogLevel \<Rightarrow> Impl result" where
  "Impl_new sys_seconds now tid file line level =
     formatTime now \<lparr>m_stream = FixedBuffer_new kSmallBuffer, m_level = level, m_line = line,
       m_tid = tid, m_lastSecond = sys_seconds, m_basename = file\<rparr>"

text \<open>The separator and the line end are \<open>char\<close> literals.\<close>

definition finish :: "Impl \<Rightarrow> Impl result" where
  "finish i =
     res_bind (put_items [LStr '' - '', LStr (sf_data (m_basename i)), LChar CHR '':'', LInt (m_line i),
                 LChar CHR 0x0A] (m_stream i))
       (\<lambda>b. Inr (i\<lparr>m_stream := b\<rparr>))"

text \<open>The destructor: what \<open>g_output\<close> gets and whether \<open>g_flush\<close> is called.\<close>

definition Impl_destroy :: "Impl \<Rightarrow> (string \<times> bool) result" where
  "Impl_destroy i =
     res_bind (finish i) (\<lambda>i1.
       Inr (take (nat (fb_len (m_stream i1))) (m_data (m_stream i1)), m_level i1 = ERROR))"

text \<open>A whole statement such as \<open>LOG_INFO << a << b\<close>; nothing is output when it is skipped.\<close>

definition log_statement ::
  "LogLevel \<Rightarrow> int \<Rightarrow> Timestamp \<Rightarrow> nat \<Rightarrow> string \<Rightarrow> int \<Rightarrow> LogLevel \<Rightarrow> log_item list \<Rightarrow>
   (string \<times> bool) option result" where
  "log_statement g_logLevel sys_seconds now tid filename line level items =
     (if log_enabled g_logLevel level then
        res_bind (Impl_new sys_seconds now tid (SourceFile_new filename) line level) (\<lambda>i.
          res_bind (put_items items (m_stream i)) (\<lambda>b.
            res_bind (Impl_destroy (i\<lparr>m_stream := b\<rparr>)) (\<lambda>out. Inr (Some out))))
      else Inr None)"

section \<open>Lemmas\<close>

definition char_num :: "char \<Rightarrow> int" where
  "char_num c = (if int (of_char c) < 128 then int (of_char c) else int (of_char c) - 256)"

fun item_text :: "log_item \<Rightarrow> string" where
  "item_text (LStr s) = s"
| "item_text (LInt n) = int_dec n"
| "item_text (LChar c) = int_dec (char_num c)"

fun item_ok :: "log_item \<Rightarrow> bool" where
  "item_ok (LInt n) = (\<bar>n\<bar> < 10 ^ 20)"
| "item_ok _ = True"

definition items_text :: "log_item list \<Rightarrow> string" where
  "items_text its = concat (map item_text its)"

lemma char_num_range: "\<bar>char_num c\<bar> < 10 ^ 20"
proof -
  have "(of_char c :: nat) < 256" by (rule nat_of_char_less_256)
  then show ?thesis unfolding char_num_def by (auto simp: abs_if)
qed

lemma put_item_effect:
  assumes "fb_inv b" "item_ok it" "int (length (item_text it)) + kMaxNumericSize \<le> avail b"
  shows "\<exists>b'. put_item it b = Inr b' \<and> fb_inv b' \<and> fb_toString b' = fb_toString b @ item_text it \<and>
     avail b' = avail b - int (length (item_text it))"
proof (cases it)
  case (LStr s)
  have "int (length s) < avail b" using assms(3) LStr by (simp add: kMaxNumericSize_def)
  then show ?thesis using fb.put_fits [OF assms(1)] LStr by (simp add: put_item_def put_string_def)
next
  case (LInt n)
  then show ?thesis using formatInteger_effect [OF assms(1), of n] assms(2,3)
    by (simp add: put_item_def put_int_def)
next
  case (LChar c)
  then show ?thesis using formatInteger_effect [OF assms(1) char_num_range, of c] assms(3)
    by (simp add: put_item_def put_int_def put_char_def char_num_def)
qed

lemma put_items_effect:
  assumes "fb_inv b" "\<forall>it \<in> set its. item_ok it"
    "int (length (items_text its)) + kMaxNumericSize \<le> avail b"
  shows "\<exists>b'. put_items its b = Inr b' \<and> fb_inv b' \<and> fb_toString b' = fb_toString b @ items_text its \<and>
     avail b' = avail b - int (length (items_text its))"
  using assms
proof (induction its arbitrary: b)
  case (Cons it its)
  then have "int (length (item_text it)) + kMaxNumericSize \<le> avail b"
    by (simp add: items_text_def)
  then obtain b1 where b1: "put_item it b = Inr b1" "fb_inv b1"
    "fb_toString b1 = fb_toString b @ item_text it" "avail b1 = avail b - int (length (item_text it))"
    using put_item_effect [OF Cons.prems(1)] Cons.prems(2) by auto
  then obtain b2 where "put_items its b1 = Inr b2" "fb_inv b2"
    "fb_toString b2 = fb_toString b1 @ items_text its" "avail b2 = avail b1 - int (length (items_text its))"
    using Cons.IH [OF b1(2)] Cons.prems(2,3) by (auto simp: items_text_def)
  then show ?case using b1 by (auto simp: items_text_def)
qed (simp add: items_text_def)

lemma put_items_append: "put_items (xs @ ys) b = res_bind (put_items xs b) (put_items ys)"
proof (induction xs arbitrary: b)
  case (Cons x xs)
  then show ?case by (cases "put_item x b") simp_all
qed simp

section \<open>Lines\<close>

text \<open>What a line is made of before and after the message.\<close>

definition line_head :: "Timestamp \<Rightarrow> nat \<Rightarrow> LogLevel \<Rightarrow> string" where
  "line_head now tid level =
     toDefaultLogString now @ ''.'' @
     int_dec (mod_trunc (microsecondsSinceEpoch now) kMicroSecondsPerSecond) @ '' '' @
     nat_dec tid @ '' '' @ getLogLevel level @ '' ''"

definition line_tail :: "string \<Rightarrow> int \<Rightarrow> string" where
  "line_tail filename line = '' - '' @ sf_data (SourceFile_new filename) @ ''58'' @ int_dec line @ ''10''"

lemma separator_numbers: "int_dec (char_num CHR '':'') = ''58''" "int_dec (char_num CHR 0x0A) = ''10''"
  by (simp_all add: char_num_def int_dec_def nat_dec.simps digit_char_def char_of_def bit_0)

lemma microsecond_range: "\<bar>mod_trunc n kMicroSecondsPerSecond\<bar> < 10 ^ 20"
proof (cases "0 \<le> n")
  case True
  then have "mod_trunc n 1000000 = n mod 1000000" by simp
  moreover have "0 \<le> n mod 1000000" "n mod 1000000 < 1000000" by simp_all
  ultimately show ?thesis by (simp add: kMicroSecondsPerSecond_def)
next
  case False
  then have "mod_trunc n 1000000 = - ((- n) mod 1000000)" by (simp add: mod_trunc_neg)
  moreover have "0 \<le> (- n) mod 1000000" "(- n) mod 1000000 < 1000000" by simp_all
  ultimately show ?thesis by (simp add: kMicroSecondsPerSecond_def)
qed

lemma log_statement_text:
  assumes "log_enabled g level" "\<forall>it \<in> set items. item_ok it" "\<bar>line\<bar> < 10 ^ 20"
    and "length (line_head now tid level @ items_text items @ line_tail filename line) \<le> 4048"
  shows "log_statement g sys now tid filename line level items =
     Inr (Some (line_head now tid level @ items_text items @ line_tail filename line, level = ERROR))"
proof -
  let ?mus = "mod_trunc (microsecondsSinceEpoch now) kMicroSecondsPerSecond"
  let ?head = "[LStr (toDefaultLogString now), LStr ''.'', LInt ?mus, LStr '' '', LStr (nat_dec tid), LStr '' '',
    LStr (getLogLevel level), LStr '' '']"
  let ?tail = "[LStr '' - '', LStr (sf_data (SourceFile_new filename)), LChar CHR '':'', LInt line, LChar CHR 0x0A]"
  have texts: "items_text ?head = line_head now tid level" "items_text ?tail = line_tail filename line"
    by (simp_all add: items_text_def line_head_def line_tail_def separator_numbers)
  have all_text: "items_text (?head @ items @ ?tail) = items_text ?head @ items_text items @ items_text ?tail"
    by (simp add: items_text_def)
  have ok: "\<forall>it \<in> set (?head @ items @ ?tail). item_ok it"
    using assms(2,3) microsecond_range by simp
  have room: "int (length (items_text (?head @ items @ ?tail))) + kMaxNumericSize \<le> avail (FixedBuffer_new kSmallBuffer)"
    using assms(4) unfolding all_text texts by (simp add: FixedBuffer_new_facts kSmallBuffer_def kMaxNumericSize_def)
  obtain b3 where b3: "put_items (?head @ items @ ?tail) (FixedBuffer_new kSmallBuffer) = Inr b3"
    "fb_toString b3 = items_text (?head @ items @ ?tail)"
    using put_items_effect [OF _ ok room] FixedBuffer_new_facts [of kSmallBuffer] by (auto simp: kSmallBuffer_def)
  then obtain b1 b2 where b: "put_items ?head (FixedBuffer_new kSmallBuffer) = Inr b1" "put_items items b1 = Inr b2"
    "put_items ?tail b2 = Inr b3"
    unfolding put_items_append by (auto simp del: put_items.simps simp: res_simps)
  then show ?thesis using assms(1) b3(2) unfolding all_text texts
    by (simp add: log_statement_def Impl_new_def formatTime_def Impl_destroy_def finish_def Let_def
        fb_len_def fb_toString_def del: put_items.simps)
qed

section \<open>Property\<close>

text \<open>What a log statement outputs.  A statement that the level lets through, whose whole line
  stays 48 characters below the 4096 of the stream, hands to the output function the time, the
  microseconds, the thread, the level, the message and the source position, without faults and
  with nothing cut, and flushes exactly for errors.  Since the stream has no operator for
  \<open>char\<close>, the colon before the line number comes out as 58 and the newline as 10.\<close>

theorem log_line_output:
  assumes "log_enabled g level" "\<forall>it \<in> set items. item_ok it" "\<bar>line\<bar> < 10 ^ 20"
    and "length (line_head now tid level @ items_text items @ line_tail filename line) \<le> 4048"
  shows "log_statement g sys now tid filename line level items =
     Inr (Some (line_head now tid level @ items_text items @ line_tail filename line, level = ERROR))"
  using assms by (rule log_statement_text)

theorem log_line_output_witness:
  "log_statement INFO 0 (Timestamp_at 0) 7 ''Net/epoller.cpp'' 113 ERROR [LStr ''failed''] =
     Inr (Some (line_head (Timestamp_at 0) 7 ERROR @ ''failed'' @ '' - epoller.cpp5811310'', True))"
proof -
  have t: "line_tail ''Net/epoller.cpp'' 113 = '' - epoller.cpp5811310''"
    by (simp add: line_tail_def SourceFile_new_def Let_def int_dec_def nat_dec.simps digit_char_def char_of_def bit_0)
  have "length (line_head (Timestamp_at 0) 7 ERROR) = 28"
    by (simp add: line_head_def microsecondsSinceEpoch_def Timestamp_at_def kMicroSecondsPerSecond_def
        int_dec_def nat_dec.simps)
  then show ?thesis
    using log_line_output [of INFO ERROR "[LStr ''failed'']" 113 "Timestamp_at 0" 7 "''Net/epoller.cpp''" 0]
    by (simp add: log_enabled_def items_text_def t)
qed

end
