(* ===== verification/LogFiles.thy ===== *)
theory LogFiles
  imports LogStreams
begin

text \<open>
  The log file, \<open>Logging/logfile.h\<close> and \<open>Logging/logfile.cpp\<close>.  The files opened so far
  are a list of names with what was written to each, the open one last.  Whether \<open>fopen\<close>
  succeeds, the counts \<open>fwrite_unlocked\<close> returns and the clock readings are arguments.
\<close>

section \<open>State and operations\<close>

record LogFile =
  m_fp :: bool
  m_writtenBytes :: int
  m_lastRoll :: Timestamp
  m_lastFlush :: Timestamp
  m_rollSize :: int
  m_flushInterval :: int
  lf_basename :: string
  segments :: "(string \<times> char list) list"
  flushed :: nat

definition getLogFileName :: "nat \<Rightarrow> string \<Rightarrow> Timestamp \<Rightarrow> string" where
  "getLogFileName tid_hash basename now =
     ''./log/'' @ basename @ '' '' @ toDefaultLogString now @ '' '' @ nat_dec tid_hash @ ''.log''"

text \<open>The constructor does not initialise \<open>m_basename\<close>, which is therefore empty.\<close>

definition LogFile_new ::
  "(string \<Rightarrow> bool) \<Rightarrow> nat \<Rightarrow> Timestamp \<Rightarrow> string \<Rightarrow> int \<Rightarrow> int \<Rightarrow> LogFile" where
  "LogFile_new can_open tid_hash now basename rollSize flushInterval =
     (let name = (if can_open basename then basename else getLogFileName tid_hash [] now)
      in \<lparr>m_fp = can_open name, m_writtenBytes = 0, m_lastRoll = Timestamp_default,
          m_lastFlush = Timestamp_default, m_rollSize = rollSize,
          m_flushInterval = flushInterval * kMicroSecondsPerSecond, lf_basename = [],
          segments = [(name, [])], flushed = 0\<rparr>)"

definition lf_flush :: "LogFile \<Rightarrow> LogFile" where
  "lf_flush f = f\<lparr>flushed := flushed f + 1\<rparr>"

definition rollFile :: "(string \<Rightarrow> bool) \<Rightarrow> nat \<Rightarrow> Timestamp \<Rightarrow> LogFile \<Rightarrow> LogFile" where
  "rollFile can_open tid_hash now f =
     (let filename = getLogFileName tid_hash (lf_basename f) now
      in f\<lparr>m_fp := can_open filename, segments := segments f @ [(filename, [])],
           m_writtenBytes := 0, m_lastRoll := now\<rparr>)"

text \<open>
  The loop of \<open>append\<close>: each call of \<open>fwrite_unlocked\<close> takes some of the rest.  A count
  of zero makes the loop try again; \<open>None\<close> is a loop that has not ended when the given calls
  are over.
\<close>

fun write_loop :: "nat list \<Rightarrow> char list \<Rightarrow> char list option" where
  "write_loop counts [] = Some []"
| "write_loop [] (c # cs) = None"
| "write_loop (k # ks) (c # cs) =
     (let n = min k (length (c # cs))
      in map_option (\<lambda>written. take n (c # cs) @ written) (write_loop ks (drop n (c # cs))))"

definition write_open :: "char list \<Rightarrow> LogFile \<Rightarrow> LogFile" where
  "write_open written f =
     (case rev (segments f) of
        [] \<Rightarrow> f
      | (name, old) # rest \<Rightarrow> f\<lparr>segments := rev ((name, old @ written) # rest)\<rparr>)"

definition lf_append ::
  "(string \<Rightarrow> bool) \<Rightarrow> nat \<Rightarrow> nat list \<Rightarrow> Timestamp \<Rightarrow> Timestamp \<Rightarrow> char list \<Rightarrow> LogFile \<Rightarrow>
   LogFile option result" where
  "lf_append can_open tid_hash counts now now_roll data f =
     (if data \<noteq> [] \<and> \<not> m_fp f then Inl OutOfBounds
      else case write_loop counts data of
        None \<Rightarrow> Inr None
      | Some written \<Rightarrow>
          (let f1 = write_open written f;
               f2 = (if data \<noteq> [] then f1\<lparr>m_writtenBytes := m_writtenBytes f1 + int (length data)\<rparr> else f1)
           in if timeDifference now (m_lastFlush f2) > m_flushInterval f2
              then Inr (Some ((lf_flush f2)\<lparr>m_lastFlush := now\<rparr>))
              else if m_writtenBytes f2 > m_rollSize f2 then Inr (Some (rollFile can_open tid_hash now_roll f2))
              else Inr (Some f2)))"

section \<open>Lemmas\<close>

definition logged_bytes :: "LogFile \<Rightarrow> char list" where
  "logged_bytes f = concat (map snd (segments f))"



lemma write_loop_ends:
  "length data \<le> length (filter (\<lambda>k. k > 0) counts) \<Longrightarrow> write_loop counts data = Some data"
proof (induction counts data rule: write_loop.induct)
  case (3 k ks c cs)
  let ?n = "min k (length (c # cs))"
  have "length (drop ?n (c # cs)) \<le> length (filter (\<lambda>k. k > 0) ks)"
    using "3.prems" by (cases "k > 0") auto
  then have "write_loop ks (drop ?n (c # cs)) = Some (drop ?n (c # cs))" by (rule "3.IH" [OF refl])
  then have "write_loop (k # ks) (c # cs) = Some (take ?n (c # cs) @ drop ?n (c # cs))"
    unfolding write_loop.simps Let_def by (simp only: option.map)
  then show ?case by (simp only: append_take_drop_id)
qed simp_all

lemma write_open_bytes:
  assumes "segments f \<noteq> []"
  shows "logged_bytes (write_open w f) = logged_bytes f @ w" "segments (write_open w f) \<noteq> []"
    "m_fp (write_open w f) = m_fp f" "m_writtenBytes (write_open w f) = m_writtenBytes f"
    "map fst (segments (write_open w f)) = map fst (segments f)"
    "m_rollSize (write_open w f) = m_rollSize f"
proof -
  obtain xs n old where s: "segments f = xs @ [(n, old)]"
    using assms by (metis append_butlast_last_id surj_pair)
  then show "logged_bytes (write_open w f) = logged_bytes f @ w" "segments (write_open w f) \<noteq> []"
    "m_fp (write_open w f) = m_fp f" "m_writtenBytes (write_open w f) = m_writtenBytes f"
    "map fst (segments (write_open w f)) = map fst (segments f)"
    "m_rollSize (write_open w f) = m_rollSize f"
    by (simp_all add: write_open_def logged_bytes_def)
qed

section \<open>Property\<close>

text \<open>Appending to the log file.  When the file is open and \<open>fwrite\<close> makes progress often
  enough, the loop ends, exactly the given bytes follow what was logged before, across any
  roll to a new file, and a roll starts a new file whose count is zero exactly when the
  flush interval has not passed and the count of bytes, this append included, is over the
  roll size.\<close>

theorem log_append:
  assumes "segments f \<noteq> []" "m_fp f" "data \<noteq> []"
    and "length data \<le> length (filter (\<lambda>k. k > 0) counts)"
  shows "\<exists>f'. lf_append can_open tid_hash counts now now_roll data f = Inr (Some f') \<and>
     logged_bytes f' = logged_bytes f @ data \<and> segments f' \<noteq> [] \<and>
     (if timeDifference now (m_lastFlush f) \<le> m_flushInterval f \<and>
         m_rollSize f < m_writtenBytes f + int (length data)
      then map fst (segments f') = map fst (segments f) @ [getLogFileName tid_hash (lf_basename f) now_roll] \<and>
        m_writtenBytes f' = 0
      else map fst (segments f') = map fst (segments f) \<and>
        m_writtenBytes f' = m_writtenBytes f + int (length data))"
proof -
  define f1 where "f1 = (write_open data f)\<lparr>m_writtenBytes := m_writtenBytes f + int (length data)\<rparr>"
  have same: "m_lastFlush (write_open data f) = m_lastFlush f" "m_flushInterval (write_open data f) = m_flushInterval f"
    "lf_basename (write_open data f) = lf_basename f"
    by (auto simp: write_open_def split: list.split)
  note w = write_open_bytes [OF assms(1), of data]
  have "lf_append can_open tid_hash counts now now_roll data f =
      (if timeDifference now (m_lastFlush f) > m_flushInterval f
       then Inr (Some ((lf_flush f1)\<lparr>m_lastFlush := now\<rparr>))
       else if m_writtenBytes f + int (length data) > m_rollSize f then Inr (Some (rollFile can_open tid_hash now_roll f1))
       else Inr (Some f1))"
    using assms(2,3) write_loop_ends [OF assms(4)] same w(4,6)
    by (simp add: lf_append_def Let_def f1_def)
  then show ?thesis using w same
    by (auto simp: f1_def logged_bytes_def rollFile_def lf_flush_def Let_def)
qed

theorem log_append_witness:
  "\<exists>f'. lf_append (\<lambda>_. True) 5 [0, 2, 1] (Timestamp_at 10) (Timestamp_at 20) ''ab''
      (LogFile_new (\<lambda>_. True) 5 (Timestamp_at 0) ''app.log'' 1 3) = Inr (Some f') \<and>
    logged_bytes f' = ''ab'' \<and> length (segments f') = 2"
proof -
  let ?f = "LogFile_new (\<lambda>_. True) 5 (Timestamp_at 0) ''app.log'' 1 3"
  have f: "segments ?f = [(''app.log'', [])]" "m_fp ?f" "m_rollSize ?f = 1" "m_writtenBytes ?f = 0"
    "m_flushInterval ?f = 3000000" "m_lastFlush ?f = Timestamp_default" "logged_bytes ?f = []"
    by (simp_all add: LogFile_new_def kMicroSecondsPerSecond_def logged_bytes_def)
  have "timeDifference (Timestamp_at 10) Timestamp_default = 0"
    by (simp add: timeDifference_def Timestamp_at_def Timestamp_default_def)
  with log_append [of ?f "''ab''" "[0, 2, 1]" "\<lambda>_. True" 5 "Timestamp_at 10" "Timestamp_at 20"] f
  obtain f' where "lf_append (\<lambda>_. True) 5 [0, 2, 1] (Timestamp_at 10) (Timestamp_at 20) ''ab'' ?f = Inr (Some f')"
    "logged_bytes f' = ''ab''" "length (map fst (segments f')) = 2"
    by auto
  then show ?thesis by auto
qed

end
