(* ===== verification/AsyncLogs.thy ===== *)
theory AsyncLogs
  imports LogStreams
begin

text \<open>
  Asynchronous logging, \<open>Logging/asynclogging.h\<close> and \<open>Logging/asynclogging.cpp\<close>: front-end
  threads fill a buffer under a mutex, the back-end thread swaps the full buffers out and writes
  them.  Owning pointers are options; dereferencing a null one is \<open>OutOfBounds\<close>, as is
  \<open>back()\<close> of an empty vector.  The step relation interleaves the locked sections.
\<close>

section \<open>State and operations\<close>

record AsyncLogging =
  m_running :: bool
  m_currentBuffer :: "FixedBuffer option"
  m_nextBuffer :: "FixedBuffer option"
  m_buffers :: "FixedBuffer list"

definition AsyncLogging_new :: AsyncLogging where
  "AsyncLogging_new = \<lparr>m_running = False, m_currentBuffer = Some (FixedBuffer_new kLargeBuffer),
     m_nextBuffer = Some (FixedBuffer_new kLargeBuffer), m_buffers = []\<rparr>"

definition startAsyncLogging :: "AsyncLogging \<Rightarrow> AsyncLogging" where
  "startAsyncLogging a = a\<lparr>m_running := True\<rparr>"

definition async_stop :: "AsyncLogging \<Rightarrow> AsyncLogging" where
  "async_stop a = (if m_running a then a\<lparr>m_running := False\<rparr> else a)"

definition async_append :: "char list \<Rightarrow> AsyncLogging \<Rightarrow> AsyncLogging result" where
  "async_append data a =
     (case m_currentBuffer a of
        None \<Rightarrow> Inl OutOfBounds
      | Some cur \<Rightarrow>
          if avail cur > int (length data)
          then Inr (a\<lparr>m_currentBuffer := Some (fb_append cur data)\<rparr>)
          else
            let a1 = a\<lparr>m_buffers := m_buffers a @ [cur], m_currentBuffer := None\<rparr>;
                a2 = (case m_nextBuffer a1 of
                        Some nb \<Rightarrow> a1\<lparr>m_currentBuffer := Some (fb_append nb data), m_nextBuffer := None\<rparr>
                      | None \<Rightarrow> a1\<lparr>m_currentBuffer := Some (fb_append (FixedBuffer_new kLargeBuffer) data)\<rparr>)
            in Inr a2)"

text \<open>The locals of \<open>threadFunc\<close>; \<open>written\<close> is what it passed to \<open>LogFile::append\<close>.\<close>

record Backend =
  newBuffer1 :: "FixedBuffer option"
  newBuffer2 :: "FixedBuffer option"
  buffersToWrite :: "FixedBuffer list"
  written :: "char list"

definition Backend_new :: Backend where
  "Backend_new = \<lparr>newBuffer1 = Some (setZero (FixedBuffer_new kLargeBuffer)),
     newBuffer2 = Some (setZero (FixedBuffer_new kLargeBuffer)), buffersToWrite = [], written = []\<rparr>"

text \<open>The section under the lock, after the wait: a moved-from pointer is null.\<close>

definition backend_swap :: "AsyncLogging \<times> Backend \<Rightarrow> (AsyncLogging \<times> Backend) result" where
  "backend_swap = (\<lambda>(a, k).
     case m_currentBuffer a of
       None \<Rightarrow> Inl OutOfBounds
     | Some cur \<Rightarrow>
         let bufs = m_buffers a @ [cur];
             a1 = a\<lparr>m_currentBuffer := newBuffer1 k, m_buffers := buffersToWrite k\<rparr>;
             k1 = k\<lparr>newBuffer1 := None, buffersToWrite := bufs\<rparr>
         in Inr (if m_nextBuffer a1 = None
                 then (a1\<lparr>m_nextBuffer := newBuffer2 k1\<rparr>, k1\<lparr>newBuffer2 := None\<rparr>) else (a1, k1)))"

definition backend_write :: "Backend \<Rightarrow> Backend" where
  "backend_write k =
     k\<lparr>written := written k @ concat (map (\<lambda>b. take (nat (fb_len b)) (m_data b)) (buffersToWrite k))\<rparr>"

definition take_back :: "FixedBuffer list \<Rightarrow> (FixedBuffer \<times> FixedBuffer list) result" where
  "take_back bs = (if bs = [] then Inl OutOfBounds else Inr (fb_reset (last bs), butlast bs))"

definition backend_recycle :: "Backend \<Rightarrow> Backend result" where
  "backend_recycle k =
     (let bs = (if length (buffersToWrite k) > 2 then take 2 (buffersToWrite k) else buffersToWrite k) in
      res_bind (if newBuffer1 k = None
                then res_bind (take_back bs) (\<lambda>(b, rest). Inr (Some b, rest)) else Inr (newBuffer1 k, bs))
        (\<lambda>(n1, bs1).
          res_bind (if newBuffer2 k = None
                    then res_bind (take_back bs1) (\<lambda>(b, rest). Inr (Some b, rest)) else Inr (newBuffer2 k, bs1))
            (\<lambda>(n2, bs2). Inr (k\<lparr>newBuffer1 := n1, newBuffer2 := n2, buffersToWrite := []\<rparr>))))"

section \<open>Threads\<close>

datatype back_pc = AtWhile | InWait | ToWrite | ToRecycle | Ended

record async_sys =
  al :: AsyncLogging
  bk :: Backend
  bpc :: back_pc
  sent :: "char list"

definition async_start :: async_sys where
  "async_start = \<lparr>al = startAsyncLogging AsyncLogging_new, bk = Backend_new, bpc = AtWhile, sent = []\<rparr>"

text \<open>
  The wait ends on a notification, after three seconds or for no reason: it can end at any
  time.  \<open>sent\<close> records the messages that fit in a buffer at all.
\<close>

inductive async_step :: "async_sys \<Rightarrow> async_sys \<Rightarrow> bool" where
  front: "async_append d (al s) = Inr a \<Longrightarrow>
     async_step s (s\<lparr>al := a, sent := sent s @ (if int (length d) < kLargeBuffer then d else [])\<rparr>)"
| stop: "async_step s (s\<lparr>al := async_stop (al s)\<rparr>)"
| enter: "bpc s = AtWhile \<Longrightarrow> m_running (al s) \<Longrightarrow> async_step s (s\<lparr>bpc := InWait\<rparr>)"
| leave: "bpc s = AtWhile \<Longrightarrow> \<not> m_running (al s) \<Longrightarrow> async_step s (s\<lparr>bpc := Ended\<rparr>)"
| swap: "bpc s = InWait \<Longrightarrow> backend_swap (al s, bk s) = Inr (a, k) \<Longrightarrow>
     async_step s (s\<lparr>al := a, bk := k, bpc := ToWrite\<rparr>)"
| put: "bpc s = ToWrite \<Longrightarrow> async_step s (s\<lparr>bk := backend_write (bk s), bpc := ToRecycle\<rparr>)"
| recycle: "bpc s = ToRecycle \<Longrightarrow> backend_recycle (bk s) = Inr k \<Longrightarrow>
     async_step s (s\<lparr>bk := k, bpc := AtWhile\<rparr>)"

inductive async_reach :: "async_sys \<Rightarrow> bool" where
  start: "async_reach async_start"
| step: "async_reach s \<Longrightarrow> async_step s t \<Longrightarrow> async_reach t"

section \<open>Invariant\<close>

text \<open>A buffer of the full size, a spare one, and the bytes of a list of buffers.\<close>

definition large :: "FixedBuffer \<Rightarrow> bool" where
  "large b \<longleftrightarrow> fb_inv b \<and> int (length (m_data b)) = kLargeBuffer"

definition spare :: "FixedBuffer \<Rightarrow> bool" where
  "spare b \<longleftrightarrow> large b \<and> m_cur b = 0"

definition bytes :: "FixedBuffer list \<Rightarrow> char list" where
  "bytes bs = concat (map fb_toString bs)"

definition front_end_inv :: "AsyncLogging \<Rightarrow> bool" where
  "front_end_inv a \<longleftrightarrow> (\<exists>cur. m_currentBuffer a = Some cur \<and> large cur) \<and>
     (\<forall>b. m_nextBuffer a = Some b \<longrightarrow> spare b) \<and> (m_nextBuffer a = None \<longrightarrow> m_buffers a \<noteq> []) \<and>
     (\<forall>b \<in> set (m_buffers a). large b)"

definition unwritten :: "AsyncLogging \<Rightarrow> char list" where
  "unwritten a = bytes (m_buffers a) @ (case m_currentBuffer a of None \<Rightarrow> [] | Some b \<Rightarrow> fb_toString b)"

definition back_inv :: "back_pc \<Rightarrow> Backend \<Rightarrow> bool" where
  "back_inv c k \<longleftrightarrow>
     (\<forall>b. newBuffer1 k = Some b \<or> newBuffer2 k = Some b \<longrightarrow> spare b) \<and>
     (\<forall>b \<in> set (buffersToWrite k). large b) \<and>
     (if c = ToWrite \<or> c = ToRecycle
      then buffersToWrite k \<noteq> [] \<and> (newBuffer2 k = None \<longrightarrow> 2 \<le> length (buffersToWrite k)) \<and> newBuffer1 k = None
      else buffersToWrite k = [] \<and> newBuffer1 k \<noteq> None \<and> newBuffer2 k \<noteq> None)"

definition async_inv :: "async_sys \<Rightarrow> bool" where
  "async_inv s \<longleftrightarrow> front_end_inv (al s) \<and> back_inv (bpc s) (bk s) \<and>
     sent s = written (bk s) @ (if bpc s = ToWrite then bytes (buffersToWrite (bk s)) else []) @ unwritten (al s)"

lemma spare_facts: "spare b \<Longrightarrow> large b" "spare b \<Longrightarrow> fb_toString b = []" "spare b \<Longrightarrow> avail b = kLargeBuffer"
  by (simp_all add: spare_def large_def fb_toString_def avail_def)

lemma spare_new: "spare (FixedBuffer_new kLargeBuffer)" "spare (setZero (FixedBuffer_new kLargeBuffer))"
  by (simp_all add: spare_def large_def FixedBuffer_new_def setZero_def fb_inv_def kLargeBuffer_def)

lemma spare_reset: "large b \<Longrightarrow> spare (fb_reset b)"
  by (simp add: spare_def large_def fb_reset_def fb_inv_def)

lemma large_append: "large b \<Longrightarrow> large (fb_append b d)"
  using fb.put_inv [of b d]
  by (auto simp: large_def fb_append_def fb_inv_def avail_def length_overwrite)

lemma bytes_append [simp]: "bytes (xs @ ys) = bytes xs @ bytes ys" "bytes [] = []" "bytes [b] = fb_toString b"
  by (simp_all add: bytes_def)

lemma append_spare:
  "spare b \<Longrightarrow> large (fb_append b d) \<and> fb_toString (fb_append b d) = (if int (length d) < kLargeBuffer then d else [])"
  using fb.put_fits [of b d] fb.put_full [of b d] spare_facts [of b] large_append [of b d]
  by (cases "int (length d) < kLargeBuffer") (auto simp: large_def)

lemma async_append_inv:
  assumes "front_end_inv a"
  shows "\<exists>a'. async_append d a = Inr a' \<and> front_end_inv a' \<and>
     unwritten a' = unwritten a @ (if int (length d) < kLargeBuffer then d else []) \<and> m_running a' = m_running a"
proof -
  obtain cur where cur: "m_currentBuffer a = Some cur" "large cur" using assms by (auto simp: front_end_inv_def)
  show ?thesis
  proof (cases "avail cur > int (length d)")
    case True
    moreover have "avail cur \<le> kLargeBuffer" using cur(2) by (simp add: large_def avail_def fb_inv_def)
    ultimately have "int (length d) < kLargeBuffer" by simp
    then show ?thesis using True cur assms fb.put_fits [of cur d] large_append [OF cur(2), of d]
      by (auto simp: async_append_def front_end_inv_def unwritten_def large_def)
  next
    case full: False
    show ?thesis
    proof (cases "m_nextBuffer a")
      case None
      then show ?thesis using full cur assms append_spare [OF spare_new(1), of d]
        by (auto simp: async_append_def front_end_inv_def unwritten_def Let_def)
    next
      case (Some nb)
      then have "spare nb" using assms by (simp add: front_end_inv_def)
      then show ?thesis using Some full cur assms append_spare [of nb d]
        by (auto simp: async_append_def front_end_inv_def unwritten_def Let_def)
    qed
  qed
qed

lemma backend_swap_inv:
  assumes "front_end_inv a" "back_inv InWait k"
  shows "\<exists>a' k'. backend_swap (a, k) = Inr (a', k') \<and> front_end_inv a' \<and> back_inv ToWrite k' \<and>
     bytes (buffersToWrite k') = unwritten a \<and> unwritten a' = [] \<and> written k' = written k"
proof -
  obtain cur where cur: "m_currentBuffer a = Some cur" "large cur" using assms(1) by (auto simp: front_end_inv_def)
  obtain n1 n2 where n: "newBuffer1 k = Some n1" "newBuffer2 k = Some n2" "spare n1" "spare n2"
    "buffersToWrite k = []"
    using assms(2) by (auto simp: back_inv_def)
  show ?thesis
  proof (cases "m_nextBuffer a")
    case None
    then have "m_buffers a \<noteq> []" using assms(1) by (simp add: front_end_inv_def)
    then have "2 \<le> length (m_buffers a @ [cur])" by (cases "m_buffers a") simp_all
    then show ?thesis using None cur n assms spare_facts [OF n(3)]
      by (auto simp: backend_swap_def front_end_inv_def back_inv_def unwritten_def Let_def)
  next
    case (Some nb)
    then show ?thesis using cur n assms spare_facts [OF n(3)]
      by (auto simp: backend_swap_def front_end_inv_def back_inv_def unwritten_def Let_def)
  qed
qed

lemma backend_write_bytes: "written (backend_write k) = written k @ bytes (buffersToWrite k)"
  by (simp add: backend_write_def bytes_def fb_toString_def [abs_def] fb_len_def)

lemma backend_write_inv: "back_inv ToWrite k \<Longrightarrow> back_inv ToRecycle (backend_write k)"
  by (simp add: back_inv_def backend_write_def)

lemma backend_recycle_inv:
  assumes "back_inv ToRecycle k"
  shows "\<exists>k'. backend_recycle k = Inr k' \<and> back_inv AtWhile k' \<and> written k' = written k"
proof -
  define bs where "bs = (if length (buffersToWrite k) > 2 then take 2 (buffersToWrite k) else buffersToWrite k)"
  have bs: "bs \<noteq> []" "newBuffer2 k = None \<longrightarrow> butlast bs \<noteq> []" "\<forall>b \<in> set bs. large b" "newBuffer1 k = None"
    using assms
    by (auto simp: bs_def back_inv_def butlast_conv_take dest: in_set_takeD)
  have "spare (fb_reset (last bs))" using bs(1,3) by (simp add: spare_reset)
  moreover have "spare (fb_reset (last (butlast bs)))" if "newBuffer2 k = None"
    using bs(2,3) that by (intro spare_reset) (meson in_set_butlastD last_in_set)
  ultimately show ?thesis using bs assms
    by (auto simp: backend_recycle_def take_back_def back_inv_def Let_def bs_def [symmetric])
qed

lemma async_start_inv: "async_inv async_start"
  using spare_new
  by (auto simp: async_inv_def async_start_def startAsyncLogging_def AsyncLogging_new_def Backend_new_def
      front_end_inv_def back_inv_def unwritten_def spare_facts)

lemma async_step_inv: "async_step s t \<Longrightarrow> async_inv s \<Longrightarrow> async_inv t"
proof (induction rule: async_step.induct)
  case (front d s a)
  then show ?case using async_append_inv [of "al s" d] by (auto simp: async_inv_def)
next
  case (swap s a k)
  then show ?case using backend_swap_inv [of "al s" "bk s"] by (auto simp: async_inv_def)
next
  case (put s)
  then show ?case using backend_write_inv [of "bk s"] by (simp add: async_inv_def backend_write_bytes)
next
  case (recycle s k)
  then show ?case using backend_recycle_inv [of "bk s"] by (auto simp: async_inv_def)
qed (auto simp: async_inv_def front_end_inv_def back_inv_def unwritten_def async_stop_def)

lemma async_reach_inv: "async_reach s \<Longrightarrow> async_inv s"
  by (induction rule: async_reach.induct) (auto intro: async_start_inv async_step_inv)

section \<open>Properties\<close>

text \<open>C19: The logging back end loses, repeats and reorders nothing while it runs.  In every
  state the front-end threads, the back-end thread and a stop can reach, the messages sent,
  except those longer than a whole buffer, are exactly the bytes written to the log file, then
  the bytes of the buffers taken out for writing, then those of the full buffers in order,
  then those of the current buffer.\<close>

theorem async_log_fifo:
  assumes "async_reach s"
  shows "sent s = written (bk s) @ (if bpc s = ToWrite then bytes (buffersToWrite (bk s)) else []) @
     bytes (m_buffers (al s)) @ (case m_currentBuffer (al s) of None \<Rightarrow> [] | Some b \<Rightarrow> fb_toString b)"
  using async_reach_inv [OF assms] by (simp add: async_inv_def unwritten_def)

text \<open>C32: The buffer recycling is sound.  In every reachable state a front-end append, the swap
  and the recycling of the back end succeed: no null buffer is dereferenced and no element is
  taken from an empty vector, so after each round the back end owns two empty spare buffers
  again.\<close>

theorem async_buffers_safe:
  assumes "async_reach s"
  shows "(\<exists>a. async_append d (al s) = Inr a) \<and>
     (bpc s = InWait \<longrightarrow> (\<exists>r. backend_swap (al s, bk s) = Inr r)) \<and>
     (bpc s = ToRecycle \<longrightarrow> (\<exists>k b1 b2. backend_recycle (bk s) = Inr k \<and>
        newBuffer1 k = Some b1 \<and> newBuffer2 k = Some b2 \<and> fb_toString b1 = [] \<and> fb_toString b2 = []))"
proof (intro conjI impI)
  have inv: "front_end_inv (al s)" "back_inv (bpc s) (bk s)"
    using async_reach_inv [OF assms] by (simp_all add: async_inv_def)
  show "\<exists>a. async_append d (al s) = Inr a" using async_append_inv [OF inv(1)] by blast
  show "\<exists>r. backend_swap (al s, bk s) = Inr r" if "bpc s = InWait"
    using backend_swap_inv [of "al s" "bk s"] inv that by fastforce
  show "\<exists>k b1 b2. backend_recycle (bk s) = Inr k \<and>
      newBuffer1 k = Some b1 \<and> newBuffer2 k = Some b2 \<and> fb_toString b1 = [] \<and> fb_toString b2 = []"
    if "bpc s = ToRecycle"
    using backend_recycle_inv [of "bk s"] inv that spare_facts(2) by (fastforce simp: back_inv_def)
qed

text \<open>A message that is appended before the logger is stopped and never written.\<close>

definition one_message :: async_sys where
  "one_message = async_start\<lparr>al := (case async_append ''hello'' (al async_start) of Inr a \<Rightarrow> a | Inl _ \<Rightarrow> al async_start),
     sent := ''hello''\<rparr>"

lemma one_message_reach: "async_reach one_message"
proof -
  have "front_end_inv (al async_start)" using async_start_inv by (simp add: async_inv_def)
  then obtain a where a: "async_append ''hello'' (al async_start) = Inr a" using async_append_inv by blast
  have "one_message = async_start\<lparr>al := a, sent := sent async_start @ (if int (length ''hello'') < kLargeBuffer then ''hello'' else [])\<rparr>"
    using a by (simp add: one_message_def kLargeBuffer_def) (simp add: async_start_def)
  then show ?thesis using async_reach.step [OF async_reach.start async_step.front [OF a]] by simp
qed

theorem async_log_fifo_witness:
  "\<exists>b. m_currentBuffer (al one_message) = Some b \<and> bytes (m_buffers (al one_message)) @ fb_toString b = ''hello''"
proof -
  have "front_end_inv (al one_message)" using async_reach_inv [OF one_message_reach] by (simp add: async_inv_def)
  then obtain b where b: "m_currentBuffer (al one_message) = Some b" by (auto simp: front_end_inv_def)
  have "written (bk one_message) = []" "bpc one_message = AtWhile" "sent one_message = ''hello''"
    by (simp_all add: one_message_def async_start_def Backend_new_def)
  then show ?thesis using async_log_fifo [OF one_message_reach] b by simp
qed

theorem async_buffers_safe_witness: "\<exists>a. async_append ''again'' (al one_message) = Inr a"
  using async_buffers_safe [OF one_message_reach, of "''again''"] by blast

text \<open>Stopping the logger drops what is not yet written.  There is a reachable state in which
  the back-end thread has ended, a message was appended before the stop, and nothing has been
  written.\<close>

theorem stop_drops_messages:
  "\<exists>s. async_reach s \<and> bpc s = Ended \<and> sent s = ''hello'' \<and> written (bk s) = []"
proof -
  have "async_reach (one_message\<lparr>al := async_stop (al one_message)\<rparr>)" (is "async_reach ?s")
    by (rule async_reach.step [OF one_message_reach async_step.stop])
  moreover have "bpc ?s = AtWhile" "\<not> m_running (al ?s)" "sent ?s = ''hello''" "written (bk ?s) = []"
    by (simp_all add: one_message_def async_start_def Backend_new_def async_stop_def)
  ultimately have "async_reach (?s\<lparr>bpc := Ended\<rparr>)" "sent (?s\<lparr>bpc := Ended\<rparr>) = ''hello''"
    "written (bk (?s\<lparr>bpc := Ended\<rparr>)) = []"
    using async_reach.step [OF _ async_step.leave, of ?s] by simp_all
  then show ?thesis by (intro exI [of _ "?s\<lparr>bpc := Ended\<rparr>"]) simp
qed

end
