(* ===== verification/Programs.thy ===== *)
theory Programs
  imports NetRuns Loggers LogFiles AsyncLogs
begin

text \<open>
  The program, \<open>main.cpp\<close>, and the constructor and \<open>start\<close> of \<open>HttpServer\<close>: how the
  base loop, the acceptor, the pool and the server are put together, and how a log statement
  reaches the asynchronous logger.  What the system calls return and where objects are allocated
  are arguments.
\<close>

section \<open>Start-up\<close>

text \<open>The descriptors and addresses of the objects \<open>main\<close> makes; \<open>hw\<close> is \<open>hardware_concurrency\<close>.\<close>

record startup =
  st_tid :: nat
  st_base :: nat
  st_efd :: int
  st_wakeup_chan :: nat
  st_tfd :: int
  st_timer_chan :: nat
  st_lfd :: int
  st_idle_fd :: int
  st_accept_chan :: nat
  st_hw :: int

definition main_address :: Address where
  "main_address = \<lparr>m_ip = ''0.0.0.0'', m_port = 9090\<rparr>"

text \<open>The colon of the message is a \<open>char\<close> and is logged as its number.\<close>

definition listen_message :: "Address \<Rightarrow> string" where
  "listen_message address = ''Httpserver listening on '' @ m_ip address @ ''58'' @ int_dec (m_port address)"

text \<open>\<open>EventLoop loop\<close> with its timer queue, and \<open>HttpServer server\<close> with the number of threads set.\<close>

definition base_loop_new :: "startup \<Rightarrow> (timer_cb Timer net_loop \<times> timer_cb RBTreeTimer) result" where
  "base_loop_new st =
     res_bind (EventLoop_new (st_tid st) (st_efd st) (st_wakeup_chan st) CbWakeup)
       (\<lambda>l. Inr (RBTreeTimer_new l (st_tfd st) (st_timer_chan st) CbTimer))"

definition HttpServer_new ::
  "startup \<Rightarrow> Address \<Rightarrow> bool \<Rightarrow> timer_cb Timer net_loop \<times> timer_cb RBTreeTimer \<Rightarrow> http_server result" where
  "HttpServer_new st address close_flag = (\<lambda>(l, rb).
     res_bind (Acceptor_new (st_lfd st) (st_idle_fd st) True True (st_accept_chan st) address l) (\<lambda>(l1, acc).
       Inr (srv_log_line (listen_message address)
         \<lparr>srv = TcpServer_new (st_base st) acc address, loops = [st_base st \<mapsto> l1], objs = Map.empty,
          backlog = [], ntoa_buf = [], closed_fds = [], srv_log = [],
          upper = \<lparr>up_timer = rb, up_auto = close_flag\<rparr>\<rparr>)))"

text \<open>\<open>main\<close> up to \<open>setThreadNum\<close>; idle connections are closed, by the default argument.\<close>

definition main_server :: "startup \<Rightarrow> http_server result" where
  "main_server st =
     res_bind (base_loop_new st) (\<lambda>lr.
       res_bind (HttpServer_new st main_address True lr) (\<lambda>s.
         Inr (s\<lparr>srv := server_setThreadNum (st_hw st + 1) (srv s)\<rparr>)))"

text \<open>
  \<open>server.start()\<close> and \<open>loop.runAfter(5.0, timerEvent)\<close> on the main thread: \<open>tp\<close> is the pool when its
  \<open>start\<close> has returned, \<open>now\<close> and \<open>now'\<close> are the two clock readings, \<open>k\<close> the kernel's time.
\<close>

definition main_timer :: "nat \<Rightarrow> Timestamp \<Rightarrow> Timestamp \<Rightarrow> int \<Rightarrow> http_server \<Rightarrow> http_server result" where
  "main_timer tid now now' k s =
     res_bind (deref_loop s (srv_loop (srv s))) (\<lambda>l.
       res_bind (runAfter FOther tid now now' k 5 TimerEvent (l, up_timer (upper s)))
         (\<lambda>(l', rb). Inr (put_timer rb (put_loop (srv_loop (srv s)) l' s))))"

definition main_start ::
  "LoopThreadPool \<Rightarrow> bool \<Rightarrow> nat \<Rightarrow> Timestamp \<Rightarrow> Timestamp \<Rightarrow> int \<Rightarrow> http_server \<Rightarrow> http_server result" where
  "main_start tp listen_ok tid now now' k s = res_bind (server_Start tp listen_ok s) (main_timer tid now now' k)"

section \<open>Logging\<close>

text \<open>\<open>AsyncOutputFunc\<close>, which \<open>main\<close> makes the output function of the logger.\<close>

definition AsyncOutputFunc :: "char list \<Rightarrow> AsyncLogging \<Rightarrow> AsyncLogging result" where
  "AsyncOutputFunc data a = async_append data a"

definition main_log :: "LogLevel \<Rightarrow> int \<Rightarrow> Timestamp \<Rightarrow> nat \<Rightarrow> string \<Rightarrow> int \<Rightarrow> LogLevel \<Rightarrow> log_item list \<Rightarrow>
   AsyncLogging \<Rightarrow> AsyncLogging result" where
  "main_log g sys now tid filename line level items a =
     res_bind (log_statement g sys now tid filename line level items) (\<lambda>out.
       case out of None \<Rightarrow> Inr a | Some (msg, flush) \<Rightarrow> AsyncOutputFunc msg a)"

section \<open>Lemmas\<close>

lemma Reactor_new_fields: "chans Reactor_new = Map.empty" "m_channels Reactor_new = Map.empty"
  by (simp_all add: Reactor_new_def)

lemma new_channel_inv:
  "reactor_inv r \<Longrightarrow> chans r p = None \<Longrightarrow> reactor_inv (put_chan r p (setReadCallback cb (Channel_new fd)))"
  by (rule inv_put_new) (simp_all add: setReadCallback_def Channel_new_def)

lemma EventLoop_new_reactor:
  assumes "EventLoop_new tid efd chan cb = Inr l"
  shows "reactor_inv (m_epoller l)" "dom (chans (m_epoller l)) = {chan}" "dom (m_channels (m_epoller l)) = {efd}"
    "m_thread_id l = tid"
proof -
  let ?c = "setReadCallback cb (Channel_new efd)" and ?r = "put_chan Reactor_new chan (setReadCallback cb (Channel_new efd))"
  have r: "reactor_inv ?r" "chans ?r chan = Some ?c" "updatable ?r chan ?c" "m_fd ?c = efd"
    by (rule new_channel_inv)
      (simp_all add: reactor_inv_new Reactor_new_fields updatable_def setReadCallback_def Channel_new_def)
  obtain r' where "enableReading ?r chan = Inr r'" "reactor_inv r'" "m_channels r' = (m_channels ?r)(efd \<mapsto> chan)"
    "dom (chans r') = insert chan (dom (chans ?r))"
    using set_and_update_effect [OF r(1-3), of "\<lambda>e. e OR kReadEvent"] r(4) by (auto simp: enableReading_def)
  then show "reactor_inv (m_epoller l)" "dom (chans (m_epoller l)) = {chan}" "dom (m_channels (m_epoller l)) = {efd}"
    "m_thread_id l = tid"
    using assms by (auto simp: EventLoop_new_def res_simps Reactor_new_fields split: if_splits)
qed

text \<open>
  The descriptors and the channel addresses of the base loop are different ones, the
  descriptors are valid, and the base loop is none of the loops of the pool.
\<close>

definition startup_ok :: "startup \<Rightarrow> bool" where
  "startup_ok st \<longleftrightarrow> 0 < st_efd st \<and> 0 \<le> st_lfd st \<and> distinct [st_efd st, st_lfd st, st_tfd st] \<and>
     distinct [st_wakeup_chan st, st_timer_chan st, st_accept_chan st] \<and>
     0 \<le> st_hw st \<and> st_hw st + 1 < 2 ^ 31 \<and> nat (st_hw st + 1) \<le> st_base st"

definition timer_channel :: "int \<Rightarrow> chan_cb Channel" where
  "timer_channel fd = setReadCallback CbTimer (Channel_new fd)"

lemma EventLoop_new_total: "0 < efd \<Longrightarrow> \<exists>l. EventLoop_new tid efd chan cb = Inr l"
proof -
  assume fd: "0 < efd"
  let ?c = "setReadCallback cb (Channel_new efd)" and ?r = "put_chan Reactor_new chan (setReadCallback cb (Channel_new efd))"
  have "reactor_inv ?r" "chans ?r chan = Some ?c" "updatable ?r chan ?c"
    by (rule new_channel_inv)
      (simp_all add: reactor_inv_new Reactor_new_fields updatable_def setReadCallback_def Channel_new_def)
  then obtain r' where "enableReading ?r chan = Inr r'"
    using set_and_update_effect [of ?r chan ?c "\<lambda>e. e OR kReadEvent"] by (auto simp: enableReading_def)
  then show ?thesis using fd by (simp add: EventLoop_new_def)
qed

text \<open>The channels of a fresh loop and those \<open>main\<close> adds are the program's own.\<close>

definition own_chans :: "bool \<Rightarrow> timer_cb Timer net_loop \<Rightarrow> bool" where
  "own_chans b l \<longleftrightarrow> (\<forall>p c. chans (m_epoller l) p = Some c \<longrightarrow> sys_chan b c)"

lemma start_chans_sys:
  "sys_chan True (accept_channel fd)" "sys_chan True (timer_channel fd)" "m_read_callback (timer_channel fd) = Some CbTimer"
  "m_read_callback (accept_channel fd) = Some CbAccept"
  by (simp_all add: sys_chan_def accept_channel_def timer_channel_def setEvents_def setIndex_def setReadCallback_def Channel_new_def)

lemma EventLoop_new_own:
  assumes "EventLoop_new tid efd chan CbWakeup = Inr l"
  shows "m_pending_functors l = []" "own_chans b l"
proof -
  let ?c = "setReadCallback CbWakeup (Channel_new efd)" and ?r = "put_chan Reactor_new chan (setReadCallback CbWakeup (Channel_new efd))"
  have "reactor_inv ?r" "chans ?r chan = Some ?c" "updatable ?r chan ?c"
    by (rule new_channel_inv)
      (simp_all add: reactor_inv_new Reactor_new_fields updatable_def setReadCallback_def Channel_new_def)
  from set_and_update_effect [OF this, of "\<lambda>e. e OR kReadEvent"] assms
  show "m_pending_functors l = []" "own_chans b l"
    by (auto simp: EventLoop_new_def enableReading_def res_simps own_chans_def sys_chan_def setReadCallback_def Channel_new_def
        Reactor_new_fields split: if_splits)
qed

text \<open>The world \<open>main\<close> has made when it calls \<open>start\<close>.\<close>

lemma main_server_world:
  assumes "startup_ok st"
  shows "\<exists>s l. main_server st = Inr s \<and> loops s = [st_base st \<mapsto> l] \<and> reactor_inv (m_epoller l) \<and>
     m_thread_id l = st_tid st \<and> chans (m_epoller l) (st_accept_chan st) = Some (accept_channel (st_lfd st)) \<and>
     chans (m_epoller l) (st_timer_chan st) = Some (timer_channel (st_tfd st)) \<and>
     dom (chans (m_epoller l)) = {st_wakeup_chan st, st_timer_chan st, st_accept_chan st} \<and>
     dom (m_channels (m_epoller l)) = {st_efd st} \<and> srv_loop (srv s) = st_base st \<and> objs s = Map.empty \<and>
     m_connections (srv s) = Map.empty \<and> m_next_connection_id (srv s) = 0 \<and>
     m_accept_channel (m_acceptor (srv s)) = st_accept_chan st \<and>
     up_timer (upper s) = \<lparr>m_timer_channel = st_timer_chan st, m_timer = [], m_timer_fd = st_tfd st, deadline = None\<rparr> \<and>
     up_auto (upper s) \<and> m_pending_functors l = [] \<and> own_chans True l"
proof -
  have "0 < st_efd st" using assms by (simp add: startup_ok_def)
  then have "\<exists>l0 :: timer_cb Timer net_loop. EventLoop_new (st_tid st) (st_efd st) (st_wakeup_chan st) CbWakeup = Inr l0"
    by (rule EventLoop_new_total)
  then obtain l0 :: "timer_cb Timer net_loop" where l0: "EventLoop_new (st_tid st) (st_efd st) (st_wakeup_chan st) CbWakeup = Inr l0" ..
  note f = EventLoop_new_reactor [OF l0]
  have ch: "chans (m_epoller l0) p = None \<longleftrightarrow> p \<noteq> st_wakeup_chan st" for p
    using f(2) by (auto simp: domIff)
  define l where "l = l0\<lparr>m_epoller := put_chan (put_chan (m_epoller l0) (st_timer_chan st) (timer_channel (st_tfd st)))
     (st_accept_chan st) (accept_channel (st_lfd st))\<rparr>"
  have "reactor_inv (put_chan (m_epoller l0) (st_timer_chan st) (timer_channel (st_tfd st)))"
    unfolding timer_channel_def using f(1) ch assms by (intro new_channel_inv) (auto simp: startup_ok_def)
  moreover have "chans (put_chan (m_epoller l0) (st_timer_chan st) (timer_channel (st_tfd st))) (st_accept_chan st) = None"
    "m_index (accept_channel (st_lfd st)) = kNew"
    using ch assms by (simp_all add: startup_ok_def accept_channel_def setEvents_def setIndex_def)
  ultimately have "reactor_inv (put_chan (put_chan (m_epoller l0) (st_timer_chan st) (timer_channel (st_tfd st))) (st_accept_chan st)
      (accept_channel (st_lfd st)))" by (rule inv_put_new)
  then have l: "reactor_inv (m_epoller l)" "m_thread_id l = st_tid st" "dom (m_channels (m_epoller l)) = {st_efd st}"
    "chans (m_epoller l) (st_accept_chan st) = Some (accept_channel (st_lfd st))"
    "chans (m_epoller l) (st_timer_chan st) = Some (timer_channel (st_tfd st))"
    "dom (chans (m_epoller l)) = {st_wakeup_chan st, st_timer_chan st, st_accept_chan st}"
    using f assms by (auto simp: l_def startup_ok_def)
  have own: "m_pending_functors l = []" "own_chans True l"
    using EventLoop_new_own(1,2) [OF l0] by (auto simp: own_chans_def l_def start_chans_sys split: if_splits)
  have "\<not> st_lfd st < 0" using assms by (simp add: startup_ok_def)
  then show ?thesis using l0 own
    by (simp add: main_server_def base_loop_new_def HttpServer_new_def RBTreeTimer_new_def Acceptor_new_def setReuseAddr_def
        Bind_def TcpServer_new_def server_setThreadNum_def, intro exI [of _ l], use l in \<open>simp add: l_def timer_channel_def\<close>)
qed

text \<open>A channel that is switched to reading for the first time.\<close>

lemma first_reading:
  assumes "reactor_inv r" "chans r p = Some c" "m_index c = kNew" "m_channels r (m_fd c) = None"
  shows "\<exists>r' c'. enableReading r p = Inr r' \<and> reactor_inv r' \<and> registered r' (m_fd c) = Some (m_events c OR kReadEvent, p) \<and>
     chans r' = (chans r)(p \<mapsto> c') \<and> m_channels r' = (m_channels r)(m_fd c \<mapsto> p) \<and> m_index c' = kAdded \<and>
     m_read_callback c' = m_read_callback c \<and> sys_chan b c' = sys_chan b c"
proof -
  have "updatable r p c" using assms(3,4) by (simp add: updatable_def)
  from set_and_update_effect [OF assms(1,2) this, of "\<lambda>e. e OR kReadEvent"] assms(3) show ?thesis
    by (auto simp: enableReading_def registered_def index_after_def sys_chan_def
        intro!: exI [of _ "c\<lparr>m_events := m_events c OR kReadEvent, m_index := kAdded\<rparr>"])
qed

lemma start_channels:
  "m_fd (accept_channel fd) = fd" "m_index (accept_channel fd) = kNew" "m_events (accept_channel fd) = EPOLLIN OR EPOLLET"
  "m_fd (timer_channel fd) = fd" "m_index (timer_channel fd) = kNew" "m_events (timer_channel fd) = 0"
  by (simp_all add: accept_channel_def timer_channel_def setEvents_def setIndex_def setReadCallback_def Channel_new_def)

text \<open>\<open>Listen\<close> and the first timer register the acceptor's and the timer's channel in the base loop.\<close>

lemma base_channels:
  assumes "reactor_inv (m_epoller l)" "chans (m_epoller l) p = Some (accept_channel lfd)"
    and "chans (m_epoller l) q = Some (timer_channel tfd)" "p \<noteq> q" "lfd \<noteq> tfd"
    and "m_channels (m_epoller l) lfd = None" "m_channels (m_epoller l) tfd = None" "m_timer_channel rb = q"
  shows "\<exists>r r'. enableReading (m_epoller l) p = Inr r \<and>
     enableTimerfd (l\<lparr>m_epoller := r\<rparr>) rb = Inr (l\<lparr>m_epoller := r'\<rparr>) \<and> reactor_inv r' \<and>
     registered r' lfd = Some (EPOLLIN OR EPOLLET OR kReadEvent, p) \<and> dom (chans r') = dom (chans (m_epoller l)) \<and>
     dom (m_channels r') = {lfd, tfd} \<union> dom (m_channels (m_epoller l)) \<and>
     (own_chans True l \<longrightarrow> own_chans True (l\<lparr>m_epoller := r'\<rparr>)) \<and>
     (\<exists>c. chans r' q = Some c \<and> m_read_callback c = Some CbTimer \<and> m_index c = kAdded) \<and>
     (\<exists>c. chans r' p = Some c \<and> m_read_callback c = Some CbAccept)"
proof -
  obtain r c1 where r: "enableReading (m_epoller l) p = Inr r" "reactor_inv r"
    "registered r lfd = Some (EPOLLIN OR EPOLLET OR kReadEvent, p)" "chans r = (chans (m_epoller l))(p \<mapsto> c1)"
    "m_channels r = (m_channels (m_epoller l))(lfd \<mapsto> p)" "sys_chan True c1 = sys_chan True (accept_channel lfd)"
    "m_read_callback c1 = Some CbAccept"
    using first_reading [OF assms(1,2), where b = True] assms(6) by (auto simp: start_channels start_chans_sys or.assoc)
  have q: "chans r q = Some (timer_channel tfd)" "m_channels r tfd = None" using r(4,5) assms(3-5,7) by auto
  obtain r' c2 where r': "enableReading r q = Inr r'" "reactor_inv r'" "chans r' = (chans r)(q \<mapsto> c2)"
    "m_channels r' = (m_channels r)(tfd \<mapsto> q)" "m_index c2 = kAdded" "m_read_callback c2 = Some CbTimer" "sys_chan True c2"
    using first_reading [OF r(2) q(1), where b = True] q(2) by (auto simp: start_channels start_chans_sys)
  have "registered r' lfd = registered r lfd"
    using r'(3,4) assms(4,5) r(5) by (auto simp: registered_def)
  moreover have "enableTimerfd (l\<lparr>m_epoller := r\<rparr>) rb = Inr (l\<lparr>m_epoller := r'\<rparr>)"
    using q(1) r'(1) assms(8) by (simp add: enableTimerfd_def deref_def isRegistered_def start_channels)
  moreover have "dom (chans r') = dom (chans (m_epoller l))" using r(4) r'(3) assms(2,3) by auto
  moreover have "dom (m_channels r') = {lfd, tfd} \<union> dom (m_channels (m_epoller l))" using r(5) r'(4) by auto
  moreover have "own_chans True l \<longrightarrow> own_chans True (l\<lparr>m_epoller := r'\<rparr>)"
    using r(4,6) r'(3,7) by (auto simp: own_chans_def start_chans_sys)
  moreover have "\<exists>c. chans r' p = Some c \<and> m_read_callback c = Some CbAccept" using r(4,7) r'(3) assms(4) by simp
  ultimately show ?thesis using r(1,3) r'(2,3,5,6) by (intro exI [of _ r] exI [of _ r']) simp
qed

lemma pool_loop_ids:
  assumes "mset ls = mset [0..<n]"
  shows "i \<in> set ls \<longleftrightarrow> i < n"
proof -
  have "set ls = set [0..<n]" using assms by (rule mset_eq_setD)
  then show ?thesis by simp
qed

text \<open>A fresh loop is quiet.\<close>

lemma EventLoop_new_quiet:
  assumes "EventLoop_new tid efd chan CbWakeup = Inr l"
  shows "quiet_loop l" "m_wakeup_channel l = chan"
proof -
  let ?c = "setReadCallback CbWakeup (Channel_new efd)" and ?r = "put_chan Reactor_new chan (setReadCallback CbWakeup (Channel_new efd))"
  have r: "reactor_inv ?r" "chans ?r chan = Some ?c" "updatable ?r chan ?c" "\<not> m_tied ?c" "m_read_callback ?c = Some CbWakeup"
    by (rule new_channel_inv)
      (simp_all add: reactor_inv_new Reactor_new_fields updatable_def setReadCallback_def Channel_new_def)
  then show "quiet_loop l" "m_wakeup_channel l = chan"
    using set_and_update_effect [OF r(1-3), of "\<lambda>e. e OR kReadEvent"] assms
    by (auto simp: EventLoop_new_def enableReading_def res_simps quiet_loop_def split: if_splits)
qed

lemma backlog_keeps:
  "srv_inv (s\<lparr>backlog := b\<rparr>) = srv_inv s" "workers tb (s\<lparr>backlog := b\<rparr>) = workers tb s"
  "fresh_for self chan (s\<lparr>backlog := b\<rparr>) = fresh_for self chan s"
proof -
  have "entry_ok (s\<lparr>backlog := b\<rparr>) = entry_ok s" by (intro ext) (simp add: entry_ok_def cong: option.case_cong)
  then show "srv_inv (s\<lparr>backlog := b\<rparr>) = srv_inv s" by (simp add: srv_inv_def)
qed (simp_all add: workers_def fresh_for_def)

text \<open>The pool's \<open>start\<close> has returned and every pool thread has made its loop.\<close>

definition pool_made :: "startup \<Rightarrow> pool_sys \<Rightarrow> (nat \<Rightarrow> nat) \<Rightarrow> (nat \<Rightarrow> int) \<Rightarrow> (nat \<Rightarrow> nat) \<Rightarrow>
   (nat \<Rightarrow> timer_cb Timer net_loop) \<Rightarrow> bool" where
  "pool_made st ps tids efds wchs pl \<longleftrightarrow>
     pool_reach (setThreadNum (st_hw st + 1) (LoopThreadPool_new (st_base st))) ps \<and> starter ps = Started \<and>
     (\<forall>j < nat (st_hw st + 1). EventLoop_new (tids j) (efds j) (wchs j) CbWakeup = Inr (pl j) \<and> tids j \<noteq> st_tid st)"

definition with_pool_loops :: "startup \<Rightarrow> (nat \<Rightarrow> timer_cb Timer net_loop) \<Rightarrow> http_server \<Rightarrow> http_server" where
  "with_pool_loops st pl s = s\<lparr>loops := (\<lambda>j. if j < nat (st_hw st + 1) then Some (pl j) else loops s j)\<rparr>"

lemma pool_made_loops:
  assumes "startup_ok st" "pool_made st ps tids efds wchs pl"
  shows "mset (m_loops (pool ps)) = mset [0..<nat (st_hw st + 1)]" "pool_ready (pool ps)"
proof -
  have hw: "0 < st_hw st + 1" "int_range (st_hw st + 1)" using assms(1) by (auto simp: startup_ok_def int_range_def)
  have fresh: "fresh_pool (st_hw st + 1) (setThreadNum (st_hw st + 1) (LoopThreadPool_new (st_base st)))"
    by (simp add: fresh_pool_def setThreadNum_def LoopThreadPool_new_def)
  show "mset (m_loops (pool ps)) = mset [0..<nat (st_hw st + 1)]" "pool_ready (pool ps)"
    using pool_started [OF _ fresh hw(2), of ps] hw(1) assms(2) by (simp_all add: pool_made_def)
qed

lemma program_started:
  assumes "startup_ok st" "pool_made st ps tids efds wchs pl"
  shows "\<exists>s s2 base. main_server st = Inr s \<and>
     main_start (pool ps) True (st_tid st) now now' k (with_pool_loops st pl s) = Inr s2 \<and> srv_inv s2 \<and>
     workers (st_tid st) s2 \<and> m_connections (srv s2) = Map.empty \<and> objs s2 = Map.empty \<and> srv_loop (srv s2) = st_base st \<and>
     m_loop_thread_pool (srv s2) = pool ps \<and>
     loops s2 = (\<lambda>j. if j < nat (st_hw st + 1) then Some (pl j) else if j = st_base st then Some base else None) \<and>
     m_thread_id base = st_tid st \<and>
     dom (chans (m_epoller base)) = {st_wakeup_chan st, st_timer_chan st, st_accept_chan st} \<and>
     interest (ctl_calls (m_epoller base)) (st_lfd st) = Some (0x80000003, st_accept_chan st) \<and>
     m_timer (up_timer (upper s2)) = [Timer_new (Some TimerEvent) (addTime now 5) 0] \<and> up_auto (upper s2) \<and>
     m_pending_functors base = [] \<and> own_chans True base \<and>
     (\<exists>c. chans (m_epoller base) (m_timer_channel (up_timer (upper s2))) = Some c \<and> m_read_callback c = Some CbTimer \<and> m_index c = kAdded) \<and>
     (\<exists>c. chans (m_epoller base) (st_accept_chan st) = Some c \<and> m_read_callback c = Some CbAccept)"
proof -
  let ?n = "nat (st_hw st + 1)" and ?b = "st_base st"
  obtain s l where s: "main_server st = Inr s" "loops s = [?b \<mapsto> l]" "reactor_inv (m_epoller l)" "m_thread_id l = st_tid st"
    "chans (m_epoller l) (st_accept_chan st) = Some (accept_channel (st_lfd st))"
    "chans (m_epoller l) (st_timer_chan st) = Some (timer_channel (st_tfd st))"
    "dom (chans (m_epoller l)) = {st_wakeup_chan st, st_timer_chan st, st_accept_chan st}"
    "dom (m_channels (m_epoller l)) = {st_efd st}" "srv_loop (srv s) = ?b" "objs s = Map.empty"
    "m_connections (srv s) = Map.empty" "m_next_connection_id (srv s) = 0" "m_accept_channel (m_acceptor (srv s)) = st_accept_chan st"
    "up_timer (upper s) = \<lparr>m_timer_channel = st_timer_chan st, m_timer = [], m_timer_fd = st_tfd st, deadline = None\<rparr>"
    "up_auto (upper s)" "m_pending_functors l = []" "own_chans True l"
    using main_server_world [OF assms(1)] by blast
  have un: "m_channels (m_epoller l) fd = None" if "fd \<noteq> st_efd st" for fd
    using that s(8) domIff [of fd "m_channels (m_epoller l)"] by auto
  have st: "st_accept_chan st \<noteq> st_timer_chan st" "st_lfd st \<noteq> st_tfd st" "m_channels (m_epoller l) (st_lfd st) = None"
    "m_channels (m_epoller l) (st_tfd st) = None" "?n \<le> ?b"
    using assms(1) by (auto simp: startup_ok_def intro!: un)
  obtain r r' where r: "enableReading (m_epoller l) (st_accept_chan st) = Inr r"
    "enableTimerfd (l\<lparr>m_epoller := r\<rparr>) (up_timer (upper s)) = Inr (l\<lparr>m_epoller := r'\<rparr>)" "reactor_inv r'"
    "registered r' (st_lfd st) = Some (EPOLLIN OR EPOLLET OR kReadEvent, st_accept_chan st)"
    "dom (chans r') = {st_wakeup_chan st, st_timer_chan st, st_accept_chan st}" "own_chans True (l\<lparr>m_epoller := r'\<rparr>)"
    "\<exists>c. chans r' (st_timer_chan st) = Some c \<and> m_read_callback c = Some CbTimer \<and> m_index c = kAdded"
    "\<exists>c. chans r' (st_accept_chan st) = Some c \<and> m_read_callback c = Some CbAccept"
    using s(17) base_channels [OF s(3,5,6) st(1-4), of "up_timer (upper s)"] s(7,14) by auto
  define s1 where "s1 = with_pool_loops st pl s"
  define s2 where "s2 = put_loop ?b (l\<lparr>m_epoller := r\<rparr>) (s1\<lparr>srv := (srv s1)\<lparr>m_loop_thread_pool := pool ps\<rparr>\<rparr>)"
  have start: "server_Start (pool ps) True s1 = Inr s2"
    using s(2,9,13) st(5) r(1) by (simp add: server_Start_def Listen_def s1_def s2_def with_pool_loops_def)
  let ?t = "Timer_new (Some TimerEvent) (addTime now 5) 0"
  have thr: "isInLoopThread (l\<lparr>m_epoller := r\<rparr>) (st_tid st)" using s(4) by (simp add: isInLoopThread_def)
  obtain rb where rb: "addTimerInLoop (st_tid st) now' k ?t (l\<lparr>m_epoller := r\<rparr>, up_timer (upper s)) = Inr (l\<lparr>m_epoller := r'\<rparr>, rb)"
    "m_timer rb = [?t]"
    using addTimerInLoop_queue [OF thr r(2), of now' k ?t] s(14) by auto
  have tc: "m_timer_channel rb = st_timer_chan st"
    using rb(1) s(14) by (auto simp: addTimerInLoop_def insertTimer_def resetTimerFd_def res_simps Let_def split: if_splits)
  define s3 where "s3 = put_timer rb (put_loop ?b (l\<lparr>m_epoller := r'\<rparr>) s2)"
  have "upper s2 = upper s" "loops s2 ?b = Some (l\<lparr>m_epoller := r\<rparr>)" "srv_loop (srv s2) = ?b"
    using s(9) by (simp_all add: s2_def s1_def with_pool_loops_def)
  then have run: "main_start (pool ps) True (st_tid st) now now' k s1 = Inr s3"
    using start rb(1) thr by (simp add: main_start_def main_timer_def runAfter_def addTimer_def s3_def)
  have loops: "loops s3 = (\<lambda>j. if j < ?n then Some (pl j) else if j = ?b then Some (l\<lparr>m_epoller := r'\<rparr>) else None)"
    using s(2) st(5) by (auto simp: s3_def s2_def s1_def put_timer_def with_pool_loops_def)
  have f: "srv s3 = (srv s)\<lparr>m_loop_thread_pool := pool ps\<rparr>" "objs s3 = Map.empty" "m_timer (up_timer (upper s3)) = [?t]" "up_auto (upper s3)"
    "m_timer_channel (up_timer (upper s3)) = st_timer_chan st"
    using s(10,15) rb(2) tc by (simp_all add: s3_def s2_def s1_def put_timer_def with_pool_loops_def)
  have "srv_inv s3"
    using s(9,11,12) r(3) assms(2) EventLoop_new_reactor(1)
    by (fastforce simp: srv_inv_def f(1) loops int_max_def pool_made_def split: if_splits)
  moreover have "workers (st_tid st) s3"
    using pool_made_loops [OF assms] pool_loop_ids [of "m_loops (pool ps)" ?n] assms(2) EventLoop_new_reactor(4)
    by (fastforce simp: workers_def f(1) loops isInLoopThread_def pool_made_def)
  moreover have "interest (ctl_calls r') = registered r'" using r(3) by (simp add: reactor_inv_def)
  ultimately show ?thesis using s(1,4,9,11,16) run loops f r(4-8)
    by (intro exI [of _ s] exI [of _ s3] exI [of _ "l\<lparr>m_epoller := r'\<rparr>"]) (simp add: s1_def event_masks)
qed

text \<open>The thread that runs a loop: the pool's threads run the first loops, the main thread the base loop.\<close>

definition runner :: "startup \<Rightarrow> (nat \<Rightarrow> nat) \<Rightarrow> nat \<Rightarrow> nat" where
  "runner st tids i = (if i < nat (st_hw st + 1) then tids i else st_tid st)"

lemma main_started:
  assumes "startup_ok st" "pool_made st ps tids efds wchs pl" "inj_on tids {..<nat (st_hw st + 1)}"
  shows "\<exists>s s2. main_server st = Inr s \<and> main_start (pool ps) True (st_tid st) now now' k (with_pool_loops st pl s) = Inr s2 \<and>
     started (runner st tids) s2"
proof -
  let ?n = "nat (st_hw st + 1)"
  obtain s s2 base where s: "main_server st = Inr s"
    "main_start (pool ps) True (st_tid st) now now' k (with_pool_loops st pl s) = Inr s2" "srv_inv s2" "objs s2 = Map.empty"
    "srv_loop (srv s2) = st_base st" "m_loop_thread_pool (srv s2) = pool ps"
    "loops s2 = (\<lambda>j. if j < ?n then Some (pl j) else if j = st_base st then Some base else None)" "m_thread_id base = st_tid st"
    "m_timer (up_timer (upper s2)) = [Timer_new (Some TimerEvent) (addTime now 5) 0]" "m_pending_functors base = []" "own_chans True base"
    "\<exists>c. chans (m_epoller base) (m_timer_channel (up_timer (upper s2))) = Some c \<and> m_read_callback c = Some CbTimer \<and> m_index c = kAdded"
    using program_started [OF assms(1,2), of now now' k] by blast
  have base: "\<not> st_base st < ?n" using assms(1) by (simp add: startup_ok_def)
  have new: "EventLoop_new (tids j) (efds j) (wchs j) CbWakeup = Inr (pl j)" "tids j \<noteq> st_tid st" if "j < ?n" for j
    using assms(2) that by (simp_all add: pool_made_def)
  have thr: "threads_ok (runner st tids) s2"
    using EventLoop_new_reactor(4) [OF new(1)] s(8) base by (auto simp: threads_ok_def runner_def s(7) split: if_splits)
  have inj: "i = j" if "loops s2 i = Some l" "loops s2 j = Some l'" "m_thread_id l = m_thread_id l'" for i j l l'
  proof -
    have "runner st tids i = runner st tids j" using that thr by (simp add: threads_ok_def)
    then show ?thesis using that(1,2) new(2) inj_onD [OF assms(3), of i j] by (auto simp: runner_def s(7) split: if_splits)
  qed
  have "loops s2 i \<noteq> None \<and> i \<noteq> st_base st" if "i \<in> set (m_loops (pool ps))" for i
    using that pool_loop_ids [OF pool_made_loops(1) [OF assms(1,2)], of i] base by (auto simp: s(7))
  then have "world_inv s2" unfolding world_inv_def s(5,6) using s(3) pool_made_loops(2) [OF assms(1,2)] inj by blast
  moreover have "timers_inv s2" using s(9,12) base by (auto simp: timers_inv_def s(5,7) Timer_new_def updatable_def)
  moreover have "m_pending_functors l = [] \<and> own_chans (i = st_base st) l" if "loops s2 i = Some l" for i l
    using that EventLoop_new_own [OF new(1)] s(10,11) base by (auto simp: s(7) split: if_splits)
  ultimately have "started (runner st tids) s2" unfolding started_def s(5) own_chans_def using s(4) thr by blast
  then show ?thesis using s(1,2) by blast
qed

section \<open>Properties\<close>



text \<open>C33: From a log statement to the log file.  In every state of the running logger a statement
  that the level lets through, whose line fits the stream, appends exactly its line behind all
  bytes that were logged before, and after every further step of the back end the bytes written
  to the file and those still to be written are still the same ones in the same order.\<close>

theorem log_statement_reaches_log:
  assumes "async_reach s" "log_enabled g level" "\<forall>it \<in> set items. item_ok it" "\<bar>line\<bar> < 10 ^ 20"
    and "msg = line_head now tid level @ items_text items @ line_tail filename line" "length msg \<le> 4048"
    and "pending = (\<lambda>u. written (bk u) @ (if bpc u = ToWrite then bytes (buffersToWrite (bk u)) else []) @ unwritten (al u))"
  shows "\<exists>a. main_log g sys now tid filename line level items (al s) = Inr a \<and>
     async_reach (s\<lparr>al := a, sent := sent s @ msg\<rparr>) \<and> pending (s\<lparr>al := a, sent := sent s @ msg\<rparr>) = pending s @ msg \<and>
     (\<forall>t. async_step (s\<lparr>al := a, sent := sent s @ msg\<rparr>) t \<longrightarrow> sent t = sent s @ msg \<longrightarrow> pending t = pending s @ msg)"
proof -
  have inv: "async_inv s" using assms(1) by (rule async_reach_inv)
  then have "front_end_inv (al s)" by (simp add: async_inv_def)
  then obtain a where a: "async_append msg (al s) = Inr a" using async_append_inv by blast
  have "log_statement g sys now tid filename line level items = Inr (Some (msg, level = ERROR))"
    using log_statement_text [OF assms(2-4)] assms(5,6) by simp
  then have run: "main_log g sys now tid filename line level items (al s) = Inr a"
    using a by (simp add: main_log_def AsyncOutputFunc_def)
  let ?s = "s\<lparr>al := a, sent := sent s @ msg\<rparr>"
  have "int (length msg) < kLargeBuffer" using assms(6) by (simp add: kLargeBuffer_def)
  then have reach: "async_reach ?s" using async_reach.step [OF assms(1) async_step.front [OF a]] by simp
  have pending: "sent u = pending u" if "async_reach u" for u
    using async_reach_inv [OF that] by (simp add: assms(7) async_inv_def)
  have "pending t = pending s @ msg" if "async_step ?s t" "sent t = sent s @ msg" for t
    using pending [OF async_reach.step [OF reach that(1)]] pending [OF assms(1)] that(2) by simp
  then show ?thesis using run reach pending [OF reach] pending [OF assms(1)] by auto
qed

text \<open>One processor, base loop 9 of thread 1, a pool loop of thread 2.\<close>

definition sample_startup :: startup where
  "sample_startup = \<lparr>st_tid = 1, st_base = 9, st_efd = 5, st_wakeup_chan = 100, st_tfd = 6, st_timer_chan = 200,
     st_lfd = 3, st_idle_fd = 4, st_accept_chan = 300, st_hw = 0\<rparr>"

lemma sample_pool_made:
  "\<exists>pl. pool_made sample_startup one_started (\<lambda>_. 2) (\<lambda>_. 7) (\<lambda>_. 101) (\<lambda>_. pl)"
proof -
  have "\<exists>l :: timer_cb Timer net_loop. EventLoop_new 2 7 101 CbWakeup = Inr l" by (rule EventLoop_new_total) simp
  then show ?thesis using one_started_reach
    by (auto simp: pool_made_def one_thread_def sample_startup_def one_started_def)
qed

lemma sample_startup_ok: "startup_ok sample_startup"
  by (simp add: startup_ok_def sample_startup_def)



theorem log_statement_reaches_log_witness:
  "\<exists>a. main_log INFO 0 (Timestamp_at 0) 7 ''main.cpp'' 1 WARN [LStr ''x''] (al one_message) = Inr a \<and>
     unwritten a = ''hello'' @ line_head (Timestamp_at 0) 7 WARN @ ''x'' @ line_tail ''main.cpp'' 1"
proof -
  have "length (line_tail ''main.cpp'' 1) = 16"
    by (simp add: line_tail_def SourceFile_new_def Let_def int_dec_def nat_dec.simps)
  moreover have "length (line_head (Timestamp_at 0) 7 WARN) = 27"
    by (simp add: line_head_def microsecondsSinceEpoch_def Timestamp_at_def kMicroSecondsPerSecond_def
        int_dec_def nat_dec.simps)
  ultimately have len: "length (line_head (Timestamp_at 0) 7 WARN @ items_text [LStr ''x''] @ line_tail ''main.cpp'' 1) \<le> 4048"
    by (simp add: items_text_def)
  have ok: "log_enabled INFO WARN" "\<forall>it \<in> set [LStr ''x'']. item_ok it" "\<bar>1 :: int\<bar> < 10 ^ 20"
    by (simp_all add: log_enabled_def)
  have m: "written (bk one_message) = []" "bpc one_message = AtWhile" "sent one_message = ''hello''"
    by (simp_all add: one_message_def async_start_def Backend_new_def)
  then have "unwritten (al one_message) = ''hello''"
    using async_reach_inv [OF one_message_reach] by (simp add: async_inv_def)
  with log_statement_reaches_log [OF one_message_reach ok refl len refl, of 0] m show ?thesis
    by (auto simp: items_text_def)
qed

end
