(* ===== verification/ServerRuns.thy ===== *)
theory ServerRuns
  imports Programs
begin

text \<open>
  The program in operation: what holds in every state that is reached after \<open>main\<close> has started the
  server, whatever the order in which its threads run, the kernel reports events and clients
  connect, send and disconnect.
\<close>

section \<open>Pointers and stages\<close>

text \<open>
  Every pointer refers to a live object of its type: the connection a queued functor, a callback or
  the connection map points to, the loop and the channel of a connection, the channels epoll and the
  list of active channels point to, and the loops of the pool.
\<close>

definition live_pointers :: "net_sys \<Rightarrow> bool" where
  "live_pointers \<sigma> \<longleftrightarrow>
     (\<forall>i. \<forall>f \<in> set (todo \<sigma> i). \<forall>obj. target f = Some obj \<longrightarrow> objs (nw \<sigma>) obj \<noteq> None) \<and>
     (\<forall>fd obj. m_connections (srv (nw \<sigma>)) fd = Some obj \<longrightarrow> (\<exists>ob. objs (nw \<sigma>) obj = Some ob \<and> m_conn_fd (co_conn ob) = fd)) \<and>
     (\<forall>obj ob. objs (nw \<sigma>) obj = Some ob \<longrightarrow> m_self (co_conn ob) = obj \<and>
        (\<exists>l c. loops (nw \<sigma>) (co_loop ob) = Some l \<and> chans (m_epoller l) (m_channel (co_conn ob)) = Some c \<and>
           m_fd c = m_conn_fd (co_conn ob))) \<and>
     (\<forall>i l fd e p. loops (nw \<sigma>) i = Some l \<longrightarrow> interest (ctl_calls (m_epoller l)) fd = Some (e, p) \<longrightarrow>
        (\<exists>c. chans (m_epoller l) p = Some c \<and> m_fd c = fd)) \<and>
     (\<forall>i cbs ps. phases \<sigma> i = InEvents cbs ps \<longrightarrow>
        (\<exists>l. loops (nw \<sigma>) i = Some l \<and> set ps \<subseteq> dom (chans (m_epoller l))) \<and>
        (\<forall>cb \<in> set cbs. \<forall>obj. cb \<in> {CbRead obj, CbWrite obj, CbError obj} \<longrightarrow> objs (nw \<sigma>) obj \<noteq> None)) \<and>
     (\<forall>i \<in> set (m_loops (m_loop_thread_pool (srv (nw \<sigma>)))). loops (nw \<sigma>) i \<noteq> None)"

lemma task_target_live: "task_ok s i f \<Longrightarrow> target f = Some obj \<Longrightarrow> objs s obj \<noteq> None"
  by (cases f) (auto simp: lives_on_def)

lemma callback_live: "cb_ok s i ps cb \<Longrightarrow> cb \<in> {CbRead obj, CbWrite obj, CbError obj} \<Longrightarrow> objs s obj \<noteq> None"
  by (auto simp: handled_def)

lemma interest_chan:
  assumes "reactor_inv r" "interest (ctl_calls r) fd = Some (e, p)"
  shows "\<exists>c. chans r p = Some c \<and> m_fd c = fd \<and> m_index c = kAdded \<and> m_channels r fd = Some p"
proof -
  have reg: "registered r fd = Some (e, p)" using assms by (simp add: reactor_inv_registered)
  then obtain c where "m_channels r fd = Some p" "chans r p = Some c" "m_index c = kAdded"
    by (auto simp: registered_def split: option.splits if_splits)
  then show ?thesis using reactor_inv_mapped [OF assms(1), of fd p] by auto
qed

lemma net_ok_live:
  assumes "net_ok (nw \<sigma>) (todo \<sigma>) (phases \<sigma>)"
  shows "live_pointers \<sigma>"
proof -
  let ?s = "nw \<sigma>"
  have n: "world_inv ?s" "tasks_inv ?s (todo \<sigma>)" "events_inv ?s (phases \<sigma>)" using assms by (simp_all add: net_ok_def)
  have "objs ?s obj \<noteq> None" if "f \<in> set (todo \<sigma> i)" "target f = Some obj" for i f obj
    using n(2) that task_target_live unfolding tasks_inv_def by blast
  moreover have "\<exists>ob. objs ?s obj = Some ob \<and> m_conn_fd (co_conn ob) = fd" if "m_connections (srv ?s) fd = Some obj" for fd obj
  proof -
    have "entry_ok ?s fd obj" using n(1) that by (simp add: world_inv_def srv_inv_def)
    then show ?thesis by (auto simp: entry_ok_def split: option.splits)
  qed
  moreover have "m_self (co_conn ob) = obj \<and> (\<exists>l c. loops ?s (co_loop ob) = Some l \<and>
      chans (m_epoller l) (m_channel (co_conn ob)) = Some c \<and> m_fd c = m_conn_fd (co_conn ob))" if "objs ?s obj = Some ob" for obj ob
    using net_ok_obj [OF assms that] by (auto simp: obj_at_def conn_wf_def conn_chan_def)
  moreover have "\<exists>c. chans (m_epoller l) p = Some c \<and> m_fd c = fd"
    if "loops ?s i = Some l" "interest (ctl_calls (m_epoller l)) fd = Some (e, p)" for i l fd e p
    using n(1) that interest_chan [of "m_epoller l" fd e p] by (auto simp: world_inv_def srv_inv_def)
  moreover have "(\<exists>l. loops ?s i = Some l \<and> set ps \<subseteq> dom (chans (m_epoller l))) \<and>
      (\<forall>cb \<in> set cbs. \<forall>obj. cb \<in> {CbRead obj, CbWrite obj, CbError obj} \<longrightarrow> objs ?s obj \<noteq> None)" if "phases \<sigma> i = InEvents cbs ps" for i cbs ps
  proof (intro conjI)
    have ev: "loops ?s i \<noteq> None" "\<forall>p \<in> set ps. added ?s i p" "\<forall>cb \<in> set cbs. cb_ok ?s i ps cb"
      using n(3) that unfolding events_inv_def by auto
    then show "\<exists>l. loops ?s i = Some l \<and> set ps \<subseteq> dom (chans (m_epoller l))" by (fastforce simp: added_def)
    show "\<forall>cb \<in> set cbs. \<forall>obj. cb \<in> {CbRead obj, CbWrite obj, CbError obj} \<longrightarrow> objs ?s obj \<noteq> None"
      using ev(3) callback_live by blast
  qed
  moreover have "\<forall>i \<in> set (m_loops (m_loop_thread_pool (srv ?s))). loops ?s i \<noteq> None" using n(1) by (simp add: world_inv_def)
  ultimately show ?thesis unfolding live_pointers_def by blast
qed

text \<open>What is left of a connection that has been closed.\<close>

lemma count_about: "target f = Some obj \<Longrightarrow> count_list (about obj fs) f = count_list fs f"
  by (induction fs) (auto simp: about_def)

lemma disconnected_stage:
  assumes "obj_at st s q obj ob" "m_state (co_conn ob) = kDisconnected"
  shows "st \<in> {Closing, Removing, Detached} \<and>
    count_list (q (srv_loop (srv s))) (FRemoveConnection obj) = (if st = Closing then 1 else 0) \<and>
    count_list (q (co_loop ob)) (FDestructor obj) = (if st = Removing then 1 else 0)"
proof -
  have no: "count_list fs (FDestructor obj) = 0" if "set fs \<subseteq> {FShutDownInLoop obj}" for fs using that by (auto simp: count_list_0_iff)
  obtain c mp b where c: "stage_ok st obj (co_conn ob) c mp (about obj (q (co_loop ob))) (about obj (q (srv_loop (srv s)))) b"
    using assms(1) by (auto simp: obj_at_def)
  have "st \<in> {Closing, Removing, Detached} \<and>
    count_list (about obj (q (srv_loop (srv s)))) (FRemoveConnection obj) = (if st = Closing then 1 else 0) \<and>
    count_list (about obj (q (co_loop ob))) (FDestructor obj) = (if st = Removing then 1 else 0)"
    using c assms(2) no by (cases st) (auto simp: up_chan_def)
  then show ?thesis by (simp add: count_about)
qed

lemma detached_unregistered:
  assumes "net_ok s q ph" "obj_at Detached s q obj ob" "loops s (co_loop ob) = Some l"
  shows "interest (ctl_calls (m_epoller l)) fd \<noteq> Some (e, m_channel (co_conn ob))"
    "m_channels (m_epoller l) fd \<noteq> Some (m_channel (co_conn ob))"
proof -
  have r: "reactor_inv (m_epoller l)" using assms(1,3) by (simp add: net_ok_def world_inv_def srv_inv_def)
  show "interest (ctl_calls (m_epoller l)) fd \<noteq> Some (e, m_channel (co_conn ob))"
    using interest_chan [OF r, of fd e "m_channel (co_conn ob)"] assms(2,3) by (auto simp: obj_at_def)
  show "m_channels (m_epoller l) fd \<noteq> Some (m_channel (co_conn ob))"
    using reactor_inv_mapped [OF r, of fd "m_channel (co_conn ob)"] assms(2,3) by (auto simp: obj_at_def conn_chan_def)
qed

text \<open>
  The abstract life cycle: a map from connection objects to stages.  In a step a connection stays in
  its stage or goes on to the next one, a new one is fresh, and one that goes was in the last stage.
\<close>

definition life_step :: "(nat \<rightharpoonup> life) \<Rightarrow> (nat \<rightharpoonup> life) \<Rightarrow> bool" where
  "life_step A A' \<longleftrightarrow> (\<forall>obj. case A obj of
       None \<Rightarrow> A' obj \<in> {None, Some Fresh}
     | Some st \<Rightarrow> (case A' obj of None \<Rightarrow> st = Detached | Some st' \<Rightarrow> advances st st'))"

definition abstracts :: "(nat \<rightharpoonup> life) \<Rightarrow> net_sys \<Rightarrow> bool" where
  "abstracts A \<sigma> \<longleftrightarrow> (\<forall>obj. case objs (nw \<sigma>) obj of
       None \<Rightarrow> A obj = None
     | Some ob \<Rightarrow> (\<exists>st. A obj = Some st \<and> obj_at st (nw \<sigma>) (todo \<sigma>) obj ob))"

lemma abstraction_exists:
  assumes "net_ok (nw \<sigma>) (todo \<sigma>) (phases \<sigma>)"
  shows "\<exists>A. abstracts A \<sigma>"
proof -
  have "\<exists>x. case objs (nw \<sigma>) obj of None \<Rightarrow> x = None | Some ob \<Rightarrow> (\<exists>st. x = Some st \<and> obj_at st (nw \<sigma>) (todo \<sigma>) obj ob)" for obj
    using net_ok_obj [OF assms, of obj] by (cases "objs (nw \<sigma>) obj") auto
  then show ?thesis unfolding abstracts_def by (intro choice) blast
qed

lemma lives_refine:
  assumes "lives_go_on \<sigma> \<sigma>'" "abstracts A \<sigma>" "abstracts A' \<sigma>'"
  shows "life_step A A'"
  unfolding life_step_def
proof
  fix obj
  have l: "case objs (nw \<sigma>) obj of
       None \<Rightarrow> (\<forall>ob'. objs (nw \<sigma>') obj = Some ob' \<longrightarrow> obj_at Fresh (nw \<sigma>') (todo \<sigma>') obj ob')
     | Some ob \<Rightarrow> (\<forall>st. obj_at st (nw \<sigma>) (todo \<sigma>) obj ob \<longrightarrow>
         (case objs (nw \<sigma>') obj of None \<Rightarrow> st = Detached
          | Some ob' \<Rightarrow> (\<exists>st'. obj_at st' (nw \<sigma>') (todo \<sigma>') obj ob' \<and> advances st st')))"
    and a: "case objs (nw \<sigma>) obj of None \<Rightarrow> A obj = None | Some ob \<Rightarrow> (\<exists>st. A obj = Some st \<and> obj_at st (nw \<sigma>) (todo \<sigma>) obj ob)"
    and a': "case objs (nw \<sigma>') obj of None \<Rightarrow> A' obj = None | Some ob \<Rightarrow> (\<exists>st. A' obj = Some st \<and> obj_at st (nw \<sigma>') (todo \<sigma>') obj ob)"
    using assms unfolding lives_go_on_def abstracts_def by blast+
  show "case A obj of None \<Rightarrow> A' obj \<in> {None, Some Fresh}
     | Some st \<Rightarrow> (case A' obj of None \<Rightarrow> st = Detached | Some st' \<Rightarrow> advances st st')"
  proof (cases "objs (nw \<sigma>) obj")
    case None
    then show ?thesis using l a a' obj_at_unique by (cases "objs (nw \<sigma>') obj") auto
  next
    case (Some ob)
    then obtain st where st: "A obj = Some st" "obj_at st (nw \<sigma>) (todo \<sigma>) obj ob" using a by auto
    show ?thesis
    proof (cases "objs (nw \<sigma>') obj")
      case None
      then show ?thesis using l a' st \<open>objs (nw \<sigma>) obj = Some ob\<close> by simp
    next
      case (Some ob')
      then obtain st' where st': "obj_at st' (nw \<sigma>') (todo \<sigma>') obj ob'" "advances st st'"
        using l st(2) \<open>objs (nw \<sigma>) obj = Some ob\<close> by auto
      then have "A' obj = Some st'" using a' Some obj_at_unique by auto
      then show ?thesis using st(1) st'(2) by simp
    qed
  qed
qed

section \<open>Properties\<close>


text \<open>C9: No pointer dangles.  In every state the running server reaches, every pointer it holds refers
  to a live object of its type: queued functors, also those bound to a plain \<open>this\<close>, and pending
  callbacks to a connection object, entries of the connection map to the connection with that
  descriptor, a connection to its loop and to its channel there, epoll's data and the active
  channels to channels of that loop, and the pool to its loops.\<close>

theorem pointers_are_live: "net_reach cf \<sigma> \<Longrightarrow> live_pointers \<sigma>"
  by (rule net_ok_live [OF net_reach_inv(2)])





text \<open>A program on one processor whose first client connects: the event, and the new connection.\<close>

lemma free_descriptor:
  assumes "finite (dom (loops s))" "\<And>i l. loops s i = Some l \<Longrightarrow> finite (dom (chans (m_epoller l)))"
  shows "\<exists>fd. free_fd fd s"
proof -
  let ?fds = "\<Union>i \<in> dom (loops s). m_fd ` ran (chans (m_epoller (the (loops s i))))"
  have "finite ?fds" using assms by (intro finite_UN_I finite_imageI finite_ran) auto
  then obtain fd where "fd \<notin> ?fds" using ex_new_if_finite [OF infinite_UNIV_int] by blast
  have "m_fd c \<in> ?fds" if "loops s i = Some l" "chans (m_epoller l) p = Some c" for i l p c
    using that ranI [of "chans (m_epoller l)" p c] by (intro UN_I [of i]) auto
  then have "free_fd fd s" using \<open>fd \<notin> ?fds\<close> unfolding free_fd_def by metis
  then show ?thesis ..
qed

lemma sample_start:
  "\<exists>s base. started (runner sample_startup (\<lambda>_. 2)) s \<and> loops s 9 = Some base \<and> srv_loop (srv s) = 9 \<and>
     interest (ctl_calls (m_epoller base)) 3 = Some (0x80000003, 300) \<and>
     (\<exists>c. chans (m_epoller base) 300 = Some c \<and> sys_chan True c \<and> m_read_callback c = Some CbAccept) \<and>
     fresh_for 50 60 s \<and> (\<exists>fd. free_fd fd s)"
proof -
  obtain pl where made: "pool_made sample_startup one_started (\<lambda>_. 2) (\<lambda>_. 7) (\<lambda>_. 101) (\<lambda>_. pl)" using sample_pool_made ..
  have st: "st_tid sample_startup = 1" "st_base sample_startup = 9" "st_lfd sample_startup = 3" "st_accept_chan sample_startup = 300"
    "nat (st_hw sample_startup + 1) = 1" "st_wakeup_chan sample_startup = 100" "st_timer_chan sample_startup = 200"
    by (simp_all add: sample_startup_def)
  obtain s s0 base where s: "main_server sample_startup = Inr s"
    "main_start (pool one_started) True 1 (Timestamp_at 0) (Timestamp_at 0) 0 (with_pool_loops sample_startup (\<lambda>_. pl) s) = Inr s0"
    "objs s0 = Map.empty" "srv_loop (srv s0) = 9" "loops s0 = (\<lambda>j. if j < 1 then Some pl else if j = 9 then Some base else None)"
    "dom (chans (m_epoller base)) = {100, 200, 300}" "interest (ctl_calls (m_epoller base)) 3 = Some (0x80000003, 300)" "own_chans True base"
    "\<exists>c. chans (m_epoller base) 300 = Some c \<and> m_read_callback c = Some CbAccept"
    using program_started [OF sample_startup_ok made, of "Timestamp_at 0" "Timestamp_at 0" 0] unfolding st by blast
  have "inj_on (\<lambda>_. 2 :: nat) {..<nat (st_hw sample_startup + 1)}" by (simp add: st(5) inj_on_def)
  then have "started (runner sample_startup (\<lambda>_. 2)) s0"
    using main_started [OF sample_startup_ok made _, of "Timestamp_at 0" "Timestamp_at 0" 0] s(1,2) by (auto simp: st)
  moreover have pl: "dom (chans (m_epoller pl)) = {101}"
    using made EventLoop_new_reactor(2) by (fastforce simp: pool_made_def st)
  have "dom (loops s0) \<subseteq> {0, 9}" by (auto simp: s(5) split: if_splits)
  then have "\<exists>fd. free_fd fd s0"
    by (intro free_descriptor) (auto simp: s(5,6) pl intro: finite_subset split: if_splits)
  moreover have "60 \<notin> dom (chans (m_epoller base))" "60 \<notin> dom (chans (m_epoller pl))" by (simp_all add: s(6) pl)
  then have "fresh_for 50 60 s0" by (auto simp: fresh_for_def s(3,5) domIff split: if_splits)
  ultimately show ?thesis using s(4,7,8,9) by (intro exI [of _ s0] exI [of _ base]) (auto simp: s(5) own_chans_def)
qed

lemma sample_event:
  "\<exists>\<sigma> base c. net_reach sample_config \<sigma> \<and> phases \<sigma> 9 = InEvents [] [300] \<and> backlog (nw \<sigma>) \<noteq> [] \<and>
     loops (nw \<sigma>) 9 = Some base \<and> srv_loop (srv (nw \<sigma>)) = 9 \<and> chans (m_epoller base) 300 = Some c \<and> sys_chan True c \<and>
     m_read_callback c = Some CbAccept \<and> m_revents c = EPOLLIN \<and> fresh_for 50 60 (nw \<sigma>) \<and> (\<exists>fd. free_fd fd (nw \<sigma>)) \<and>
     (\<forall>j. j \<noteq> 9 \<longrightarrow> phases \<sigma> j = AtPoll \<and> queued_in (nw \<sigma>) j = [])"
proof -
  let ?peer = "\<lparr>m_ip = ''10.0.0.1'', m_port = 1234\<rparr>" and ?t = "runner sample_startup (\<lambda>_. 2)"
  obtain s base c fd where s: "started ?t s" "loops s 9 = Some base" "srv_loop (srv s) = 9"
    "interest (ctl_calls (m_epoller base)) 3 = Some (0x80000003, 300)" "chans (m_epoller base) 300 = Some c" "sys_chan True c"
    "m_read_callback c = Some CbAccept" "fresh_for 50 60 s" "free_fd fd s"
    using sample_start by auto
  then have none_queued: "queued_in s j = []" for j by (auto simp: started_def queued_in_def split: option.splits)
  define \<sigma>1 where "\<sigma>1 = (at_start ?t s)\<lparr>nw := s\<lparr>backlog := backlog s @ [?peer]\<rparr>\<rparr>"
  define l where "l = base\<lparr>m_epoller := put_chan (m_epoller base) 300 (setRevents c EPOLLIN), m_active_channels := [300]\<rparr>"
  define \<sigma>2 where "\<sigma>2 = goto 9 (InEvents [] [300]) \<sigma>1 (put_loop 9 l (nw \<sigma>1))"
  have r0: "net_reach sample_config (at_start ?t s)" unfolding net_reach_def using s(1) net_run.start by blast
  have "do_action sample_config (Arrive ?peer) (at_start ?t s) = Inr \<sigma>1" by (simp add: \<sigma>1_def at_start_def)
  then have r1: "net_reach sample_config \<sigma>1" using net_reach_step [OF r0, of "Arrive ?peer"] by simp
  have "enabled sample_config (Poll 9 (Inr [(EPOLLIN, 300)])) \<sigma>1"
    using s(2,4) by (auto simp: \<sigma>1_def at_start_def reports_ok_def)
  moreover have "do_action sample_config (Poll 9 (Inr [(EPOLLIN, 300)])) \<sigma>1 = Inr \<sigma>2"
    using s(2,5) by (simp add: \<sigma>2_def l_def \<sigma>1_def at_start_def epoller_poll_def deref_def)
  ultimately have "net_reach sample_config \<sigma>2" by (rule net_reach_step [OF r1])
  moreover have "fresh_for 50 60 (nw \<sigma>2)" using s(2,5,8) by (auto simp: fresh_for_def \<sigma>2_def l_def \<sigma>1_def at_start_def split: if_splits)
  moreover have "free_fd fd (nw \<sigma>2)"
    using s(2,5,9) by (fastforce simp: free_fd_def \<sigma>2_def l_def \<sigma>1_def at_start_def setRevents_def split: if_splits)
  moreover have "phases \<sigma>2 9 = InEvents [] [300]" "backlog (nw \<sigma>2) \<noteq> []" "loops (nw \<sigma>2) 9 = Some l" "srv_loop (srv (nw \<sigma>2)) = 9"
    using s(3) by (simp_all add: \<sigma>2_def \<sigma>1_def at_start_def)
  moreover have "chans (m_epoller l) 300 = Some (setRevents c EPOLLIN)" "sys_chan True (setRevents c EPOLLIN)"
    "m_read_callback (setRevents c EPOLLIN) = Some CbAccept" "m_revents (setRevents c EPOLLIN) = EPOLLIN"
    using s(6,7) by (simp_all add: l_def sys_chan_def setRevents_def)
  moreover have "\<forall>j. j \<noteq> 9 \<longrightarrow> phases \<sigma>2 j = AtPoll \<and> queued_in (nw \<sigma>2) j = []"
    using none_queued by (auto simp: \<sigma>2_def \<sigma>1_def at_start_def queued_in_def)
  ultimately show ?thesis by blast
qed

lemma sample_accept:
  "\<exists>\<sigma> a \<sigma>' ob l. net_reach sample_config \<sigma> \<and> enabled sample_config a \<sigma> \<and> do_action sample_config a \<sigma> = Inr \<sigma>' \<and>
     objs (nw \<sigma>) 50 = None \<and> objs (nw \<sigma>') 50 = Some ob \<and> loops (nw \<sigma>') (co_loop ob) = Some l \<and> m_state (co_conn ob) = kConnecting \<and>
     phases \<sigma>' (co_loop ob) = AtPoll \<and> m_pending_functors l = [FEstablished 50] \<and>
     (\<exists>fd n peer. ob = new_obj (co_loop ob) 50 fd n 60 peer \<and> chans (m_epoller l) 60 = Some (connection_channel fd 50))"
proof -
  obtain \<sigma> base c fd where s: "net_reach sample_config \<sigma>" "phases \<sigma> 9 = InEvents [] [300]" "backlog (nw \<sigma>) \<noteq> []"
     "loops (nw \<sigma>) 9 = Some base" "srv_loop (srv (nw \<sigma>)) = 9" "chans (m_epoller base) 300 = Some c" "sys_chan True c"
     "m_read_callback c = Some CbAccept" "m_revents c = EPOLLIN" "fresh_for 50 60 (nw \<sigma>)" "free_fd fd (nw \<sigma>)"
     "\<And>j. j \<noteq> 9 \<Longrightarrow> phases \<sigma> j = AtPoll \<and> queued_in (nw \<sigma>) j = []"
    using sample_event by blast
  define \<sigma>1 where "\<sigma>1 = goto 9 (InEvents [CbAccept] []) \<sigma> (nw \<sigma>)"
  define rs where "rs = (results_with [] 0)\<lparr>rs_accept := Inr fd\<rparr>"
  have "handleEvent (\<lambda>obj. objs (nw \<sigma>) obj \<noteq> None) c = [CbAccept]"
    using s(7-9) by (simp add: handleEvent_def handleEventWithGuard_def sys_chan_def event_masks)
  then have "do_action sample_config (Dispatch 9) \<sigma> = Inr \<sigma>1" using s(2,4,6) by (simp add: \<sigma>1_def deref_def)
  moreover have "enabled sample_config (Dispatch 9) \<sigma>" using s(2) by simp
  ultimately have r1: "net_reach sample_config \<sigma>1" using net_reach_step [OF s(1)] by blast
  have ok: "net_ok (nw \<sigma>1) (todo \<sigma>1) (phases \<sigma>1)" "threads_ok (thread_of \<sigma>1) (nw \<sigma>1)" "nw \<sigma>1 = nw \<sigma>"
    using net_reach_inv(1) [OF r1] by (simp_all add: net_inv_def \<sigma>1_def)
  then have w: "world_inv (nw \<sigma>)" "m_thread_id base = thread_of \<sigma>1 9" using s(4) by (simp_all add: net_ok_def threads_ok_def)
  obtain peer rest where bl: "backlog (nw \<sigma>) = peer # rest" using s(3) by (cases "backlog (nw \<sigma>)") auto
  have wk: "workers (thread_of \<sigma>1 9) (nw \<sigma>)"
    using w s(4,5) unfolding world_inv_def workers_def isInLoopThread_def by (metis option.exhaust)
  then obtain l where l: "loops (nw \<sigma>) (next_loop (nw \<sigma>)) = Some l" using next_worker [OF wk refl] by (auto simp: next_loop_def)
  have i: "next_loop (nw \<sigma>) \<noteq> 9" using next_worker [OF wk refl] s(4) w(2) by (auto simp: next_loop_def isInLoopThread_def)
  then have q: "phases \<sigma> (next_loop (nw \<sigma>)) = AtPoll" "m_pending_functors l = []" using s(12) [OF i] l by (simp_all add: queued_in_def)
  have "srv_inv (nw \<sigma>)" using w(1) by (simp add: world_inv_def)
  from accept_queued [OF this wk s(10) bl l, of rs fd sample_config 9]
  obtain s' where s': "run_callback sample_config rs (thread_of \<sigma>1 9) 9 CbAccept (nw \<sigma>1) = Inr s'"
    "objs s' = (objs (nw \<sigma>))(50 \<mapsto> new_obj (next_loop (nw \<sigma>)) 50 fd (m_next_connection_id (srv (nw \<sigma>))) 60 peer)"
    "loops s' (next_loop (nw \<sigma>)) = Some (queueInLoop (l\<lparr>m_epoller := put_chan (m_epoller l) 60 (connection_channel fd 50)\<rparr>)
       (thread_of \<sigma>1 9) (FEstablished 50))"
    using ok(3) by (auto simp: rs_def results_with_def)
  have en: "enabled sample_config (Call 9 rs) \<sigma>1"
    using s(10,11) by (simp add: \<sigma>1_def results_ok_def rs_def results_with_def)
  have run: "do_action sample_config (Call 9 rs) \<sigma>1 = Inr (goto 9 (InEvents [] []) \<sigma>1 s')" using s'(1) by (simp add: \<sigma>1_def)
  have none: "objs (nw \<sigma>1) 50 = None" using s(10) ok(3) by (simp add: fresh_for_def)
  show ?thesis
    by (rule exI [of _ \<sigma>1], rule exI [of _ "Call 9 rs"], rule exI [of _ "goto 9 (InEvents [] []) \<sigma>1 s'"])
      (use r1 en run none s'(2,3) i q in \<open>auto simp: new_obj_def TcpConnection_new_def \<sigma>1_def simp del: enabled.simps do_action.simps\<close>)
qed

lemma sample_connection:
  "\<exists>\<sigma> ob l. net_reach sample_config \<sigma> \<and> objs (nw \<sigma>) 50 = Some ob \<and> loops (nw \<sigma>) (co_loop ob) = Some l \<and> m_state (co_conn ob) = kConnecting"
  using sample_accept net_reach_step by meson


theorem pointers_are_live_witness: "\<exists>\<sigma> ob. objs (nw \<sigma>) 50 = Some ob \<and> live_pointers \<sigma>"
  using sample_connection pointers_are_live [of sample_config] by blast





end
