(* ===== verification/ClientStreams.thy ===== *)
theory ClientStreams
  imports ServerRuns
begin

text \<open>
  Who writes what to which client.  The theory follows the bytes of every connection, those written to
  its socket and those waiting in its output buffer, through every step of the running server: only
  the read and the write callback of the connection itself touch them, the one with the answer to
  what this client has sent, the other with the bytes that wait.
\<close>

section \<open>Operations that send nothing\<close>

definition silent :: "('f, 'x) ConnWorld \<Rightarrow> ('g, 'y) ConnWorld \<Rightarrow> bool" where
  "silent w w' \<longleftrightarrow> wire w' = wire w \<and> m_output_buffer (conn w') = m_output_buffer (conn w)"

lemma silent_refl [simp]: "silent w w"
  by (simp add: silent_def)

lemma silent_trans: "silent u v \<Longrightarrow> silent v w \<Longrightarrow> silent u w"
  by (simp add: silent_def)

lemma silent_updates [simp]:
  "silent w (log_line m v) = silent w v" "silent w (set_state st v) = silent w v" "silent w (v\<lparr>wr_shut := y\<rparr>) = silent w v"
  "silent w (v\<lparr>m_loop := l\<rparr>) = silent w v" "silent w (set_input b v') = silent w v'" "silent w (v\<lparr>env := x\<rparr>) = silent w v"
  "silent (log_line m w) v = silent w v" "silent (set_state st w) v = silent w v"
  by (simp_all add: silent_def log_line_def set_state_def set_input_def)

lemma chan_op_silent: "chan_op f w = Inr w' \<Longrightarrow> silent w w' \<and> env w' = env w \<and> m_state (conn w') = m_state (conn w)"
  by (auto simp: chan_op_def res_bind_eq_Inr)

lemma shutDownInLoop_silent: "shutDownInLoop strerror tid sres w = Inr w' \<Longrightarrow> silent w w' \<and> env w' = env w"
  by (auto simp: shutDownInLoop_def res_bind_eq_Inr log_line_def silent_def split: if_splits option.splits)

lemma shutDown_silent: "shutDown strerror tid sres w = Inr w' \<Longrightarrow> silent w w' \<and> env w' = env w"
  by (auto simp: shutDown_def Let_def dest!: shutDownInLoop_silent split: if_splits)

lemma handleError_silent: "handleError strerror gso w = Inr w' \<Longrightarrow> silent w w' \<and> env w' = env w"
  by (auto simp: handleError_def Let_def log_line_def silent_def)

lemma onConnection_silent: "onConnection mk tid now now' k w = Inr w' \<Longrightarrow> silent w w'"
  by (auto simp: onConnection_def res_bind_eq_Inr split: if_splits)

lemma handleIdle_silent: "handleIdleConnection mk e now now1 now2 k locked w = Inr w' \<Longrightarrow> silent w w'"
  by (auto simp: handleIdleConnection_def res_bind_eq_Inr dest!: shutDown_silent split: if_splits)

section \<open>The objects of the server\<close>

text \<open>A view of the connection \<open>obj\<close> after an operation that left all other objects alone.\<close>

definition own_only :: "nat \<Rightarrow> http_conn \<Rightarrow> http_conn \<Rightarrow> bool" where
  "own_only obj w w' \<longleftrightarrow> (\<forall>x. x \<noteq> obj \<longrightarrow> objs (env w') x = objs (env w) x)"

lemma own_only_same: "env w' = env w \<Longrightarrow> own_only obj w w'"
  by (simp add: own_only_def)

lemma own_only_trans: "own_only obj u v \<Longrightarrow> own_only obj v w \<Longrightarrow> own_only obj u w"
  by (simp add: own_only_def)

lemma with_http_own:
  assumes "with_http op w = Inr w'" "\<And>b v. op (http_of w b) = Inr v \<Longrightarrow> silent (http_of w b) v"
  shows "silent w w'" "own_only obj w w'"
  using assms by (auto simp: with_http_def res_bind_eq_Inr own_only_def silent_def)

lemma server_onConnection_own:
  assumes "server_onConnection rs tid w = Inr w'"
  shows "silent w w'" "own_only obj w w'"
  using assms with_http_own[of _ w w'] onConnection_silent unfolding server_onConnection_def Let_def by blast+

lemma remove_objs:
  "handleRemoveConnectionInLoop tid obj s = Inr s' \<Longrightarrow> objs s' = objs s"
  "handleRemoveConnection tid obj s = Inr s' \<Longrightarrow> objs s' = objs s"
  by (auto simp: handleRemoveConnectionInLoop_def handleRemoveConnection_def res_bind_eq_Inr Let_def
      split: option.splits prod.splits if_splits)

lemma server_close_own:
  assumes "server_close tid obj i w = Inr w'"
  shows "silent w w'" "own_only obj w w'"
proof -
  from assms obtain s where s: "handleRemoveConnection tid obj (unfocus obj i w) = Inr s" "focus obj s = Inr w'"
    by (auto simp: server_close_def res_bind_eq_Inr)
  then show "silent w w'" "own_only obj w w'"
    using remove_objs(2)[OF s(1)]
    by (auto simp: focus_def res_bind_eq_Inr deref_obj_def silent_def own_only_def)
qed

lemma handleClose_own:
  assumes "handleClose (server_close tid obj i) t w = Inr w'"
  shows "silent w w'" "own_only obj w w'"
proof -
  from assms obtain v where v: "chan_op disableAll (set_state kDisconnected w) = Inr v" "server_close tid obj i v = Inr w'"
    by (auto simp: handleClose_def res_bind_eq_Inr assert_then_eq_Inr)
  have "silent w v" "env v = env w" using chan_op_silent[OF v(1)] by (simp_all add: silent_def set_state_def)
  then show "silent w w'" "own_only obj w w'"
    using server_close_own[OF v(2)] silent_trans own_only_trans own_only_same by blast+
qed

text \<open>No byte is sent to a client there was, and a new connection starts without any.\<close>

definition quiet_wires :: "http_server \<Rightarrow> http_server \<Rightarrow> bool" where
  "quiet_wires s s' \<longleftrightarrow> (\<forall>x. case objs s x of
       Some ob \<Rightarrow> (\<exists>ob'. objs s' x = Some ob' \<and> co_wire ob' = co_wire ob \<and> m_output_buffer (co_conn ob') = m_output_buffer (co_conn ob))
     | None \<Rightarrow> (\<forall>ob'. objs s' x = Some ob' \<longrightarrow> co_wire ob' = [] \<and> m_output_buffer (co_conn ob') = Buffer_default))"

lemma quiet_wiresD:
  assumes "quiet_wires s s'"
  shows "objs s x = Some ob \<Longrightarrow> \<exists>ob'. objs s' x = Some ob' \<and> co_wire ob' = co_wire ob \<and>
      m_output_buffer (co_conn ob') = m_output_buffer (co_conn ob)"
    and "objs s x = None \<Longrightarrow> objs s' x = Some ob' \<Longrightarrow> co_wire ob' = [] \<and> m_output_buffer (co_conn ob') = Buffer_default"
  using spec[OF assms[unfolded quiet_wires_def], of x] by simp_all

lemma quiet_wiresI:
  assumes "\<And>x ob. objs s x = Some ob \<Longrightarrow> \<exists>ob'. objs s' x = Some ob' \<and> co_wire ob' = co_wire ob \<and>
      m_output_buffer (co_conn ob') = m_output_buffer (co_conn ob)"
    and "\<And>x ob'. objs s x = None \<Longrightarrow> objs s' x = Some ob' \<Longrightarrow> co_wire ob' = [] \<and> m_output_buffer (co_conn ob') = Buffer_default"
  shows "quiet_wires s s'"
  unfolding quiet_wires_def using assms by (auto split: option.splits)

lemma quiet_wires_same: "objs s' = objs s \<Longrightarrow> quiet_wires s s'"
  by (simp add: quiet_wires_def split: option.splits)

lemma quiet_wires_trans:
  assumes "quiet_wires s t" "quiet_wires t u"
  shows "quiet_wires s u"
proof (rule quiet_wiresI)
  fix x ob assume "objs s x = Some ob"
  from quiet_wiresD(1)[OF assms(1) this] show "\<exists>ob'. objs u x = Some ob' \<and> co_wire ob' = co_wire ob \<and>
      m_output_buffer (co_conn ob') = m_output_buffer (co_conn ob)"
    using quiet_wiresD(1)[OF assms(2)] by fastforce
next
  fix x ob' assume x: "objs s x = None" "objs u x = Some ob'"
  show "co_wire ob' = [] \<and> m_output_buffer (co_conn ob') = Buffer_default"
  proof (cases "objs t x")
    case (Some ob)
    then show ?thesis using x quiet_wiresD(2)[OF assms(1) x(1) Some] quiet_wiresD(1)[OF assms(2) Some] by auto
  qed (use x quiet_wiresD(2)[OF assms(2)] in auto)
qed

lemma on_conn_result:
  assumes "on_conn op obj s = Inr s'"
  obtains ob l w where "objs s obj = Some ob" "loops s (co_loop ob) = Some l" "op (view s ob l) = Inr w"
    "s' = unfocus obj (co_loop ob) w"
  using assms
  by (auto simp: on_conn_def focus_def res_bind_eq_Inr deref_obj_def deref_loop_def view_def split: option.splits)

lemma on_conn_quiet:
  assumes "on_conn op obj s = Inr s'"
    and "\<And>w w'. op w = Inr w' \<Longrightarrow> silent w w' \<and> own_only obj w w'"
  shows "quiet_wires s s'"
  using assms(1)
proof (rule on_conn_result)
  fix ob l w assume h: "objs s obj = Some ob" "op (view s ob l) = Inr w" "s' = unfocus obj (co_loop ob) w"
  from assms(2)[OF h(2)] show ?thesis
    using h(1,3) by (auto simp: quiet_wires_def silent_def own_only_def split: option.splits)
qed

section \<open>Functors\<close>

lemma established_own:
  assumes "connectionEstablished (server_onConnection rs tid) t w = Inr w'"
  shows "silent w w' \<and> own_only obj w w'"
proof -
  from assms obtain u v where v: "chan_op (channel_tie (m_self (conn w))) (set_state kConnected w) = Inr u"
      "chan_op enableReading u = Inr v" "server_onConnection rs tid v = Inr w'"
    by (auto simp: connectionEstablished_def res_bind_eq_Inr Let_def set_state_def)
  have "silent w v" "env v = env w"
    using chan_op_silent[OF v(1)] chan_op_silent[OF v(2)] by (simp_all add: silent_def set_state_def)
  then show ?thesis using server_onConnection_own[OF v(3)] silent_trans own_only_trans own_only_same by blast
qed

lemma destructor_own:
  assumes "connectionDestructor (server_onConnection rs tid) t w = Inr w'"
  shows "silent w w' \<and> own_only obj w w'"
proof -
  from assms obtain u v where v: "u = w \<or> chan_op disableAll (set_state kDisconnected w) = Inr u"
      "server_onConnection rs tid u = Inr v" "chan_op removeChannel v = Inr w'"
    by (auto simp: connectionDestructor_def res_bind_eq_Inr split: if_splits)
  have 1: "silent w u" "env u = env w"
    using v(1) chan_op_silent[of _ "set_state kDisconnected w" u] by (auto simp: set_state_def silent_def)
  have 2: "silent u v" "own_only obj u v" using server_onConnection_own[OF v(2)] .
  have 3: "silent v w'" "env w' = env v" using chan_op_silent[OF v(3)] by auto
  show ?thesis using 1 2 3 by (simp add: silent_def own_only_def)
qed

lemma run_server_functor_quiet:
  assumes "run_server_functor (server_onConnection rs tid) t f s = Inr s'"
  shows "quiet_wires s s'"
proof (cases f)
  case (FEstablished obj)
  then have "on_conn (connectionEstablished (server_onConnection rs tid) t) obj s = Inr s'"
    using assms by (simp add: run_server_functor_def)
  then show ?thesis using established_own by (rule on_conn_quiet)
next
  case (FDestructor obj)
  then have "on_conn (connectionDestructor (server_onConnection rs tid) t) obj s = Inr s'"
    using assms by (simp add: run_server_functor_def)
  then show ?thesis using destructor_own by (rule on_conn_quiet)
qed (use assms remove_objs(1) in \<open>auto simp: run_server_functor_def intro!: quiet_wires_same\<close>)

lemma run_functor_quiet:
  assumes "run_functor cf rs tid i f s = Inr s'" "task_ok s i f"
  shows "quiet_wires s s'"
proof (cases f)
  case (FShutDownInLoop obj)
  then have "on_conn (shutDownInLoop (cf_strerror cf) tid (rs_shutdown rs)) obj s = Inr s'"
    using assms(1) by (simp add: run_functor_def run_conn_functor_def[abs_def] Let_def)
  then show ?thesis by (rule on_conn_quiet) (use shutDownInLoop_silent own_only_same in blast)
next
  case (FOther t)
  then have "objs s' = objs s"
    using assms(1) by (auto simp: run_functor_def Let_def add_timer_functor_def res_bind_eq_Inr put_timer_def)
  then show ?thesis by (rule quiet_wires_same)
qed (use assms run_server_functor_quiet in \<open>auto simp: run_functor_def Let_def\<close>)

section \<open>Callbacks that send nothing\<close>

lemma timer_cb_quiet:
  assumes "run_timer_cb cf rs tid cb (s, rb) = Inr (s', rb')"
  shows "quiet_wires s s'"
proof (cases cb)
  case TimerEvent
  then show ?thesis using assms by (simp add: run_timer_cb_def quiet_wires_same)
next
  case (IdleConnection obj)
  show ?thesis
  proof (cases "objs s obj")
    case None
    then show ?thesis using assms IdleConnection by (simp add: run_timer_cb_def quiet_wires_same)
  next
    case (Some ob)
    then have "on_conn (with_http (handleIdleConnection FOther (call_env_of cf rs tid obj) (rs_now rs obj)
        (rs_now1 rs obj) (rs_now2 rs obj) (rs_kernel rs) True)) obj (put_timer rb s) = Inr s'"
      using assms IdleConnection by (auto simp: run_timer_cb_def res_bind_eq_Inr)
    then have "quiet_wires (put_timer rb s) s'"
      by (rule on_conn_quiet) (use with_http_own handleIdle_silent in blast)
    then show ?thesis by (simp add: quiet_wires_def)
  qed
qed

lemma run_expired_quiet:
  "run_expired (run_timer_cb cf rs tid) clock n ts (s, rb) = Inr (s', rb') \<Longrightarrow> quiet_wires s s'"
proof (induction ts arbitrary: n s rb)
  case (Cons t ts)
  then obtain u ru where u: "Timer_run (run_timer_cb cf rs tid) t (s, rb) = Inr (u, ru)"
      "run_expired (run_timer_cb cf rs tid) clock (n + 1) ts (u, handleRepeatTimer (clock n) t ru) = Inr (s', rb')"
    by (auto simp: res_bind_eq_Inr)
  have "quiet_wires s u" using u(1) timer_cb_quiet by (auto simp: Timer_run_def split: option.splits)
  then show ?case using Cons.IH[OF u(2)] by (rule quiet_wires_trans)
qed (simp add: quiet_wires_same)

lemma timer_event_quiet:
  assumes "server_timer_event cf rs tid s = Inr s'"
  shows "quiet_wires s s'"
proof (cases "rs_timer_read rs = 8")
  case False
  then show ?thesis using assms by (auto simp: server_timer_event_def res_bind_eq_Inr quiet_wires_same)
next
  case True
  obtain ex rest where sp: "lower_bound_split (rs_clock rs 0) (m_timer (up_timer (upper s))) = (ex, rest)" by fastforce
  from assms True sp obtain u rb where u: "run_expired (run_timer_cb cf rs tid) (rs_clock rs) 1 ex
      (s, (up_timer (upper s))\<lparr>m_timer := rest, deadline := None\<rparr>) = Inr (u, rb)"
    and last: "(case m_timer rb of [] \<Rightarrow> Inr (put_timer rb u) | t # _ \<Rightarrow> res_bind (deref_loop u (srv_loop (srv u))) (\<lambda>l2.
        res_bind (resetTimerFd l2 tid (rs_clock rs (1 + length ex)) (rs_kernel rs) t rb) (\<lambda>rb3. Inr (put_timer rb3 u)))) = Inr s'"
    unfolding server_timer_event_def res_bind_eq_Inr Let_def by (simp add: res_bind_eq_Inr split: prod.splits) blast
  have "objs s' = objs u" using last by (auto simp: res_bind_eq_Inr split: list.splits)
  then show ?thesis using run_expired_quiet[OF u] quiet_wires_same quiet_wires_trans by blast
qed

lemma server_runInLoop_quiet:
  "server_runInLoop (server_onConnection rs tid) t i f s = Inr s' \<Longrightarrow> quiet_wires s s'"
  by (auto simp: server_runInLoop_def res_bind_eq_Inr quiet_wires_same split: if_splits dest: run_server_functor_quiet)

lemma new_connection_quiet:
  assumes "handleNewConnection (server_onConnection rs tid) t self chan fd addr s = Inr s'" "objs s self = None"
  shows "quiet_wires s s'"
proof -
  have "\<exists>i u. server_runInLoop (server_onConnection rs tid) t i (FEstablished self) u = Inr s' \<and>
      (\<forall>x. x \<noteq> self \<longrightarrow> objs u x = objs s x) \<and>
      (\<exists>ob. objs u self = Some ob \<and> co_wire ob = [] \<and> m_output_buffer (co_conn ob) = Buffer_default)"
    using assms(1)
    by (clarsimp simp: handleNewConnection_def res_bind_eq_Inr Let_def)
      (rule exI, rule exI, rule conjI, assumption, simp add: setIPPort_def TcpConnection_new_def)
  then obtain i u where u: "server_runInLoop (server_onConnection rs tid) t i (FEstablished self) u = Inr s'"
      and new: "\<forall>x. x \<noteq> self \<longrightarrow> objs u x = objs s x"
        "\<exists>ob. objs u self = Some ob \<and> co_wire ob = [] \<and> m_output_buffer (co_conn ob) = Buffer_default" by blast
  have "quiet_wires s u"
  proof (rule quiet_wiresI)
    show "\<exists>ob'. objs u x = Some ob' \<and> co_wire ob' = co_wire ob \<and> m_output_buffer (co_conn ob') = m_output_buffer (co_conn ob)"
      if "objs s x = Some ob" for x ob using that new(1) assms(2) by (cases "x = self") auto
    show "co_wire ob' = [] \<and> m_output_buffer (co_conn ob') = Buffer_default"
      if "objs s x = None" "objs u x = Some ob'" for x ob' using that new by (cases "x = self") auto
  qed
  then show ?thesis using server_runInLoop_quiet[OF u] by (rule quiet_wires_trans)
qed

lemma waiting_fields [simp]:
  "objs (close_idle s) = objs s" "objs (set_idle fd s) = objs s" "objs (take_waiting s) = objs s"
  by (simp_all add: close_idle_def set_idle_def take_waiting_def)

lemma accept_quiet:
  assumes "run_callback cf rs tid i CbAccept s = Inr s'" "results_ok cf rs CbAccept s"
  shows "quiet_wires s s'"
proof (cases "rs_accept rs")
  case (Inl e)
  then have "objs s' = objs s" using assms(1)
    by (auto simp: run_callback_def handleConnect_def Let_def split: if_splits sum.splits)
  then show ?thesis by (rule quiet_wires_same)
next
  case (Inr fd)
  then have "objs s (rs_self rs) = None" using assms(2) by (simp add: results_ok_def fresh_for_def)
  moreover have "s' = s \<or> (\<exists>peer. handleNewConnection (server_onConnection rs tid) tid (rs_self rs) (rs_chan rs) fd peer
      ((take_waiting s)\<lparr>ntoa_buf := m_ip peer\<rparr>) = Inr s')"
    using assms(1) Inr by (auto simp: run_callback_def handleConnect_def res_bind_eq_Inr split: list.splits)
  ultimately show ?thesis using new_connection_quiet quiet_wires_same by (fastforce simp: quiet_wires_def)
qed

section \<open>Sending a message\<close>

text \<open>
  The message \<open>d\<close> is written: its first \<open>n\<close> bytes go to the socket, which is tried only when nothing
  waits, and the others wait behind what waited before, unless the append moves the indices of a
  buffer that is in use.
\<close>

definition wrote :: "char list \<Rightarrow> ('f, 'x) ConnWorld \<Rightarrow> ('f, 'y) ConnWorld \<Rightarrow> bool" where
  "wrote d w w' \<longleftrightarrow> (\<exists>n. wire w' = wire w @ take n d \<and> (outq w \<noteq> [] \<longrightarrow> n = 0) \<and>
     (outq w = [] \<or> \<not> compacts (m_output_buffer (conn w)) (int (length d)) \<longrightarrow> outq w' = outq w @ drop n d))"

text \<open>
  The message is sent on thread \<open>tid\<close>: it is written unless the write fails for good; nothing is sent
  on a connection that is not up or from another thread.
\<close>

definition hard_error :: "errno + nat \<Rightarrow> bool" where
  "hard_error wres \<longleftrightarrow> wres = Inl EPIPE \<or> wres = Inl ECONNRESET"

definition sends :: "nat \<Rightarrow> errno + nat \<Rightarrow> char list \<Rightarrow> ('f, 'x) ConnWorld \<Rightarrow> ('f, 'y) ConnWorld \<Rightarrow> bool" where
  "sends tid wres d w w' \<longleftrightarrow> (if m_state (conn w) = kConnected \<and> isInLoopThread (m_loop w) tid
     then wrote d w w' \<or> silent w w' \<and> hard_error wres else silent w w')"

lemma wrote_silent: "wrote d w v \<Longrightarrow> silent v w' \<Longrightarrow> wrote d w w'"
  by (auto simp: wrote_def silent_def outq_def)

lemma silent_wrote: "silent w v \<Longrightarrow> wrote d v w' \<Longrightarrow> wrote d w w'" "silent w w' \<Longrightarrow> wrote [] w w'"
  by (auto simp: wrote_def silent_def outq_def)

lemma http_views [simp]:
  "silent (http_of w b) v = silent w v" "silent u (of_http s v) = silent u v"
  "wrote d (http_of w b) v = wrote d w v" "wrote d w (of_http s v) = wrote d w v"
  by (simp_all add: silent_def wrote_def outq_def)

lemma sends_weak: "sends tid wres d w w' \<Longrightarrow> silent w w' \<or> wrote d w w'"
  by (auto simp: sends_def split: if_splits)

lemma sends_silent: "sends tid wres d w v \<Longrightarrow> silent v w' \<Longrightarrow> sends tid wres d w w'"
  by (auto simp: sends_def intro: wrote_silent silent_trans split: if_splits)

lemma silent_sends:
  assumes "silent w v" "m_state (conn v) = m_state (conn w)" "m_loop v = m_loop w" "sends tid wres d v w'"
  shows "sends tid wres d w w'"
  using assms by (auto simp: sends_def intro: silent_wrote(1) silent_trans split: if_splits)

lemma no_message_sends: "silent w w' \<Longrightarrow> sends tid wres [] w w'"
  by (simp add: sends_def silent_wrote(2))

lemma queue_rest_sends:
  assumes "queue_rest d w = Inr w'" "reach_inv (m_output_buffer (conn w))"
  shows "wire w' = wire w" "env w' = env w"
    "outq w = [] \<or> \<not> compacts (m_output_buffer (conn w)) (int (length d)) \<Longrightarrow> outq w' = outq w @ d"
proof -
  from assms(1) obtain b where b: "buf_append (m_output_buffer (conn w)) d = Inr b"
      "w' = w\<lparr>conn := (conn w)\<lparr>m_output_buffer := b\<rparr>\<rparr>
       \<or> chan_op enableWriting (w\<lparr>conn := (conn w)\<lparr>m_output_buffer := b\<rparr>\<rparr>) = Inr w'"
    by (auto simp: queue_rest_def res_bind_eq_Inr Let_def split: if_splits)
  have v: "silent (w\<lparr>conn := (conn w)\<lparr>m_output_buffer := b\<rparr>\<rparr>) w' \<and> env w' = env w"
    using b(2) chan_op_silent[of enableWriting "w\<lparr>conn := (conn w)\<lparr>m_output_buffer := b\<rparr>\<rparr>" w'] by auto
  then show "wire w' = wire w" "env w' = env w" by (simp_all add: silent_def)
  assume "outq w = [] \<or> \<not> compacts (m_output_buffer (conn w)) (int (length d))"
  then have "\<not> compacts (m_output_buffer (conn w)) (int (length d))"
    using assms(2) outq_empty[OF assms(2)] drained_not_compacts by (auto simp: reach_inv_def)
  then have "readable b = readable (m_output_buffer (conn w)) @ d"
    using buf_append_keeps[of "m_output_buffer (conn w)" d] assms(2) b(1) by (auto simp: reach_inv_def)
  then show "outq w' = outq w @ d" using v by (simp add: silent_def outq_def)
qed

lemma sendInLoop_sends:
  assumes "sendInLoop tid wres d w = Inr w'" "reach_inv (m_output_buffer (conn w))" "m_state (conn w) = kConnected"
  shows "wrote d w w' \<or> silent w w' \<and> hard_error wres"
proof -
  have False: "m_state (conn w) \<noteq> kDisconnected" using assms(3) by simp
  from assms(1) False obtain wr where wr: "channel_isWriting w = Inr wr"
    by (auto simp: sendInLoop_def res_bind_eq_Inr Let_def)
  define direct where "direct \<longleftrightarrow> \<not> wr \<and> outq w = []"
  define n where "n = (if direct then (case wres of Inr k \<Rightarrow> k | Inl e \<Rightarrow> 0) else 0)"
  define fault where "fault \<longleftrightarrow> direct \<and> (wres = Inl EPIPE \<or> wres = Inl ECONNRESET)"
  define v where "v = (if direct \<and> (\<exists>e. wres = Inl e \<and> e \<noteq> EAGAIN)
     then log_line ''TcpConnection::Send write failed'' (w\<lparr>wire := wire w @ take n d\<rparr>) else w\<lparr>wire := wire w @ take n d\<rparr>)"
  have v: "wire v = wire w @ take n d" "conn v = conn w" "env v = env w" "outq v = outq w"
    by (simp_all add: v_def log_line_def outq_def)
  have n: "n \<le> length d" and res: "(if \<not> fault \<and> n < length d then queue_rest (drop n d) v else Inr v) = Inr w'"
    using assms(1) False wr outq_empty[OF assms(2)]
    by (auto simp: sendInLoop_def res_bind_eq_Inr Let_def assert_then_eq_Inr first_write_def direct_def n_def fault_def v_def
        split: sum.splits if_splits)
  have n0: "outq w \<noteq> [] \<longrightarrow> n = 0" "fault \<Longrightarrow> n = 0" by (auto simp: n_def direct_def fault_def)
  show ?thesis
  proof (cases "\<not> fault \<and> n < length d")
    case True
    have q: "queue_rest (drop n d) v = Inr w'" "reach_inv (m_output_buffer (conn v))" using True res v assms(2) by simp_all
    note Q = queue_rest_sends[OF q]
    have "outq w' = outq w @ drop n d"
      if "outq w = [] \<or> \<not> compacts (m_output_buffer (conn w)) (int (length d))"
      using Q(3) that n0(1) v by auto
    then show ?thesis using Q(1,2) v n0 by (auto simp: wrote_def)
  next
    case False
    then have w': "w' = v" using res by (simp only: if_False) simp
    have "outq w' = outq w @ drop n d \<or> silent w w' \<and> hard_error wres"
      using False n n0 v w' by (auto simp: silent_def hard_error_def fault_def)
    then show ?thesis using v n0 w' by (auto simp: wrote_def)
  qed
qed

lemma send_string_sends:
  assumes "send_string tid wres src d w = Inr w'" "reach_inv (m_output_buffer (conn w))"
  shows "sends tid wres d w w'"
  using assms sendInLoop_sends[OF _ assms(2)]
  by (auto simp: send_string_def send_bytes_def sends_def split: if_splits)

lemma send_buffer_sends:
  assumes "send_buffer tid wres src b w = Inr (b', w')" "reach_inv (m_output_buffer (conn w))"
  shows "sends tid wres (readable b) w w'"
proof -
  have "Prelude.slice (m_buffer b) (peek b) (peek b + readableBytes b) = readable b"
    by (simp add: readable_def peek_def buf_defs)
  then show ?thesis using assms sendInLoop_sends[OF _ assms(2)]
    by (auto simp: send_buffer_def Let_def res_bind_eq_Inr sends_def split: if_splits)
qed

lemma handleRequest_sends:
  fixes w :: "'f http_world"
  assumes "handleRequest rc junk e request w = Inr w'" "reach_inv (m_output_buffer (conn w))"
  shows "sends (ce_tid e) (ce_write e) (response_text (reply_of rc junk request)) w w'"
proof -
  let ?r = "reply_of rc junk request"
  obtain b where b: "appendToBuffer ?r Buffer_default = Inr b" "readable b = response_text ?r"
    using appendToBuffer_front [OF front_inv_default] by auto
  from assms(1) b(1) obtain b' w1 where w1: "send_buffer (ce_tid e) (ce_write e) 0 b w = Inr (b', w1)"
      "(if closeConnection ?r then shutDown (ce_strerror e) (ce_tid e) (ce_shutdown e) w1 else Inr w1) = Inr w'"
    by (auto simp: handleRequest_def reply_of_def Let_def res_bind_eq_Inr)
  have "silent w1 w'" using w1(2) by (auto split: if_splits dest: shutDown_silent)
  then show ?thesis using send_buffer_sends[OF w1(1) assms(2)] b(2) sends_silent by metis
qed

lemma onMessage_sends:
  fixes w :: "'f http_world"
  assumes "onMessage rc junk e w = Inr w'" "reach_inv (m_output_buffer (conn w))" "buf_inv (m_input_buffer (conn w))"
  shows "sends (ce_tid e) (ce_write e) (answer rc junk (conn w) (readable (m_input_buffer (conn w)))) w w'"
proof -
  define p where "p = snd (run_lines (m_parser (conn w)) (lines_of (readable (m_input_buffer (conn w)))))"
  obtain b where b: "parseContent (m_parser (conn w)) (m_input_buffer (conn w)) = Inr (m_parse_state p, p, b)"
    using parseContent_run [OF assms(3), of "m_parser (conn w)"] unfolding p_def by blast
  define w1 where "w1 = (if m_auto_close_idle_connection (env w)
     then w\<lparr>conn := updateLastReceiveTime (ce_now e) (conn w)\<rparr> else w)"
  define w2 where "w2 = set_input (retrieveAll b) (w1\<lparr>conn := (conn w1)\<lparr>m_parser := p\<rparr>\<rparr>)"
  have w2: "silent w w2" "reach_inv (m_output_buffer (conn w2))" "m_state (conn w2) = m_state (conn w)" "m_loop w2 = m_loop w"
    using assms(2) by (simp_all add: silent_def w2_def w1_def set_input_def updateLastReceiveTime_def)
  have w1: "m_parser (conn w1) = m_parser (conn w)" "m_input_buffer (conn w1) = m_input_buffer (conn w)"
    by (simp_all add: w1_def updateLastReceiveTime_def)
  have "onMessage rc junk e w = (if m_parse_state p = kParseErrno
       then res_bind (send_string (ce_tid e) (ce_write e) 0 bad_request_text (log_line (parse_error_message (conn w2)) w2))
         (shutDown (ce_strerror e) (ce_tid e) (ce_shutdown e))
       else if m_parse_state p = kParseGotCompleteRequest then handleRequest rc junk e (m_request p) w2 else Inr w2)"
    using b w1 by (simp add: onMessage_def w1_def [symmetric] w2_def getRequest_def Let_def)
  note run = trans[OF this[symmetric] assms(1)]
  have ans: "answer rc junk (conn w) (readable (m_input_buffer (conn w))) = (if m_parse_state p = kParseErrno then bad_request_text
      else if m_parse_state p = kParseGotCompleteRequest then response_text (reply_of rc junk (m_request p)) else [])"
    by (simp add: answer_def p_def Let_def)
  consider "m_parse_state p = kParseErrno" | "m_parse_state p \<noteq> kParseErrno" "m_parse_state p = kParseGotCompleteRequest"
    | "m_parse_state p \<noteq> kParseErrno" "m_parse_state p \<noteq> kParseGotCompleteRequest" by blast
  then have "sends (ce_tid e) (ce_write e) (answer rc junk (conn w) (readable (m_input_buffer (conn w)))) w2 w'"
  proof cases
    case 1
    with run obtain v where v: "send_string (ce_tid e) (ce_write e) 0 bad_request_text (log_line (parse_error_message (conn w2)) w2) = Inr v"
        "shutDown (ce_strerror e) (ce_tid e) (ce_shutdown e) v = Inr w'"
      by (auto simp: res_bind_eq_Inr)
    have "sends (ce_tid e) (ce_write e) bad_request_text (log_line (parse_error_message (conn w2)) w2) v"
      using send_string_sends[OF v(1)] w2(2) by (simp add: log_line_def)
    then have "sends (ce_tid e) (ce_write e) bad_request_text w2 v"
      by (rule silent_sends[rotated 3]) (simp_all add: log_line_def silent_def)
    from sends_silent[OF this, of w'] shutDown_silent[OF v(2)] show ?thesis using 1 by (simp add: ans)
  next
    case 2
    then show ?thesis using run handleRequest_sends[OF _ w2(2)] unfolding ans by auto
  next
    case 3
    then show ?thesis using run by (simp add: ans no_message_sends)
  qed
  then show ?thesis by (rule silent_sends[OF w2(1,3,4)])
qed

lemma server_onMessage_sends:
  assumes "server_onMessage cf rs tid w = Inr w'" "reach_inv (m_output_buffer (conn w))" "buf_inv (m_input_buffer (conn w))"
  shows "sends tid (rs_write rs) (answer (m_response_callback cf) (rs_junk rs) (conn w) (readable (m_input_buffer (conn w)))) w w'"
    "own_only obj w w'"
proof -
  from assms(1) obtain base v where v: "onMessage (m_response_callback cf) (rs_junk rs) (call_env_of cf rs tid (m_self (conn w))) (http_of w base) = Inr v"
      "w' = of_http (env w) v"
    by (auto simp: server_onMessage_def with_http_def res_bind_eq_Inr)
  from onMessage_sends[OF v(1)] assms(2,3) v(2)
  show "sends tid (rs_write rs) (answer (m_response_callback cf) (rs_junk rs) (conn w) (readable (m_input_buffer (conn w)))) w w'"
    by (auto simp: sends_def call_env_of_def split: if_splits)
  show "own_only obj w w'" using v(2) by (simp add: own_only_def)
qed

section \<open>The read and the write callback\<close>

lemma read_sends:
  assumes "conn_handleRead (server_onMessage cf rs tid) (server_close tid obj i) strerror gso tid rv w = Inr w'"
    and "reach_inv (m_output_buffer (conn w))" "front_inv (m_input_buffer (conn w))"
  shows "own_only obj w w'" "rv = Inl e \<or> rv = Inr [] \<Longrightarrow> silent w w'"
    "rv = Inr d \<Longrightarrow> d \<noteq> [] \<Longrightarrow>
       sends tid (rs_write rs) (answer (m_response_callback cf) (rs_junk rs) (conn w) (readable (m_input_buffer (conn w)) @ d)) w w'"
    "isInLoopThread (m_loop w) tid"
proof -
  obtain n b where b: "readFd (m_input_buffer (conn w)) 0 rv = Inr (n, b)"
    using assms(1) by (auto simp: conn_handleRead_def res_bind_eq_Inr Let_def)
  define v where "v = w\<lparr>conn := (conn w)\<lparr>m_input_buffer := b\<rparr>\<rparr>"
  have v: "silent w v" "env v = env w" "reach_inv (m_output_buffer (conn v))" "m_input_buffer (conn v) = b"
    "answer rc junk (conn v) x = answer rc junk (conn w) x" for rc junk x
    using assms(2) by (simp_all add: v_def silent_def answer_def)
  have rv: "case rv of Inl e \<Rightarrow> n = -1 | Inr d \<Rightarrow> n = int (length d) \<and> front_inv b \<and> readable b = readable (m_input_buffer (conn w)) @ d"
  proof (cases rv)
    case (Inl e)
    then show ?thesis using b by (simp add: readFd_def)
  next
    case (Inr d)
    then show ?thesis using b readFd_front[OF assms(3), of 0 d] by auto
  qed
  have run: "if n > 0 then server_onMessage cf rs tid v = Inr w'
     else \<exists>u. handleClose (server_close tid obj i) tid v = Inr u \<and> silent u w' \<and> env w' = env u"
    using assms(1) b handleError_silent
    by (fastforce simp: conn_handleRead_def res_bind_eq_Inr Let_def v_def[symmetric] handleError_def log_line_def silent_def split: if_splits)
  have quiet: "silent w w' \<and> own_only obj w w'" if "\<not> n > 0"
    using run that handleClose_own[of tid obj i tid v] v(1,2) by (auto simp: silent_def own_only_def)
  have same: "m_state (conn v) = m_state (conn w)" "m_loop v = m_loop w" by (simp_all add: v_def)
  have msg: "sends tid (rs_write rs) (answer (m_response_callback cf) (rs_junk rs) (conn w) (readable b)) w w'" "own_only obj w w'"
    if "n > 0" "buf_inv b"
    using server_onMessage_sends[of cf rs tid v w'] run that v silent_sends[OF v(1) same] by (auto simp: own_only_def)
  show "own_only obj w w'" using quiet msg(2) rv by (cases rv) (auto simp: front_inv_def)
  show "silent w w'" if "rv = Inl e \<or> rv = Inr []" using that quiet rv by auto
  show "sends tid (rs_write rs) (answer (m_response_callback cf) (rs_junk rs) (conn w) (readable (m_input_buffer (conn w)) @ d)) w w'"
    if "rv = Inr d" "d \<noteq> []"
    using that rv msg(1) by (auto simp: front_inv_def)
  show "isInLoopThread (m_loop w) tid"
    using assms(1) by (auto simp: conn_handleRead_def res_bind_eq_Inr assertInLoopThread_def split: if_splits)
qed

lemma write_env:
  assumes "conn_handleWrite strerror tid wres sres w = Inr w'"
  shows "env w' = env w"
  using assms by (auto simp: conn_handleWrite_def res_bind_eq_Inr Let_def split: if_splits sum.splits
      dest!: chan_op_silent shutDownInLoop_silent)

lemma write_sends:
  assumes "conn_handleWrite strerror tid wres sres w = Inr w'" "reach_inv (m_output_buffer (conn w))" "write_bound (length (outq w)) wres"
  shows "silent w w' \<or> (\<exists>n. wres = Inr n \<and> n \<le> length (outq w) \<and> wire w' = wire w @ take n (outq w) \<and> outq w' = drop n (outq w))"
proof -
  let ?b = "m_output_buffer (conn w)"
  have sl: "Prelude.slice (m_buffer ?b) (peek ?b) (peek ?b + readableBytes ?b) = outq w"
    by (simp add: outq_def readable_def peek_def buf_defs)
  show "silent w w' \<or> (\<exists>n. wres = Inr n \<and> n \<le> length (outq w) \<and> wire w' = wire w @ take n (outq w) \<and> outq w' = drop n (outq w))"
  proof (cases wres)
    case (Inl e)
    then show ?thesis using assms(1) by (auto simp: conn_handleWrite_def res_bind_eq_Inr split: if_splits)
  next
    case (Inr n)
    then have n: "n \<le> length (outq w)" using assms(3) by (simp add: write_bound_def)
    moreover have "int (length (readable ?b)) = readableBytes ?b"
      using assms(2) by (simp add: reach_inv_def length_readable)
    ultimately obtain b where b: "retrieve ?b (int n) = Inr b" "readable b = drop n (outq w)"
      using retrieve_keeps[of ?b "int n"] assms(2) by (auto simp: outq_def reach_inv_def)
    from assms(1) Inr b(1) sl have "silent w w' \<or> wire w' = wire w @ take n (outq w) \<and>
        (n = 0 \<and> outq w' = outq w \<or> m_output_buffer (conn w') = b)"
      by (auto simp: conn_handleWrite_def res_bind_eq_Inr Let_def outq_def split: if_splits
          dest!: chan_op_silent shutDownInLoop_silent) (auto simp: silent_def)
    then show ?thesis using Inr n b(2) by (auto simp: outq_def)
  qed
qed

section \<open>Every step of the server\<close>

text \<open>The bytes that wait to be written to a client.\<close>

abbreviation waiting :: "ConnObj \<Rightarrow> char list" where
  "waiting ob \<equiv> readable (m_output_buffer (co_conn ob))"

text \<open>
  What a step may do to the bytes of the connection \<open>obj\<close>: nothing; its write callback writes the first of
  the waiting bytes; or its read callback, which has read \<open>d\<close>, sends the answer to it.
\<close>

definition stream_same :: "ConnObj \<Rightarrow> ConnObj \<Rightarrow> bool" where
  "stream_same ob ob' \<longleftrightarrow> co_wire ob' = co_wire ob \<and> m_output_buffer (co_conn ob') = m_output_buffer (co_conn ob)"

definition stream_drained :: "results \<Rightarrow> ConnObj \<Rightarrow> ConnObj \<Rightarrow> bool" where
  "stream_drained rs ob ob' \<longleftrightarrow> (\<exists>n. rs_write rs = Inr n \<and> n \<le> length (waiting ob) \<and>
     co_wire ob' = co_wire ob @ take n (waiting ob) \<and> waiting ob' = drop n (waiting ob))"

definition stream_answered :: "char list \<Rightarrow> ConnObj \<Rightarrow> ConnObj \<Rightarrow> bool" where
  "stream_answered d ob ob' \<longleftrightarrow> (\<exists>n. co_wire ob' = co_wire ob @ take n d \<and> (waiting ob \<noteq> [] \<longrightarrow> n = 0) \<and>
     (waiting ob = [] \<or> \<not> compacts (m_output_buffer (co_conn ob)) (int (length d)) \<longrightarrow> waiting ob' = waiting ob @ drop n d))"

definition callback_streams :: "config \<Rightarrow> results \<Rightarrow> chan_cb \<Rightarrow> nat \<Rightarrow> ConnObj \<Rightarrow> ConnObj \<Rightarrow> bool" where
  "callback_streams cf rs cb obj ob ob' \<longleftrightarrow> stream_same ob ob' \<or> cb = CbWrite obj \<and> stream_drained rs ob ob' \<or>
     cb = CbRead obj \<and> (\<exists>d. rs_read rs = Inr d \<and> d \<noteq> [] \<and>
       stream_answered (answer (m_response_callback cf) (rs_junk rs) (co_conn ob) (readable (m_input_buffer (co_conn ob)) @ d)) ob ob')"

lemma quiet_streams: "quiet_wires s s' \<Longrightarrow> objs s obj = Some ob \<Longrightarrow> objs s' obj = Some ob' \<Longrightarrow> stream_same ob ob'"
  using quiet_wiresD(1) unfolding stream_same_def by fastforce

lemma net_ok_buffers:
  assumes "net_ok s q ph" "objs s obj = Some ob"
  shows "reach_inv (m_output_buffer (co_conn ob))" "front_inv (m_input_buffer (co_conn ob))"
  using net_ok_obj[OF assms] by (auto simp: obj_at_def conn_wf_def)

lemma own_callback_other:
  assumes "on_conn op x s = Inr s'" "\<And>w w'. op w = Inr w' \<Longrightarrow> own_only x w w'"
    and "objs s obj = Some ob" "objs s' obj = Some ob'" "obj \<noteq> x"
  shows "stream_same ob ob'"
  using assms(1)
proof (rule on_conn_result)
  fix oc l w assume h: "op (view s oc l) = Inr w" "s' = unfocus x (co_loop oc) w"
  from assms(2)[OF h(1)] show ?thesis using h(2) assms(3-5) by (simp add: own_only_def stream_same_def)
qed

lemma read_own:
  assumes "net_ok s q ph" "run_callback cf rs tid i (CbRead obj) s = Inr s'" "objs s obj = Some ob" "objs s' obj = Some ob'"
  shows "rs_read rs = Inl e \<or> rs_read rs = Inr [] \<Longrightarrow> stream_same ob ob'"
    and "rs_read rs = Inr d \<Longrightarrow> d \<noteq> [] \<Longrightarrow> \<exists>l (w :: http_conn). isInLoopThread l tid \<and> co_wire ob' = wire w \<and> co_conn ob' = conn w \<and>
      sends tid (rs_write rs) (answer (m_response_callback cf) (rs_junk rs) (co_conn ob) (readable (m_input_buffer (co_conn ob)) @ d))
        (view s ob l) w"
proof -
  let ?op = "conn_handleRead (server_onMessage cf rs tid) (server_close tid obj i) (cf_strerror cf) (rs_so_error rs) tid (rs_read rs)"
  have "on_conn ?op obj s = Inr s'" using assms(2) by (simp add: run_callback_def)
  then obtain l w where h: "?op (view s ob l) = Inr w" "s' = unfocus obj (co_loop ob) w"
    using assms(3) by (elim on_conn_result) auto
  note R = read_sends[OF h(1), simplified, OF net_ok_buffers[OF assms(1,3)]]
  have ob': "co_wire ob' = wire w" "co_conn ob' = conn w" using h(2) assms(4) by auto
  show "stream_same ob ob'" if "rs_read rs = Inl e \<or> rs_read rs = Inr []"
    using R(2)[OF that] ob' by (simp add: stream_same_def silent_def)
  show "\<exists>l (w :: http_conn). isInLoopThread l tid \<and> co_wire ob' = wire w \<and> co_conn ob' = conn w \<and>
      sends tid (rs_write rs) (answer (m_response_callback cf) (rs_junk rs) (co_conn ob) (readable (m_input_buffer (co_conn ob)) @ d))
        (view s ob l) w" if "rs_read rs = Inr d" "d \<noteq> []"
    using R(3)[OF that] R(4) ob' by blast
qed

lemma read_other:
  assumes "net_ok s q ph" "run_callback cf rs tid i (CbRead x) s = Inr s'" "y \<noteq> x"
  shows "objs s' y = objs s y"
proof -
  let ?op = "conn_handleRead (server_onMessage cf rs tid) (server_close tid x i) (cf_strerror cf) (rs_so_error rs) tid (rs_read rs)"
  have "on_conn ?op x s = Inr s'" using assms(2) by (simp add: run_callback_def)
  then show ?thesis
  proof (rule on_conn_result)
    fix oc l w assume h: "objs s x = Some oc" "?op (view s oc l) = Inr w" "s' = unfocus x (co_loop oc) w"
    have "own_only x (view s oc l) w" using read_sends(1)[OF h(2)] net_ok_buffers[OF assms(1) h(1)] by simp
    then show ?thesis using h(3) assms(3) by (simp add: own_only_def)
  qed
qed

lemma read_streams:
  assumes "net_ok s q ph" "run_callback cf rs tid i (CbRead x) s = Inr s'"
    and o: "objs s obj = Some ob" "objs s' obj = Some ob'"
  shows "callback_streams cf rs (CbRead x) obj ob ob'"
proof (cases "obj = x")
  case False
  then show ?thesis using read_other[OF assms(1,2) False] o by (simp add: callback_streams_def stream_same_def)
next
  case True
  note R = read_own[OF assms(1) _ o]
  show ?thesis
  proof (cases "\<exists>d. rs_read rs = Inr d \<and> d \<noteq> []")
    case dat: True
    then obtain d where d: "rs_read rs = Inr d" "d \<noteq> []" by blast
    from R(2)[OF _ d] assms(2) True obtain l and w :: http_conn where w: "co_wire ob' = wire w" "co_conn ob' = conn w"
      "sends tid (rs_write rs) (answer (m_response_callback cf) (rs_junk rs) (co_conn ob) (readable (m_input_buffer (co_conn ob)) @ d)) (view s ob l) w"
      by blast
    from sends_weak[OF w(3)] show ?thesis using d True w(1,2)
      by (auto simp: wrote_def callback_streams_def stream_answered_def stream_same_def silent_def outq_def)
  next
    case False
    have "stream_same ob ob'"
    proof (cases "rs_read rs")
      case (Inl e)
      then show ?thesis using R(1) assms(2) True by blast
    next
      case (Inr d)
      then show ?thesis using R(1) assms(2) True False by blast
    qed
    then show ?thesis by (simp add: callback_streams_def)
  qed
qed

lemma write_streams:
  assumes "net_ok s q ph" "run_callback cf rs tid i (CbWrite x) s = Inr s'" "results_ok cf rs (CbWrite x) s"
    and o: "objs s obj = Some ob" "objs s' obj = Some ob'"
  shows "callback_streams cf rs (CbWrite x) obj ob ob'"
proof -
  let ?op = "conn_handleWrite (cf_strerror cf) tid (rs_write rs) (rs_shutdown rs)"
  have on: "on_conn ?op x s = Inr s'" using assms(2) by (simp add: run_callback_def)
  then show ?thesis
  proof (rule on_conn_result)
    fix oc l w assume h: "objs s x = Some oc" "?op (view s oc l) = Inr w" "s' = unfocus x (co_loop oc) w"
    have "write_bound (length (outq (view s oc l))) (rs_write rs)" using assms(3) h(1) by (simp add: results_ok_def outq_def)
    then have W: "env w = s" "silent (view s oc l) w \<or> (\<exists>n. rs_write rs = Inr n \<and> n \<le> length (waiting oc) \<and>
        wire w = co_wire oc @ take n (waiting oc) \<and> outq w = drop n (waiting oc))"
      using write_env[OF h(2)] write_sends[OF h(2)] net_ok_buffers(1)[OF assms(1) h(1)] by (simp_all add: outq_def)
    show ?thesis
    proof (cases "obj = x")
      case True
      then have "oc = ob" "co_wire ob' = wire w" "co_conn ob' = conn w" using o h by auto
      then show ?thesis using W(2) True
        by (auto simp: callback_streams_def stream_drained_def stream_same_def silent_def outq_def)
    next
      case False
      then show ?thesis using W(1) h(3) o by (simp add: callback_streams_def stream_same_def)
    qed
  qed
qed

lemma callback_quiet:
  assumes "run_callback cf rs tid i cb s = Inr s'" "results_ok cf rs cb s" "\<And>x. cb \<noteq> CbRead x" "\<And>x. cb \<noteq> CbWrite x"
  shows "quiet_wires s s'"
proof (cases cb)
  case (CbError x)
  then have "on_conn (handleError (cf_strerror cf) (rs_so_error rs)) x s = Inr s'" using assms(1) by (simp add: run_callback_def)
  then show ?thesis by (rule on_conn_quiet) (use handleError_silent own_only_same in blast)
next
  case CbTimer
  then show ?thesis using timer_event_quiet assms(1) by (simp add: run_callback_def)
next
  case CbWakeup
  then show ?thesis using assms(1) by (auto simp: run_callback_def res_bind_eq_Inr intro: quiet_wires_same)
next
  case CbAccept
  then show ?thesis using accept_quiet[of cf rs tid i s s'] assms(1,2) by simp
qed (use assms(3,4) in auto)

lemma callback_step_streams:
  assumes "net_ok s q ph" "run_callback cf rs tid i cb s = Inr s'" "results_ok cf rs cb s"
    and o: "objs s obj = Some ob" "objs s' obj = Some ob'"
  shows "callback_streams cf rs cb obj ob ob'"
proof (cases "\<exists>x. cb = CbRead x \<or> cb = CbWrite x")
  case True
  then show ?thesis using read_streams[OF assms(1) _ o] write_streams[OF assms(1) _ _ o] assms(2,3) by auto
next
  case False
  then have "quiet_wires s s'" using callback_quiet[OF assms(2,3)] by blast
  then show ?thesis using quiet_streams[OF _ o] by (simp add: callback_streams_def)
qed

lemma write_other:
  assumes "run_callback cf rs tid i (CbWrite x) s = Inr s'" "y \<noteq> x"
  shows "objs s' y = objs s y"
proof -
  let ?op = "conn_handleWrite (cf_strerror cf) tid (rs_write rs) (rs_shutdown rs)"
  have "on_conn ?op x s = Inr s'" using assms(1) by (simp add: run_callback_def)
  then show ?thesis
  proof (rule on_conn_result)
    fix oc l w assume "?op (view s oc l) = Inr w" "s' = unfocus x (co_loop oc) w"
    then show ?thesis using write_env[of "cf_strerror cf" tid] assms(2) by fastforce
  qed
qed

lemma callback_new:
  assumes "net_ok s q ph" "run_callback cf rs tid i cb s = Inr s'" "results_ok cf rs cb s"
    and o: "objs s obj = None" "objs s' obj = Some ob'"
  shows "co_wire ob' = [] \<and> m_output_buffer (co_conn ob') = Buffer_default"
proof (cases "quiet_wires s s'")
  case True
  then show ?thesis by (rule quiet_wiresD(2)[OF _ o])
next
  case False
  then obtain x where x: "cb = CbRead x \<or> cb = CbWrite x"
    using callback_quiet[OF assms(2,3)] by blast
  then obtain op where "on_conn op x s = Inr s'" using assms(2) by (auto simp: run_callback_def)
  then have "obj \<noteq> x" using o(1) by (auto elim: on_conn_result)
  then have "objs s' obj = objs s obj" using x read_other[OF assms(1)] write_other assms(2) by blast
  then show ?thesis using o by simp
qed

lemma handled_loop: "cb_ok s i ps cb \<Longrightarrow> cb \<in> {CbRead obj, CbWrite obj} \<Longrightarrow> objs s obj = Some ob \<Longrightarrow> co_loop ob = i"
  by (auto simp: handled_def)

lemma call_streams:
  assumes inv: "net_inv \<sigma>" and en: "enabled cf (Call i rs) \<sigma>" and st: "do_action cf (Call i rs) \<sigma> = Inr \<sigma>'"
    and o: "objs (nw \<sigma>) obj = Some ob" "objs (nw \<sigma>') obj = Some ob'"
  obtains cb cbs ps where "phases \<sigma> i = InEvents (cb # cbs) ps" "callback_streams cf rs cb obj ob ob'"
    "cb \<in> {CbRead obj, CbWrite obj} \<Longrightarrow> co_loop ob = i"
proof -
  from en obtain cb cbs ps where ph: "phases \<sigma> i = InEvents (cb # cbs) ps" "results_ok cf rs cb (nw \<sigma>)" by auto
  have ok: "net_ok (nw \<sigma>) (todo \<sigma>) (phases \<sigma>)" using inv by (simp add: net_inv_def)
  from st ph(1) obtain s where s: "run_callback cf rs (thread_of \<sigma> i) i cb (nw \<sigma>) = Inr s" "\<sigma>' = goto i (InEvents cbs ps) \<sigma> s"
    by (auto simp: res_bind_eq_Inr)
  have "objs s obj = Some ob'" using o(2) s(2) by simp
  from callback_step_streams[OF ok s(1) ph(2) o(1) this] have "callback_streams cf rs cb obj ob ob'" .
  moreover have "cb_ok (nw \<sigma>) i ps cb"
    using ok events_inv_drop(2)[of "nw \<sigma>" "phases \<sigma>" i cb cbs ps] ph(1) by (simp add: net_ok_def)
  ultimately show ?thesis using that[OF ph(1)] handled_loop[OF _ _ o(1)] by blast
qed

lemma functor_streams:
  assumes inv: "net_inv \<sigma>" and st: "do_action cf (RunFunctor i rs) \<sigma> = Inr \<sigma>'"
    and o: "objs (nw \<sigma>) obj = Some ob" "objs (nw \<sigma>') obj = Some ob'"
  shows "stream_same ob ob'"
proof (cases "\<exists>f fs. phases \<sigma> i = InFunctors (f # fs)")
  case True
  then obtain f fs where ph: "phases \<sigma> i = InFunctors (f # fs)" by blast
  from st ph obtain s where s: "run_functor cf rs (thread_of \<sigma> i) i f (nw \<sigma>) = Inr s" "nw \<sigma>' = s"
    by (auto simp: res_bind_eq_Inr)
  have "f \<in> set (todo \<sigma> i)" using ph by (simp add: todo_def)
  then have "task_ok (nw \<sigma>) i f" using inv by (simp add: net_inv_def net_ok_def tasks_inv_def)
  then show ?thesis using quiet_streams[OF run_functor_quiet[OF s(1)]] o s(2) by simp
next
  case False
  then show ?thesis using st o by (auto simp: stream_same_def split: phase.splits list.splits)
qed

lemma other_objs:
  assumes "do_action cf a \<sigma> = Inr \<sigma>'" "\<And>i rs. a \<noteq> Call i rs" "\<And>i rs. a \<noteq> RunFunctor i rs"
  shows "objs (nw \<sigma>') obj = objs (nw \<sigma>) obj \<or> objs (nw \<sigma>') obj = None"
  using assms
  by (cases a) (auto simp: res_bind_eq_Inr TcpConnection_destroy_def swap_functors_def Let_def split: phase.splits list.splits if_splits)

lemma other_streams:
  assumes "do_action cf a \<sigma> = Inr \<sigma>'" "\<And>i rs. a \<noteq> Call i rs" "\<And>i rs. a \<noteq> RunFunctor i rs"
    and o: "objs (nw \<sigma>) obj = Some ob" "objs (nw \<sigma>') obj = Some ob'"
  shows "stream_same ob ob'"
  using other_objs[OF assms(1-3), of obj] o by (auto simp: stream_same_def)

section \<open>The whole conversation\<close>

text \<open>
  What the server says to the client of \<open>obj\<close> in a step: the answer to what its read callback has read, if
  the connection is up.  The step is undisturbed if the write does not fail for good and the append
  does not move the indices of an output buffer that is in use.
\<close>

definition said :: "config \<Rightarrow> nat \<Rightarrow> action \<Rightarrow> net_sys \<Rightarrow> char list" where
  "said cf obj a \<sigma> =
     (case a of
        Call i rs \<Rightarrow>
          (case (phases \<sigma> i, objs (nw \<sigma>) obj, rs_read rs) of
             (InEvents (cb # cbs) ps, Some ob, Inr d) \<Rightarrow>
               if cb = CbRead obj \<and> d \<noteq> [] \<and> m_state (co_conn ob) = kConnected
               then answer (m_response_callback cf) (rs_junk rs) (co_conn ob) (readable (m_input_buffer (co_conn ob)) @ d) else []
           | _ \<Rightarrow> [])
      | _ \<Rightarrow> [])"

definition undisturbed :: "config \<Rightarrow> nat \<Rightarrow> action \<Rightarrow> net_sys \<Rightarrow> bool" where
  "undisturbed cf obj a \<sigma> \<longleftrightarrow>
     (case (a, objs (nw \<sigma>) obj) of
        (Call i rs, Some ob) \<Rightarrow> said cf obj a \<sigma> = [] \<or> \<not> hard_error (rs_write rs) \<and>
          (waiting ob = [] \<or> \<not> compacts (m_output_buffer (co_conn ob)) (int (length (said cf obj a \<sigma>))))
      | _ \<Rightarrow> True)"

text \<open>A connection since it was accepted, with everything the server has said to its client.\<close>

inductive talks :: "config \<Rightarrow> nat \<Rightarrow> net_sys \<Rightarrow> char list \<Rightarrow> bool" for cf obj where
  opened: "net_reach cf \<sigma> \<Longrightarrow> enabled cf a \<sigma> \<Longrightarrow> do_action cf a \<sigma> = Inr \<sigma>' \<Longrightarrow> objs (nw \<sigma>) obj = None \<Longrightarrow>
    objs (nw \<sigma>') obj \<noteq> None \<Longrightarrow> talks cf obj \<sigma>' []"
| goes_on: "talks cf obj \<sigma> xs \<Longrightarrow> enabled cf a \<sigma> \<Longrightarrow> undisturbed cf obj a \<sigma> \<Longrightarrow> do_action cf a \<sigma> = Inr \<sigma>' \<Longrightarrow>
    objs (nw \<sigma>') obj \<noteq> None \<Longrightarrow> talks cf obj \<sigma>' (xs @ said cf obj a \<sigma>)"

lemma talks_reach: "talks cf obj \<sigma> xs \<Longrightarrow> net_reach cf \<sigma> \<and> objs (nw \<sigma>) obj \<noteq> None"
  by (induction rule: talks.induct) (auto intro: net_reach_step)

abbreviation stream :: "ConnObj \<Rightarrow> char list" where
  "stream ob \<equiv> co_wire ob @ waiting ob"

lemma same_stream: "stream_same ob ob' \<or> stream_drained rs ob ob' \<Longrightarrow> stream ob' = stream ob"
  by (auto simp: stream_same_def stream_drained_def)

lemma no_append_compacts: "buf_inv b \<Longrightarrow> \<not> compacts b 0"
  by (simp add: compacts_def buf_inv_def buf_defs)

lemma wrote_stream:
  assumes "wrote d (view s ob l) w" "co_wire ob' = wire w" "co_conn ob' = conn w" "reach_inv (m_output_buffer (co_conn ob))"
    and "d = [] \<or> waiting ob = [] \<or> \<not> compacts (m_output_buffer (co_conn ob)) (int (length d))"
  shows "stream ob' = stream ob @ d"
  using assms no_append_compacts[of "m_output_buffer (co_conn ob)"] by (auto simp: wrote_def outq_def reach_inv_def)

lemma read_said:
  assumes "net_ok s q ph" "run_callback cf rs tid i (CbRead obj) s = Inr s'" and o: "objs s obj = Some ob" "objs s' obj = Some ob'"
    and d: "rs_read rs = Inr d" "d \<noteq> []"
    and A: "A = answer (m_response_callback cf) (rs_junk rs) (co_conn ob) (readable (m_input_buffer (co_conn ob)) @ d)"
    and ok: "m_state (co_conn ob) = kConnected \<Longrightarrow> A = [] \<or> \<not> hard_error (rs_write rs) \<and>
      (waiting ob = [] \<or> \<not> compacts (m_output_buffer (co_conn ob)) (int (length A)))"
  shows "stream ob' = stream ob @ (if m_state (co_conn ob) = kConnected then A else [])"
proof -
  from read_own(2)[OF assms(1,2) o d] obtain l and w :: http_conn where w: "isInLoopThread l tid" "co_wire ob' = wire w" "co_conn ob' = conn w"
      "sends tid (rs_write rs) A (view s ob l) w"
    unfolding A by blast
  note b = net_ok_buffers(1)[OF assms(1) o(1)]
  show ?thesis
  proof (cases "m_state (co_conn ob) = kConnected \<and> wrote A (view s ob l) w")
    case True
    then show ?thesis using wrote_stream[OF _ w(2,3) b, of A s l] ok by auto
  next
    case False
    then have "silent (view s ob l) w" "m_state (co_conn ob) = kConnected \<Longrightarrow> A = []"
      using w(1,4) ok by (auto simp: sends_def split: if_splits)
    then show ?thesis using w(2,3) by (auto simp: silent_def)
  qed
qed

lemma said_call:
  assumes "phases \<sigma> i = InEvents (cb # cbs) ps" "objs (nw \<sigma>) obj = Some ob"
  shows "said cf obj (Call i rs) \<sigma> = (case rs_read rs of Inl e \<Rightarrow> [] | Inr d \<Rightarrow>
     if cb = CbRead obj \<and> d \<noteq> [] \<and> m_state (co_conn ob) = kConnected
     then answer (m_response_callback cf) (rs_junk rs) (co_conn ob) (readable (m_input_buffer (co_conn ob)) @ d) else [])"
  using assms by (simp add: said_def split: sum.splits)

lemma step_said:
  assumes "net_reach cf \<sigma>" "enabled cf a \<sigma>" "do_action cf a \<sigma> = Inr \<sigma>'" "undisturbed cf obj a \<sigma>"
    and o: "objs (nw \<sigma>) obj = Some ob" "objs (nw \<sigma>') obj = Some ob'"
  shows "stream ob' = stream ob @ said cf obj a \<sigma>"
proof -
  note inv = net_reach_inv[OF assms(1)]
  show ?thesis
  proof (cases a)
    case (Call i rs)
    from assms(2) Call obtain cb cbs ps where ph: "phases \<sigma> i = InEvents (cb # cbs) ps" "results_ok cf rs cb (nw \<sigma>)" by auto
    from assms(3) ph(1) Call obtain s where s: "run_callback cf rs (thread_of \<sigma> i) i cb (nw \<sigma>) = Inr s" "nw \<sigma>' = s"
      by (auto simp: res_bind_eq_Inr)
    note sd = said_call[OF ph(1) o(1), of cf rs]
    have ob': "objs s obj = Some ob'" using o(2) s(2) by simp
    show ?thesis
    proof (cases "cb = CbRead obj \<and> (\<exists>d. rs_read rs = Inr d \<and> d \<noteq> [])")
      case True
      then obtain d where d: "cb = CbRead obj" "rs_read rs = Inr d" "d \<noteq> []" by blast
      have "said cf obj a \<sigma> = (if m_state (co_conn ob) = kConnected then answer (m_response_callback cf) (rs_junk rs) (co_conn ob)
          (readable (m_input_buffer (co_conn ob)) @ d) else [])"
        using sd d Call by simp
      then show ?thesis
        using read_said[OF inv(2) s(1)[unfolded d(1)] o(1) ob' d(2,3) refl] assms(4) Call o(1) by (auto simp: undisturbed_def)
    next
      case False
      have "callback_streams cf rs cb obj ob ob'" by (rule callback_step_streams[OF inv(2) s(1) ph(2) o(1) ob'])
      then have "stream ob' = stream ob" using False same_stream[of ob ob' rs] by (auto simp: callback_streams_def)
      moreover have "said cf obj a \<sigma> = []" using sd False Call by (auto split: sum.splits)
      ultimately show ?thesis by simp
    qed
  next
    case (RunFunctor i rs)
    then show ?thesis using functor_streams[OF inv(1) _ o] assms(3) same_stream by (fastforce simp: said_def)
  qed (use other_streams[OF assms(3) _ _ o] same_stream in \<open>fastforce simp: said_def\<close>)+
qed

text \<open>A connection that has just been accepted has nothing to say.\<close>

lemma new_stream:
  assumes "net_reach cf \<sigma>" "enabled cf a \<sigma>" "do_action cf a \<sigma> = Inr \<sigma>'" "objs (nw \<sigma>) obj = None" "objs (nw \<sigma>') obj = Some ob'"
  shows "stream ob' = []"
proof -
  note inv = net_reach_inv[OF assms(1)]
  have new: ?thesis if "quiet_wires (nw \<sigma>) (nw \<sigma>')"
    using quiet_wiresD(2)[OF that assms(4,5)] by simp
  have other: ?thesis if "\<And>i rs. a \<noteq> Call i rs" "\<And>i rs. a \<noteq> RunFunctor i rs"
    using other_objs[OF assms(3) that, of obj] assms(4,5) by auto
  show ?thesis
  proof (cases a)
    case (Call i rs)
    from assms(2) Call obtain cb cbs ps where ph: "phases \<sigma> i = InEvents (cb # cbs) ps" "results_ok cf rs cb (nw \<sigma>)" by auto
    from assms(3) ph(1) Call have s: "run_callback cf rs (thread_of \<sigma> i) i cb (nw \<sigma>) = Inr (nw \<sigma>')"
      by (auto simp: res_bind_eq_Inr)
    show ?thesis using callback_new[OF inv(2) s ph(2) assms(4,5)] by simp
  next
    case (RunFunctor i rs)
    from assms(2) RunFunctor obtain f fs where ph: "phases \<sigma> i = InFunctors (f # fs)" by auto
    from assms(3) ph RunFunctor have s: "run_functor cf rs (thread_of \<sigma> i) i f (nw \<sigma>) = Inr (nw \<sigma>')"
      by (auto simp: res_bind_eq_Inr)
    have "f \<in> set (todo \<sigma> i)" using ph by (simp add: todo_def)
    then have "task_ok (nw \<sigma>) i f" using inv(2) by (simp add: net_ok_def tasks_inv_def)
    then show ?thesis using run_functor_quiet[OF s] new by simp
  qed (use other in simp_all)
qed

text \<open>
  A connection that is up can be answered: its loop is woken by the channel, which epoll watches,
  dispatches the event and runs the read callback.
\<close>

lemma quiet_step:
  assumes "talks cf obj \<sigma> xs" "enabled cf a \<sigma>" "do_action cf a \<sigma> = Inr \<sigma>'" "objs (nw \<sigma>') obj \<noteq> None" "said cf obj a \<sigma> = []"
  shows "talks cf obj \<sigma>' xs"
proof -
  have "undisturbed cf obj a \<sigma>" using assms(5) by (auto simp: undisturbed_def split: action.splits option.splits)
  from talks.goes_on[OF assms(1,2) this assms(3,4)] show ?thesis by (simp add: assms(5))
qed

lemma connected_open:
  assumes "net_ok s q ph" "objs s obj = Some ob" "m_state (co_conn ob) = kConnected"
  obtains l c where "loops s (co_loop ob) = Some l" "chans (m_epoller l) (m_channel (co_conn ob)) = Some c"
    "conn_chan obj (m_conn_fd (co_conn ob)) c" "m_tied c" "reports_ok (Inr [(e, m_channel (co_conn ob))]) (m_epoller l)"
proof -
  obtain st where "obj_at st s q obj ob" using assms(1,2) by (auto simp: net_ok_def objs_inv_def)
  then obtain l c where lc: "loops s (co_loop ob) = Some l" "chans (m_epoller l) (m_channel (co_conn ob)) = Some c"
      "conn_chan obj (m_conn_fd (co_conn ob)) c" "m_index c = kAdded" "m_tied c"
      "m_channels (m_epoller l) (m_conn_fd (co_conn ob)) = Some (m_channel (co_conn ob))"
    using assms(3) by (cases st) (auto simp: obj_at_def up_chan_def)
  have "reactor_inv (m_epoller l)" using assms(1) lc(1) by (auto simp: net_ok_def world_inv_def srv_inv_def)
  then have "interest (ctl_calls (m_epoller l)) (m_conn_fd (co_conn ob)) = Some (m_events c, m_channel (co_conn ob))"
    using lc by (simp add: reactor_inv_def registered_def)
  then show ?thesis using that[OF lc(1-3,5)] by (auto simp: reports_ok_def)
qed

lemma answers_next:
  fixes rs :: results
  assumes t: "talks cf obj \<sigma> xs" and o: "objs (nw \<sigma>) obj = Some ob" "m_state (co_conn ob) = kConnected" "waiting ob = []"
    and ph: "phases \<sigma> (co_loop ob) = AtPoll" and r: "rs_read rs = Inr d" "d \<noteq> []" "rs_write rs = Inr n" "n \<le> length A"
    and A: "A = answer (m_response_callback cf) (rs_junk rs) (co_conn ob) (readable (m_input_buffer (co_conn ob)) @ d)"
  shows "\<exists>\<sigma>'. talks cf obj \<sigma>' (xs @ A)"
proof -
  let ?i = "co_loop ob" and ?p = "m_channel (co_conn ob)"
  have inv: "net_ok (nw \<sigma>) (todo \<sigma>) (phases \<sigma>)" using talks_reach[OF t] net_reach_inv by blast
  obtain l c where lc: "loops (nw \<sigma>) ?i = Some l" "chans (m_epoller l) ?p = Some c" "conn_chan obj (m_conn_fd (co_conn ob)) c"
    "m_tied c" "reports_ok (Inr [(EPOLLIN, ?p)]) (m_epoller l)"
    using connected_open[OF inv o(1,2)] .
  define s where "s = reported ?i (EPOLLIN, ?p) c l (nw \<sigma>)"
  define \<sigma>1 where "\<sigma>1 = goto ?i (InEvents [] [?p]) \<sigma> s"
  define \<sigma>2 where "\<sigma>2 = goto ?i (InEvents [CbRead obj] []) \<sigma> s"
  have s: "objs s = objs (nw \<sigma>)" "loops s ?i = Some (l\<lparr>m_epoller := put_chan (m_epoller l) ?p (setRevents c EPOLLIN), m_active_channels := [?p]\<rparr>)"
    by (simp_all add: s_def reported_def)
  have "do_action cf (Poll ?i (Inr [(EPOLLIN, ?p)])) \<sigma> = Inr \<sigma>1"
    using lc(1,2) by (simp add: \<sigma>1_def s_def reported_def epoller_poll_def deref_def)
  then have t1: "talks cf obj \<sigma>1 xs"
    by (rule quiet_step[OF t, rotated]) (use ph lc o(1) in \<open>auto simp: said_def \<sigma>1_def s\<close>)
  have "handleEvent (\<lambda>obj. objs s obj \<noteq> None) (setRevents c EPOLLIN) = [CbRead obj]"
    using lc(3) o(1) by (intro input_event[of _ obj]) (auto simp: conn_chan_def s(1))
  then have "do_action cf (Dispatch ?i) \<sigma>1 = Inr \<sigma>2" using s(2) by (simp add: \<sigma>1_def \<sigma>2_def deref_def)
  then have t2: "talks cf obj \<sigma>2 xs"
    by (rule quiet_step[OF t1, rotated]) (use o(1) in \<open>auto simp: said_def \<sigma>1_def \<sigma>2_def s\<close>)
  have 2: "phases \<sigma>2 ?i = InEvents [CbRead obj] []" "objs (nw \<sigma>2) obj = Some ob" using o(1) by (simp_all add: \<sigma>2_def s(1))
  have en: "enabled cf (Call ?i rs) \<sigma>2" using 2 r A by (simp add: results_ok_def write_bound_def)
  have said: "said cf obj (Call ?i rs) \<sigma>2 = A" using said_call[OF 2] r(1,2) o(2) A by simp
  have un: "undisturbed cf obj (Call ?i rs) \<sigma>2" using 2(2) o(3) r(3) by (simp add: undisturbed_def hard_error_def)
  obtain \<sigma>3 where \<sigma>3: "do_action cf (Call ?i rs) \<sigma>2 = Inr \<sigma>3"
    using step_ok(1)[OF _ en] talks_reach[OF t2] net_reach_inv(1) by blast
  then have "objs (nw \<sigma>3) obj \<noteq> None"
    using 2 by (auto simp: res_bind_eq_Inr run_callback_def elim!: on_conn_result)
  from talks.goes_on[OF t2 en un \<sigma>3 this] show ?thesis unfolding said by blast
qed

text \<open>The sample client is accepted, its connection established, and its request answered.\<close>

lemma sample_swapped:
  "\<exists>\<sigma> i l fd n peer. talks sample_config 50 \<sigma> [] \<and> phases \<sigma> i = InFunctors [FEstablished 50] \<and>
     objs (nw \<sigma>) 50 = Some (new_obj i 50 fd n 60 peer) \<and> loops (nw \<sigma>) i = Some l \<and>
     chans (m_epoller l) 60 = Some (connection_channel fd 50)"
proof -
  let ?cf = sample_config
  obtain \<sigma>0 a \<sigma> ob l fd n peer where s: "net_reach ?cf \<sigma>0" "enabled ?cf a \<sigma>0" "do_action ?cf a \<sigma>0 = Inr \<sigma>"
      "objs (nw \<sigma>0) 50 = None" "objs (nw \<sigma>) 50 = Some ob" "loops (nw \<sigma>) (co_loop ob) = Some l"
      "phases \<sigma> (co_loop ob) = AtPoll" "m_pending_functors l = [FEstablished 50]" "ob = new_obj (co_loop ob) 50 fd n 60 peer"
      "chans (m_epoller l) 60 = Some (connection_channel fd 50)"
    using sample_accept by blast
  let ?i = "co_loop ob"
  have t: "talks ?cf 50 \<sigma> []" using s(1-5) by (auto intro: talks.opened)
  define l1 where "l1 = l\<lparr>m_active_channels := []\<rparr>"
  define l2 where "l2 = l1\<lparr>m_calling_pending_functors := True, m_pending_functors := []\<rparr>"
  define \<sigma>1 where "\<sigma>1 = goto ?i (InEvents [] []) \<sigma> (put_loop ?i l1 (nw \<sigma>))"
  define \<sigma>2 where "\<sigma>2 = goto ?i (InFunctors [FEstablished 50]) \<sigma> (put_loop ?i l2 (nw \<sigma>))"
  have "do_action ?cf (Poll ?i (Inr [])) \<sigma> = Inr \<sigma>1" using s(6) by (simp add: \<sigma>1_def l1_def epoller_poll_def)
  then have t1: "talks ?cf 50 \<sigma>1 []"
    by (rule quiet_step[OF t, rotated]) (use s(5,6,7) in \<open>auto simp: said_def \<sigma>1_def reports_ok_def\<close>)
  have "do_action ?cf (Swap ?i) \<sigma>1 = Inr \<sigma>2"
    using s(8) by (simp add: \<sigma>1_def \<sigma>2_def l1_def l2_def swap_functors_def put_loop_def)
  then have "talks ?cf 50 \<sigma>2 []"
    by (rule quiet_step[OF t1, rotated]) (use s(5) in \<open>auto simp: said_def \<sigma>1_def \<sigma>2_def\<close>)
  moreover have "phases \<sigma>2 ?i = InFunctors [FEstablished 50]" "objs (nw \<sigma>2) 50 = Some (new_obj ?i 50 fd n 60 peer)"
    "loops (nw \<sigma>2) ?i = Some l2" "chans (m_epoller l2) 60 = Some (connection_channel fd 50)"
    using s(5,9,10) by (simp_all add: \<sigma>2_def l2_def l1_def)
  ultimately show ?thesis by blast
qed

lemma sample_talks:
  "\<exists>\<sigma> ob. talks sample_config 50 \<sigma> [] \<and> objs (nw \<sigma>) 50 = Some ob \<and> m_state (co_conn ob) = kConnected \<and> waiting ob = [] \<and>
     phases \<sigma> (co_loop ob) = AtPoll \<and> readable (m_input_buffer (co_conn ob)) = [] \<and> m_parser (co_conn ob) = HttpRequestParser_new"
proof -
  let ?cf = sample_config and ?rs = "results_with [] 0"
  obtain \<sigma> i l fd n peer where s: "talks ?cf 50 \<sigma> []" "phases \<sigma> i = InFunctors [FEstablished 50]"
      "objs (nw \<sigma>) 50 = Some (new_obj i 50 fd n 60 peer)" "loops (nw \<sigma>) i = Some l" "chans (m_epoller l) 60 = Some (connection_channel fd 50)"
    using sample_swapped by blast
  note inv = net_reach_inv[OF talks_reach[OF s(1), THEN conjunct1]]
  then have w: "world_inv (nw \<sigma>)" "threads_ok (thread_of \<sigma>) (nw \<sigma>)" by (simp_all add: net_inv_def net_ok_def)
  then obtain base where base: "loops (nw \<sigma>) (srv_loop (srv (nw \<sigma>))) = Some base" by (auto simp: world_inv_def srv_inv_def)
  obtain st where "obj_at st (nw \<sigma>) (todo \<sigma>) 50 (new_obj i 50 fd n 60 peer)" using inv(2) s(3) by (auto simp: net_ok_def objs_inv_def)
  then have fresh: "i \<noteq> srv_loop (srv (nw \<sigma>))" "m_channels (m_epoller l) fd = None"
    using s(4) by (cases st; auto simp: obj_at_def up_chan_def new_obj_def TcpConnection_new_def)+
  have thr: "isInLoopThread l (thread_of \<sigma> i)" "\<not> isInLoopThread base (thread_of \<sigma> i)" "reactor_inv (m_epoller l)"
    using w s(4) base fresh(1) by (auto simp: threads_ok_def isInLoopThread_def world_inv_def srv_inv_def)
  from established_up[OF s(3,4) fresh(1) thr(3,1) s(5) fresh(2) base thr(2), of sample_config ?rs]
  obtain s' ob l' c where s': "run_functor ?cf ?rs (thread_of \<sigma> i) i (FEstablished 50) (nw \<sigma>) = Inr s'"
    "conn_up (thread_of \<sigma> i) s' 50 ob l' c" "co_loop ob = i" "waiting ob = []" "m_parser (co_conn ob) = HttpRequestParser_new"
    by blast
  define \<sigma>1 where "\<sigma>1 = goto i (InFunctors []) \<sigma> s'"
  define \<sigma>2 where "\<sigma>2 = goto i AtPoll \<sigma> (put_loop i (l'\<lparr>m_calling_pending_functors := False\<rparr>) s')"
  have up: "objs s' 50 = Some ob" "loops s' i = Some l'" "m_state (co_conn ob) = kConnected" "readable (m_input_buffer (co_conn ob)) = []"
    using s'(2,3) by (auto simp: conn_up_def input_drained_def)
  have "do_action ?cf (RunFunctor i ?rs) \<sigma> = Inr \<sigma>1" using s(2) s'(1) by (simp add: \<sigma>1_def)
  then have t1: "talks ?cf 50 \<sigma>1 []"
    by (rule quiet_step[OF s(1), rotated]) (use s(2) up(1) in \<open>auto simp: said_def \<sigma>1_def\<close>)
  have "do_action ?cf (Finish i) \<sigma>1 = Inr \<sigma>2" using up(2) by (simp add: \<sigma>1_def \<sigma>2_def)
  then have "talks ?cf 50 \<sigma>2 []"
    by (rule quiet_step[OF t1, rotated]) (use up(1) in \<open>auto simp: said_def \<sigma>1_def \<sigma>2_def\<close>)
  moreover have "objs (nw \<sigma>2) 50 = Some ob" "phases \<sigma>2 (co_loop ob) = AtPoll" using up(1) s'(3) by (simp_all add: \<sigma>2_def)
  ultimately show ?thesis using up(3,4) s'(4,5) by blast
qed

lemma sample_answered: "\<exists>\<sigma>. talks sample_config 50 \<sigma> hello_reply"
proof -
  obtain \<sigma> ob where s: "talks sample_config 50 \<sigma> []" "objs (nw \<sigma>) 50 = Some ob" "m_state (co_conn ob) = kConnected" "waiting ob = []"
      "phases \<sigma> (co_loop ob) = AtPoll" "readable (m_input_buffer (co_conn ob)) = []" "m_parser (co_conn ob) = HttpRequestParser_new"
    using sample_talks by blast
  let ?rs = "results_with sample_request 10"
  have rs: "rs_read ?rs = Inr sample_request" "rs_write ?rs = Inr 10" "rs_junk ?rs = ([], [])" by (simp_all add: results_with_def)
  have p: "search_crlf [] = None" "m_parse_state HttpRequestParser_new = kParseRequestLine" "m_request HttpRequestParser_new = HttpRequest_new"
    by (simp_all add: HttpRequestParser_new_def)
  have "answer (resCallback [] []) ([], []) (co_conn ob) sample_request = response_text (reply_of (resCallback [] []) ([], []) sample_parsed)"
    using parsed_state[OF sample_ok p(1,2)] p(3) by (simp add: answer_def s(7) sample_request_def sample_parsed_def Let_def)
  then have A: "hello_reply = answer (m_response_callback sample_config) (rs_junk ?rs) (co_conn ob) (readable (m_input_buffer (co_conn ob)) @ sample_request)"
    using sample_reply(1) by (simp add: s(6) rs(3) sample_config_def)
  have "sample_request \<noteq> []" using request_text_ne[of _ _ _ _ "[]"] by (simp add: sample_request_def)
  from answers_next[OF s(1-5) rs(1) this rs(2) sample_reply(2) A] show ?thesis by simp
qed

section \<open>Properties\<close>

text \<open>C3: Every client gets its own bytes only.  In every state the running server reaches and whatever step it
  takes next, what has been written to a client's socket and what waits in its connection's output
  buffer stay as they are, with two exceptions.  The connection's own write callback, on its own
  loop, writes a first part of the waiting bytes and keeps the others.  The connection's own read
  callback, on its own loop, sends the answer to what this client has sent: nothing, or the answer's
  first bytes, written only if nothing waits, while the others are queued behind the waiting ones
  unless the append moves the indices of a buffer in use.  No step of another connection, no timer,
  no accepted or removed connection and no functor adds, drops or reorders a byte.\<close>

theorem own_bytes_only:
  assumes "net_reach cf \<sigma>" "enabled cf a \<sigma>" "do_action cf a \<sigma> = Inr \<sigma>'"
    and "objs (nw \<sigma>) obj = Some ob" "objs (nw \<sigma>') obj = Some ob'"
    and "ans = (\<lambda>rs d. answer (m_response_callback cf) (rs_junk rs) (co_conn ob) (readable (m_input_buffer (co_conn ob)) @ d))"
  shows "stream_same ob ob' \<or>
     (\<exists>rs cbs ps. a = Call (co_loop ob) rs \<and>
        (phases \<sigma> (co_loop ob) = InEvents (CbWrite obj # cbs) ps \<and> stream_drained rs ob ob' \<or>
         phases \<sigma> (co_loop ob) = InEvents (CbRead obj # cbs) ps \<and>
           (\<exists>d. rs_read rs = Inr d \<and> d \<noteq> [] \<and> stream_answered (ans rs d) ob ob')))"
proof (cases a)
  case (Call i rs)
  obtain cb cbs ps where "phases \<sigma> i = InEvents (cb # cbs) ps" "callback_streams cf rs cb obj ob ob'"
    "cb \<in> {CbRead obj, CbWrite obj} \<Longrightarrow> co_loop ob = i"
    using call_streams[OF net_reach_inv(1)[OF assms(1)] _ _ assms(4,5)] assms(2,3) Call by blast
  then show ?thesis using Call assms(6) by (auto simp: callback_streams_def)
next
  case (RunFunctor i rs)
  then show ?thesis using functor_streams[OF net_reach_inv(1)[OF assms(1)] _ assms(4,5)] assms(3) by simp
qed (use other_streams[OF assms(3) _ _ assms(4,5)] in auto)

theorem own_bytes_only_witness:
  "\<exists>\<sigma> \<sigma>' ob ob'. net_reach sample_config \<sigma> \<and> do_action sample_config (Arrive \<lparr>m_ip = [], m_port = 0\<rparr>) \<sigma> = Inr \<sigma>' \<and>
     objs (nw \<sigma>) 50 = Some ob \<and> objs (nw \<sigma>') 50 = Some ob' \<and> stream_same ob ob'"
proof -
  obtain \<sigma> ob where s: "net_reach sample_config \<sigma>" "objs (nw \<sigma>) 50 = Some ob" using sample_connection by blast
  let ?a = "Arrive \<lparr>m_ip = [], m_port = 0\<rparr>"
  obtain \<sigma>' where st: "do_action sample_config ?a \<sigma> = Inr \<sigma>'" "objs (nw \<sigma>') 50 = Some ob" using s(2) by auto
  have "enabled sample_config ?a \<sigma>" by simp
  from own_bytes_only[OF s(1) this st(1) s(2) st(2) refl] show ?thesis using s st by auto
qed

text \<open>C4: The whole conversation.  From the moment a connection is accepted until its object goes, in every
  interleaving with all other connections, the bytes written to the client's socket followed by
  those that still wait are exactly the concatenation of the server's answers to what this client
  has sent, in the order it sent it: one answer for each read of the connection's channel while it
  was up, and nothing else, provided no write failed for good and no append moved the indices of an
  output buffer in use.\<close>

theorem answers_in_order:
  assumes "talks cf obj \<sigma> xs" "objs (nw \<sigma>) obj = Some ob"
  shows "co_wire ob @ readable (m_output_buffer (co_conn ob)) = xs"
  using assms
proof (induction arbitrary: ob rule: talks.induct)
  case (opened \<sigma> a \<sigma>')
  then show ?case using new_stream by blast
next
  case (goes_on \<sigma> xs a \<sigma>')
  from talks_reach[OF goes_on.hyps(1)] obtain ob0 where r: "net_reach cf \<sigma>" "objs (nw \<sigma>) obj = Some ob0" by auto
  show ?case using step_said[OF r(1) goes_on.hyps(2,4,3) r(2) goes_on.prems] goes_on.IH[OF r(2)] by simp
qed

theorem answers_in_order_witness:
  "\<exists>\<sigma> ob. talks sample_config 50 \<sigma> hello_reply \<and> objs (nw \<sigma>) 50 = Some ob \<and>
     co_wire ob @ readable (m_output_buffer (co_conn ob)) = hello_reply"
proof -
  obtain \<sigma> where t: "talks sample_config 50 \<sigma> hello_reply" using sample_answered by blast
  then obtain ob where o: "objs (nw \<sigma>) 50 = Some ob" using talks_reach by blast
  show ?thesis using answers_in_order[OF t o] t o by blast
qed

end
