(* ===== verification/ResponseFiles.thy ===== *)
theory ResponseFiles
  imports HttpServers
begin

text \<open>
  The data of \<open>Http/httpresponsefile.h\<close>: the icon, a PNG file as an array of 555 bytes, and
  the home page, a raw string literal.  The page is written line by line; bytes outside ASCII
  (the UTF-8 encoding of a typographic apostrophe) and quotation marks are given by their codes.
  The theorem at the end is what a client of \<open>main.cpp\<close>'s callback reads back for them.
\<close>

section \<open>The icon\<close>

definition favicon :: string where
  "favicon = [
   CHR 0x89, CHR ''P'', CHR ''N'', CHR ''G'', CHR 0x0D, CHR 0x0A, CHR 0x1A, CHR 0x0A,
   CHR 0x00, CHR 0x00, CHR 0x00, CHR 0x0D, CHR ''I'', CHR ''H'', CHR ''D'', CHR ''R'',
   CHR 0x00, CHR 0x00, CHR 0x00, CHR 0x10, CHR 0x00, CHR 0x00, CHR 0x00, CHR 0x10,
   CHR 0x08, CHR 0x06, CHR 0x00, CHR 0x00, CHR 0x00, CHR 0x1F, CHR 0xF3, CHR 0xFF,
   CHR ''a'', CHR 0x00, CHR 0x00, CHR 0x00, CHR 0x19, CHR ''t'', CHR ''E'', CHR ''X'',
   CHR ''t'', CHR ''S'', CHR ''o'', CHR ''f'', CHR ''t'', CHR ''w'', CHR ''a'', CHR ''r'',
   CHR ''e'', CHR 0x00, CHR ''A'', CHR ''d'', CHR ''o'', CHR ''b'', CHR ''e'', CHR 0x20,
   CHR ''I'', CHR ''m'', CHR ''a'', CHR ''g'', CHR ''e'', CHR ''R'', CHR ''e'', CHR ''a'',
   CHR ''d'', CHR ''y'', CHR ''q'', CHR 0xC9, CHR ''e'', CHR 0x3C, CHR 0x00, CHR 0x00,
   CHR 0x01, CHR 0xCD, CHR ''I'', CHR ''D'', CHR ''A'', CHR ''T'', CHR ''x'', CHR 0xDA,
   CHR 0x94, CHR 0x93, CHR ''9'', CHR ''H'', CHR 0x03, CHR ''A'', CHR 0x14, CHR 0x86,
   CHR 0xFF, CHR 0x5D, CHR ''b'', CHR 0xA7, CHR 0x04, CHR ''R'', CHR 0xC4, CHR ''m'',
   CHR 0x22, CHR 0x1E, CHR 0xA0, CHR ''F'', CHR 0x24, CHR 0x08, CHR 0x16, CHR 0x16,
   CHR ''v'', CHR 0x0A, CHR ''6'', CHR 0xBA, CHR ''J'', CHR 0x9A, CHR 0x80, CHR 0x08,
   CHR ''A'', CHR 0xB4, CHR ''q'', CHR 0x85, CHR ''X'', CHR 0x89, CHR ''G'', CHR 0xB0,
   CHR ''I'', CHR 0xA9, CHR ''Q'', CHR 0x24, CHR 0xCD, CHR 0xA6, CHR 0x08, CHR 0xA4,
   CHR ''H'', CHR ''c'', CHR 0x91, CHR ''B'', CHR 0x0B, CHR 0xAF, CHR ''V'', CHR 0xC1,
   CHR ''F'', CHR 0xB4, CHR 0x15, CHR 0xCF, CHR 0x22, CHR ''X'', CHR 0x98, CHR 0x0B,
   CHR ''T'', CHR ''H'', CHR 0x8A, CHR ''d'', CHR 0x93, CHR 0x8D, CHR 0xFB, CHR ''F'',
   CHR ''g'', CHR 0xC9, CHR 0x1A, CHR 0x14, CHR 0x7D, CHR 0xF0, CHR ''f'', CHR ''v'',
   CHR ''f'', CHR 0xDF, CHR 0x7C, CHR 0xEF, CHR 0xE7, CHR ''g'', CHR ''F'', CHR 0xA8,
   CHR 0xD5, CHR ''j'', CHR ''H'', CHR 0x24, CHR 0x12, CHR 0x2A, CHR 0x00, CHR 0x05,
   CHR 0xBF, CHR ''G'', CHR 0xD4, CHR 0xEF, CHR 0xF7, CHR 0x2F, CHR ''6'', CHR 0xEC,
   CHR 0x12, CHR 0x20, CHR 0x1E, CHR 0x8F, CHR 0xD7, CHR 0xAA, CHR 0xD5, CHR 0xEA,
   CHR 0xAF, CHR ''I'', CHR ''5'', CHR ''F'', CHR 0xAA, CHR ''T'', CHR 0x5F, CHR 0x9F,
   CHR 0x22, CHR ''A'', CHR 0x2A, CHR 0x95, CHR 0x0A, CHR 0x83, CHR 0xE5, CHR ''r'',
   CHR ''9'', CHR ''d'', CHR 0xB3, CHR ''Y'', CHR 0x96, CHR 0x99, CHR ''L'', CHR 0x06,
   CHR 0xE9, CHR ''t'', CHR 0x9A, CHR 0x25, CHR 0x85, CHR 0x2C, CHR 0xCB, CHR ''T'',
   CHR 0xA7, CHR 0xC4, CHR ''b'', CHR ''1'', CHR 0xB5, CHR 0x5E, CHR 0x00, CHR 0x03,
   CHR ''h'', CHR 0x9A, CHR 0xC6, CHR 0x16, CHR 0x82, CHR 0x20, CHR ''X'', CHR ''R'',
   CHR 0x14, CHR ''E'', CHR ''6'', CHR ''S'', CHR 0x94, CHR 0xCB, CHR ''e'', CHR ''x'',
   CHR 0xBD, CHR 0x5E, CHR 0xAA, CHR ''U'', CHR ''T'', CHR 0x23, CHR ''L'', CHR 0xC0,
   CHR 0xE0, CHR 0xE2, CHR 0xC1, CHR 0x8F, CHR 0x00, CHR 0x9E, CHR 0xBC, CHR 0x09,
   CHR ''A'', CHR 0x7C, CHR 0x3E, CHR 0x1F, CHR 0x83, CHR ''D'', CHR 0x22, CHR 0x11,
   CHR 0xD5, CHR ''T'', CHR 0x40, CHR 0x3F, CHR ''8'', CHR 0x80, CHR ''w'', CHR 0xE5,
   CHR ''3'', CHR 0x07, CHR 0xB8, CHR 0x5C, CHR 0x2E, CHR ''H'', CHR 0x92, CHR 0x04,
   CHR 0x87, CHR 0xC3, CHR 0x81, CHR 0x40, CHR 0x20, CHR 0x40, CHR ''g'', CHR 0x98,
   CHR 0xE9, CHR ''6'', CHR 0x1A, CHR 0xA6, CHR ''g'', CHR 0x15, CHR 0x04, CHR 0xE3,
   CHR 0xD7, CHR 0xC8, CHR 0xBD, CHR 0x15, CHR 0xE1, CHR ''i'', CHR 0xB7, CHR ''C'',
   CHR 0xAB, CHR 0xEA, CHR ''x'', CHR 0x2F, CHR ''j'', CHR ''X'', CHR 0x92, CHR 0xBB,
   CHR 0x18, CHR 0x20, CHR 0x9F, CHR 0xCF, CHR ''3'', CHR 0xC3, CHR 0xB8, CHR 0xE9,
   CHR ''N'', CHR 0xA7, CHR 0xD3, CHR ''l'', CHR ''J'', CHR 0x00, CHR ''i'', CHR ''6'',
   CHR 0x7C, CHR 0x8E, CHR 0xE1, CHR 0xFE, CHR ''V'', CHR 0x84, CHR 0xE7, CHR 0x3C,
   CHR 0x9F, CHR ''r'', CHR 0x2B, CHR 0x3A, CHR ''B'', CHR 0x7B, CHR ''7'', CHR ''f'',
   CHR ''w'', CHR 0xAE, CHR 0x8E, CHR 0x0E, CHR 0xF3, CHR 0xBD, CHR ''R'', CHR 0xA9,
   CHR ''d'', CHR 0x02, CHR ''B'', CHR 0xAF, CHR 0x85, CHR ''2'', CHR ''f'', CHR ''F'',
   CHR 0xBA, CHR 0x0C, CHR 0xD9, CHR 0x9F, CHR 0x1D, CHR 0x9A, CHR ''l'', CHR 0x22,
   CHR 0xE6, CHR 0xC7, CHR 0x3A, CHR 0x2C, CHR 0x80, CHR 0xEF, CHR 0xC1, CHR 0x15,
   CHR 0x90, CHR 0x07, CHR 0x93, CHR 0xA2, CHR 0x28, CHR 0xA0, CHR ''S'', CHR ''j'',
   CHR 0xB1, CHR 0xB8, CHR 0xDF, CHR 0x29, CHR ''5'', CHR ''C'', CHR 0x0E, CHR 0x3F,
   CHR ''X'', CHR 0xFC, CHR 0x98, CHR 0xDA, CHR ''y'', CHR ''j'', CHR ''P'', CHR 0x40,
   CHR 0x00, CHR 0x87, CHR 0xAE, CHR 0x1B, CHR 0x17, CHR ''B'', CHR 0xB4, CHR 0x3A,
   CHR 0x3F, CHR 0xBE, CHR ''y'', CHR 0xC7, CHR 0x0A, CHR 0x26, CHR 0xB6, CHR 0xEE,
   CHR 0xD9, CHR 0x9A, CHR 0x60, CHR 0x14, CHR 0x93, CHR 0xDB, CHR 0x8F, CHR 0x0D,
   CHR 0x0A, CHR 0x2E, CHR 0xE9, CHR 0x23, CHR 0x95, CHR 0x29, CHR ''X'', CHR 0x00,
   CHR 0x27, CHR 0xEB, CHR ''n'', CHR ''V'', CHR ''p'', CHR 0xBC, CHR 0xD6, CHR 0xCB,
   CHR 0xD6, CHR ''G'', CHR 0xAB, CHR 0x3D, CHR ''l'', CHR 0x7D, CHR 0xB8, CHR 0xD2,
   CHR 0xDD, CHR 0xA0, CHR 0x60, CHR 0x83, CHR 0xBA, CHR 0xEF, CHR 0x5F, CHR 0xA4,
   CHR 0xEA, CHR 0xCC, CHR 0x02, CHR ''N'', CHR 0xAE, CHR 0x5E, CHR ''p'', CHR 0x1A,
   CHR 0xEC, CHR 0xB3, CHR 0x40, CHR ''9'', CHR 0xAC, CHR 0xFE, CHR 0xF2, CHR 0x91,
   CHR 0x89, CHR ''g'', CHR 0x91, CHR 0x85, CHR 0x21, CHR 0xA8, CHR 0x87, CHR 0xB7,
   CHR ''X'', CHR 0x7E, CHR 0x7E, CHR 0x85, CHR 0xBB, CHR 0xCD, CHR ''N'', CHR ''N'',
   CHR ''b'', CHR ''t'', CHR 0x40, CHR 0xFA, CHR 0x93, CHR 0x89, CHR 0xEC, CHR 0x1E,
   CHR 0xEC, CHR 0x86, CHR 0x02, CHR ''H'', CHR 0x26, CHR 0x93, CHR 0xD0, CHR ''u'',
   CHR 0x1D, CHR 0x7F, CHR 0x09, CHR ''2'', CHR 0x95, CHR 0xBF, CHR 0x1F, CHR 0xDB,
   CHR 0xD7, CHR ''c'', CHR 0x8A, CHR 0x1A, CHR 0xF7, CHR 0x5C, CHR 0xC1, CHR 0xFF,
   CHR 0x22, CHR ''J'', CHR 0xC3, CHR 0x87, CHR 0x00, CHR 0x03, CHR 0x00, CHR ''K'',
   CHR 0xBB, CHR 0xF8, CHR 0xD6, CHR 0x2A, CHR ''v'', CHR 0x98, CHR ''I'', CHR 0x00,
   CHR 0x00, CHR 0x00, CHR 0x00, CHR ''I'', CHR ''E'', CHR ''N'', CHR ''D'', CHR 0xAE,
   CHR ''B'', CHR 0x60, CHR 0x82]"

section \<open>The page\<close>

definition website_lines :: "string list" where
  "website_lines = [
   [],
   ''        <!DOCTYPE html>'',
   ''        <html lang='' @ [CHR 0x22] @ ''en'' @ [CHR 0x22] @ ''>'',
   ''        <head>'',
   ''            <meta charset='' @ [CHR 0x22] @ ''UTF-8'' @ [CHR 0x22] @ ''>'',
   ''            <meta name='' @ [CHR 0x22] @ ''viewport'' @ [CHR 0x22] @ '' content='' @ [CHR 0x22] @ ''width=device-width, initial-scale=1.0'' @ [CHR 0x22] @ ''>'',
   ''            <title>Ymirth - Personal Homepage</title>'',
   ''            <style>'',
   ''                body {'',
   ''                    font-family: Arial, sans-serif;'',
   ''                    margin: 20px;'',
   ''                    padding: 20px;'',
   ''                    text-align: center;'',
   ''                }'',
   [],
   ''                header {'',
   ''                    background-color: #333;'',
   ''                    color: white;'',
   ''                    padding: 10px;'',
   ''                }'',
   [],
   ''                h1 {'',
   ''                    margin-bottom: 0;'',
   ''                }'',
   [],
   ''                nav {'',
   ''                    margin-top: 20px;'',
   ''                }'',
   [],
   ''                nav a {'',
   ''                    text-decoration: none;'',
   ''                    color: #333;'',
   ''                    padding: 10px;'',
   ''                    margin: 0 10px;'',
   ''                    border-radius: 5px;'',
   ''                    background-color: #eee;'',
   ''                }'',
   [],
   ''                section {'',
   ''                    margin-top: 20px;'',
   ''                    text-align: left;'',
   ''                }'',
   [],
   ''                footer {'',
   ''                    margin-top: 20px;'',
   ''                    background-color: #333;'',
   ''                    color: white;'',
   ''                    padding: 10px;'',
   ''                }'',
   ''            </style>'',
   ''        </head>'',
   ''        <body>'',
   ''            <header>'',
   ''                <h1>Ymirth</h1>'',
   ''                <p>Software Developer</p>'',
   ''            </header>'',
   [],
   ''            <nav>'',
   ''                <a href='' @ [CHR 0x22] @ ''#about'' @ [CHR 0x22] @ ''>About Me</a>'',
   ''                <a href='' @ [CHR 0x22] @ ''#skills'' @ [CHR 0x22] @ ''>Skills</a>'',
   ''                <a href='' @ [CHR 0x22] @ ''#projects'' @ [CHR 0x22] @ ''>Projects</a>'',
   ''                <a href='' @ [CHR 0x22] @ ''#contact'' @ [CHR 0x22] @ ''>Contact</a>'',
   ''            </nav>'',
   [],
   ''            <section id='' @ [CHR 0x22] @ ''about'' @ [CHR 0x22] @ ''>'',
   ''                <h2>About Me</h2>'',
   ''                <p>I am a student major in cs in scut</p>'',
   ''                <p>I'' @ [CHR 0xE2, CHR 0x80, CHR 0x99] @ ''m currently learning distributed system and database</p>'',
   ''                <p>I'' @ [CHR 0xE2, CHR 0x80, CHR 0x99] @ ''m looking to collaborate on backend program</p>'',
   ''            </section>'',
   [],
   ''            <section id='' @ [CHR 0x22] @ ''skills'' @ [CHR 0x22] @ ''>'',
   ''                <h2>Skills</h2>'',
   ''                <ul>'',
   ''                    <li>Cpp, Python, Go</li>'',
   ''                    <li>Linux, Gdb, Network Programing, Concurency Programming</li>'',
   ''                    <li>Mysql, Redis</li>'',
   ''                </ul>'',
   ''            </section>'',
   [],
   ''            <section id='' @ [CHR 0x22] @ ''projects'' @ [CHR 0x22] @ ''>'',
   ''                <h2>Projects</h2>'',
   ''                <p>Threadpool in cpp14:<a href='' @ [CHR 0x22] @ ''https://github.com/ymirth/ThreadPool'' @ [CHR 0x22] @ '' target='' @ [CHR 0x22] @ ''_blank'' @ [CHR 0x22] @ ''>/github.com/ymirth/ThreadPool</a></p>'',
   ''                <p>HTTP Server Frame Work based on Moduo:<a href='' @ [CHR 0x22] @ ''https://github.com/ymirth/MyModuo'' @ [CHR 0x22] @ '' target='' @ [CHR 0x22] @ ''_blank'' @ [CHR 0x22] @ ''>/github.com/ymirth/webserver</a></p>'',
   ''            </section>'',
   [],
   ''            <section id='' @ [CHR 0x22] @ ''contact'' @ [CHR 0x22] @ ''>'',
   ''                <h2>Contact</h2>'',
   ''                <p>Email: ymirth123@gmail.com</p>'',
   ''                <p>GitHub: <a href='' @ [CHR 0x22] @ ''https://github.com/ymirth'' @ [CHR 0x22] @ '' target='' @ [CHR 0x22] @ ''_blank'' @ [CHR 0x22] @ ''>github.com/ymirth</a></p>'',
   ''            </section>'',
   [],
   ''            <footer>'',
   ''                &copy; 2024 Ymirth'',
   ''            </footer>'',
   ''        </body>'',
   ''        </html>'']"

definition website :: string where
  "website = concat (map (\<lambda>l. l @ [CHR 0x0A]) website_lines) @ ''    ''"

section \<open>PNG files\<close>

text \<open>
  How a client takes a PNG file apart: after the signature, chunks of a length in four bytes, a
  type, the data and a checksum.
\<close>

definition png_signature :: string where
  "png_signature = [CHR 0x89, CHR ''P'', CHR ''N'', CHR ''G'', CHR 0x0D, CHR 0x0A, CHR 0x1A, CHR 0x0A]"

definition be_nat :: "string \<Rightarrow> nat" where
  "be_nat xs = foldl (\<lambda>n c. 256 * n + of_char c) 0 xs"

function png_chunks :: "string \<Rightarrow> (string \<times> nat) list option" where
  "png_chunks xs =
     (if xs = [] then Some []
      else if length xs < 12 \<or> length xs < be_nat (take 4 xs) + 12 then None
      else map_option (Cons (take 4 (drop 4 xs), be_nat (take 4 xs))) (png_chunks (drop (be_nat (take 4 xs) + 12) xs)))"
  by pat_completeness auto
termination
  by (relation "measure length") auto

declare png_chunks.simps [simp del]

section \<open>Lemmas\<close>

lemma favicon_length: "length favicon = 555"
  by (simp add: favicon_def)

lemma website_length: "length website = 3111"
  by (simp add: website_def website_lines_def)

lemma favicon_png:
  "take 8 favicon = png_signature"
  "png_chunks (drop 8 favicon) = Some [(''IHDR'', 13), (''tEXt'', 25), (''IDAT'', 461), (''IEND'', 0)]"
  by (simp_all add: favicon_def png_signature_def png_chunks.simps be_nat_def)

lemma decimals: "int_dec 200 = ''200''" "nat_dec 555 = ''555''" "nat_dec 3111 = ''3111''"
  by code_simp+

lemma reply_read:
  assumes "m_method request = kGet" "reply = reply_of (resCallback page icon) junk request"
  shows "m_path request = ''/'' \<Longrightarrow> head_lines reply = [''HTTP/1.1 200 OK''] @
      (if wants_close junk request then [''Connection: close'']
       else [''Content-length: '' @ nat_dec (length page), ''Connection: Keep-Alive'']) @
      [''Content-type: text/html'', ''Server: Ymirth server''] \<and> m_body reply = page"
    and "m_path request = ''/favicon.ico'' \<or> m_path request = ''/favicon'' \<Longrightarrow> head_lines reply = [''HTTP/1.1 200 OK''] @
      (if wants_close junk request then [''Connection: close'']
       else [''Content-length: '' @ nat_dec (length icon), ''Connection: Keep-Alive'']) @
      [''Content-type: image/png'', ''Server: Ymirth server''] \<and> m_body reply = icon"
  using assms
  by (auto simp: reply_of_def resCallback_def head_lines_def HttpResponse_new_def setStatusCode_def setStatusMessage_def
      setContentType_def setBody_def m_server_name_def decimals)

lemma reply_message:
  assumes "m_method request = kGet" "reply = reply_of (resCallback page icon) junk request"
  shows "read_message (response_text reply) = Some (head_lines reply, m_body reply)"
proof -
  have "CHR 0x0A \<notin> set (m_status_message reply)" "CHR 0x0A \<notin> set (m_type reply)"
    using assms by (auto simp: reply_of_def resCallback_def HttpResponse_new_def setStatusCode_def setStatusMessage_def
      setContentType_def setBody_def setCloseConnection_def)
  from read_message_lines[OF head_lines_crlf_free[OF this], of "m_body reply"]
  show ?thesis by (simp add: response_text_def)
qed



end
