(* ===== verification/ThreadPools.thy ===== *)
theory ThreadPools
  imports Prelude "HOL-Library.Multiset"
begin

text \<open>
  The worker thread pool of \<open>threadpool.hpp\<close>: a task list under a mutex, a condition
  variable, and worker threads that take tasks from the front.  The workers, the callers of
  \<open>append\<close> and the caller of \<open>shutdown\<close> are a step relation at the granularity of the
  sections under the mutex and of the notifications.  A task is a value of an arbitrary type.
\<close>

section \<open>State\<close>

record 't threadpool =
  m_taskList :: "'t list"
  m_stop :: bool
  m_thread_number :: int

definition threadpool_new :: "int \<Rightarrow> 't threadpool result" where
  "threadpool_new thread_number =
     (if thread_number \<le> 0 then Inl StdException
      else Inr \<lparr>m_taskList = [], m_stop = False, m_thread_number = thread_number\<rparr>)"

text \<open>
  A worker is about to test the predicate of the condition variable under the lock, blocked on
  the variable, running a task outside the lock, or has left its loop.
\<close>

datatype 't worker = Testing | Sleeping | Running 't | Exited

text \<open>
  The system: the pool, its workers, how many calls of \<open>append\<close> have still to notify, whether
  \<open>shutdown\<close> has still to notify all; and, as history, the tasks that were appended, started
  and finished.
\<close>

record 't tp_sys =
  tp :: "'t threadpool"
  m_workers :: "'t worker list"
  to_notify :: nat
  to_notify_all :: bool
  appended :: "'t list"
  begun :: "'t list"
  finished :: "'t list"

text \<open>\<open>init\<close> creates the threads.\<close>

definition tp_init :: "'t threadpool \<Rightarrow> 't tp_sys" where
  "tp_init p = \<lparr>tp = p, m_workers = replicate (nat (m_thread_number p)) Testing, to_notify = 0,
     to_notify_all = False, appended = [], begun = [], finished = []\<rparr>"

section \<open>Operations\<close>

text \<open>The sections of \<open>append\<close> and \<open>shutdown\<close> under the lock.\<close>

definition tp_append :: "'t \<Rightarrow> 't tp_sys \<Rightarrow> 't tp_sys" where
  "tp_append task s =
     s\<lparr>tp := (tp s)\<lparr>m_taskList := m_taskList (tp s) @ [task]\<rparr>, to_notify := to_notify s + 1,
       appended := appended s @ [task]\<rparr>"

definition tp_shutdown :: "'t tp_sys \<Rightarrow> 't tp_sys" where
  "tp_shutdown s = s\<lparr>tp := (tp s)\<lparr>m_stop := True\<rparr>, to_notify_all := True\<rparr>"

text \<open>The section of \<open>threadFunc\<close> under the lock: wait, leave the loop, or take a task.\<close>

definition worker_test :: "nat \<Rightarrow> 't tp_sys \<Rightarrow> 't tp_sys" where
  "worker_test i s =
     (if m_taskList (tp s) = [] \<and> \<not> m_stop (tp s) then s\<lparr>m_workers := (m_workers s)[i := Sleeping]\<rparr>
      else if m_stop (tp s) then s\<lparr>m_workers := (m_workers s)[i := Exited]\<rparr>
      else let task = hd (m_taskList (tp s))
           in s\<lparr>tp := (tp s)\<lparr>m_taskList := tl (m_taskList (tp s))\<rparr>,
                m_workers := (m_workers s)[i := Running task], begun := begun s @ [task]\<rparr>)"

definition worker_done :: "nat \<Rightarrow> 't \<Rightarrow> 't tp_sys \<Rightarrow> 't tp_sys" where
  "worker_done i task s = s\<lparr>m_workers := (m_workers s)[i := Testing], finished := finished s @ [task]\<rparr>"

definition wake :: "'t worker \<Rightarrow> 't worker" where
  "wake w = (case w of Sleeping \<Rightarrow> Testing | _ \<Rightarrow> w)"

text \<open>\<open>tp_step\<close> are the steps of the pool itself, \<open>tp_reach\<close> adds its callers and spurious wake-ups.\<close>

inductive tp_step :: "'t tp_sys \<Rightarrow> 't tp_sys \<Rightarrow> bool" where
  test: "i < length (m_workers s) \<Longrightarrow> m_workers s ! i = Testing \<Longrightarrow> tp_step s (worker_test i s)"
| run: "i < length (m_workers s) \<Longrightarrow> m_workers s ! i = Running task \<Longrightarrow> tp_step s (worker_done i task s)"
| notify_one: "to_notify s > 0 \<Longrightarrow> i < length (m_workers s) \<Longrightarrow> m_workers s ! i = Sleeping \<Longrightarrow>
     tp_step s (s\<lparr>to_notify := to_notify s - 1, m_workers := (m_workers s)[i := Testing]\<rparr>)"
| notify_none: "to_notify s > 0 \<Longrightarrow> Sleeping \<notin> set (m_workers s) \<Longrightarrow>
     tp_step s (s\<lparr>to_notify := to_notify s - 1\<rparr>)"
| notify_all: "to_notify_all s \<Longrightarrow>
     tp_step s (s\<lparr>to_notify_all := False, m_workers := map wake (m_workers s)\<rparr>)"

inductive tp_reach :: "int \<Rightarrow> 't tp_sys \<Rightarrow> bool" for n where
  start: "threadpool_new n = Inr p \<Longrightarrow> tp_reach n (tp_init p)"
| step: "tp_reach n s \<Longrightarrow> tp_step s t \<Longrightarrow> tp_reach n t"
| append: "tp_reach n s \<Longrightarrow> tp_reach n (tp_append task s)"
| shutdown: "tp_reach n s \<Longrightarrow> tp_reach n (tp_shutdown s)"
| spurious: "tp_reach n s \<Longrightarrow> i < length (m_workers s) \<Longrightarrow> m_workers s ! i = Sleeping \<Longrightarrow>
     tp_reach n (s\<lparr>m_workers := (m_workers s)[i := Testing]\<rparr>)"

inductive_simps tp_step_iff: "tp_step s t"

section \<open>Invariant\<close>

text \<open>Sums over the workers: the tasks that are running, and how many workers are about to test.\<close>

definition task_of :: "'t worker \<Rightarrow> 't multiset" where
  "task_of w = (case w of Running t \<Rightarrow> {#t#} | _ \<Rightarrow> {#})"

definition running :: "'t worker list \<Rightarrow> 't multiset" where
  "running ws = sum_list (map task_of ws)"

definition is_testing :: "'t worker \<Rightarrow> nat" where
  "is_testing w = (if w = Testing then 1 else 0)"

definition testing :: "'t worker list \<Rightarrow> nat" where
  "testing ws = sum_list (map is_testing ws)"

text \<open>
  Tasks are begun in the order they were appended, each once; every begun task is finished or
  running; before a shutdown a sleeping worker leaves no more tasks than there are workers awake and notifications
  to come; and after a shutdown a sleeping worker is still to be notified.
\<close>

definition tp_inv :: "int \<Rightarrow> 't tp_sys \<Rightarrow> bool" where
  "tp_inv n s \<longleftrightarrow> 0 < n \<and> length (m_workers s) = nat n \<and>
     begun s @ m_taskList (tp s) = appended s \<and>
     mset (begun s) = mset (finished s) + running (m_workers s) \<and>
     (\<not> m_stop (tp s) \<longrightarrow> Sleeping \<in> set (m_workers s) \<longrightarrow>
        length (m_taskList (tp s)) \<le> to_notify s + testing (m_workers s)) \<and>
     (m_stop (tp s) \<longrightarrow> Sleeping \<in> set (m_workers s) \<longrightarrow> to_notify_all s) \<and>
     (Exited \<in> set (m_workers s) \<longrightarrow> m_stop (tp s))"

lemma sum_update:
  fixes f :: "'a \<Rightarrow> 'b::comm_monoid_add"
  assumes "i < length ws"
  shows "sum_list (map f (ws[i := w])) + f (ws ! i) = sum_list (map f ws) + f w"
  using assms
proof (induction ws arbitrary: i)
  case (Cons x ws)
  then show ?case by (cases i) (simp_all add: ac_simps)
qed simp

lemma task_of_simps [simp]: "task_of Testing = {#}" "task_of Sleeping = {#}" "task_of (Running t) = {#t#}"
  "task_of Exited = {#}" "task_of (wake w) = task_of w"
  by (simp_all add: task_of_def wake_def split: worker.split)

lemma running_update:
  "i < length ws \<Longrightarrow> running (ws[i := w]) + task_of (ws ! i) = running ws + task_of w"
  unfolding running_def by (rule sum_update)

lemma testing_update:
  "i < length ws \<Longrightarrow> testing (ws[i := w]) + is_testing (ws ! i) = testing ws + is_testing w"
  unfolding testing_def by (rule sum_update)

lemma running_wake [simp]: "running (map wake ws) = running ws"
  by (simp add: running_def comp_def)

lemma wake_simps [simp]: "wake w \<noteq> Sleeping" "Sleeping \<noteq> wake w" "wake w = Exited \<longleftrightarrow> w = Exited"
  "Exited = wake w \<longleftrightarrow> w = Exited"
  by (auto simp: wake_def split: worker.splits)

lemma not_sleeping_update: "Sleeping \<in> set (ws[i := w]) \<Longrightarrow> w \<noteq> Sleeping \<Longrightarrow> Sleeping \<in> set ws"
  using set_update_subset_insert [of ws i w] by auto

lemma exited_update: "Exited \<in> set (ws[i := w]) \<Longrightarrow> w \<noteq> Exited \<Longrightarrow> Exited \<in> set ws"
  using set_update_subset_insert [of ws i w] by auto

lemma test_inv:
  assumes "tp_inv n s" "i < length (m_workers s)" "m_workers s ! i = Testing"
  shows "tp_inv n (worker_test i s)"
proof -
  consider (sleep) "m_taskList (tp s) = []" "\<not> m_stop (tp s)" | (leave) "m_stop (tp s)"
    | (task) "m_taskList (tp s) \<noteq> []" "\<not> m_stop (tp s)" by blast
  then show ?thesis
  proof cases
    case sleep
    then show ?thesis using assms running_update [OF assms(2), of Sleeping] exited_update [of "m_workers s" i Sleeping]
      by (auto simp: tp_inv_def worker_test_def)
  next
    case leave
    then show ?thesis using assms running_update [OF assms(2), of Exited] not_sleeping_update [of "m_workers s" i Exited]
      testing_update [OF assms(2), of Exited]
      by (auto simp: tp_inv_def worker_test_def is_testing_def)
  next
    case task
    then obtain t ts where "m_taskList (tp s) = t # ts" by (cases "m_taskList (tp s)") auto
    then show ?thesis using assms task running_update [OF assms(2), of "Running t"]
        not_sleeping_update [of "m_workers s" i "Running t"] testing_update [OF assms(2), of "Running t"]
        exited_update [of "m_workers s" i "Running t"]
      by (auto simp: tp_inv_def worker_test_def is_testing_def)
  qed
qed

lemma step_inv:
  assumes "tp_step s t" "tp_inv n s"
  shows "tp_inv n t"
  using assms
proof (cases rule: tp_step.cases)
  case (test i)
  then show ?thesis using assms(2) test_inv by blast
next
  case (run i task)
  then show ?thesis using assms(2) running_update [of i "m_workers s" Testing] testing_update [of i "m_workers s" Testing]
      not_sleeping_update [of "m_workers s" i Testing] exited_update [of "m_workers s" i Testing]
    by (auto simp: tp_inv_def worker_done_def is_testing_def)
next
  case (notify_one i)
  then show ?thesis using assms(2) running_update [of i "m_workers s" Testing] testing_update [of i "m_workers s" Testing]
      not_sleeping_update [of "m_workers s" i Testing] exited_update [of "m_workers s" i Testing]
    by (auto simp: tp_inv_def is_testing_def)
next
  case notify_all
  then show ?thesis using assms(2) by (auto simp: tp_inv_def)
qed (auto simp: tp_inv_def)

lemma reach_inv: "tp_reach n s \<Longrightarrow> tp_inv n s"
proof (induction rule: tp_reach.induct)
  case (start p)
  have "sum_list (map task_of (replicate k Testing)) = {#}" for k by (induction k) simp_all
  then show ?case using start
    by (auto simp: tp_inv_def tp_init_def threadpool_new_def running_def split: if_splits)
next
  case (step s t)
  then show ?case using step_inv by blast
next
  case (spurious s i)
  then show ?case using running_update [of i "m_workers s" Testing] testing_update [of i "m_workers s" Testing]
      not_sleeping_update [of "m_workers s" i Testing] exited_update [of "m_workers s" i Testing]
    by (auto simp: tp_inv_def is_testing_def)
qed (auto simp: tp_inv_def tp_append_def tp_shutdown_def)

section \<open>Progress\<close>

text \<open>Every step of the pool itself lowers the work that is left.\<close>

definition worker_work :: "'t worker \<Rightarrow> nat" where
  "worker_work w = (case w of Testing \<Rightarrow> 1 | Running _ \<Rightarrow> 3 | _ \<Rightarrow> 0)"

definition work :: "'t tp_sys \<Rightarrow> nat" where
  "work s = 4 * length (m_taskList (tp s)) + sum_list (map worker_work (m_workers s)) + 2 * to_notify s +
     (if to_notify_all s then length (m_workers s) + 1 else 0)"

lemma worker_work_simps [simp]: "worker_work Testing = 1" "worker_work Sleeping = 0" "worker_work (Running t) = 3"
  "worker_work Exited = 0"
  by (simp_all add: worker_work_def)

lemma wake_work: "sum_list (map worker_work (map wake ws)) \<le> sum_list (map worker_work ws) + length ws"
  by (induction ws) (auto simp: wake_def split: worker.splits)

lemma step_decreases:
  assumes "tp_step s t"
  shows "work t < work s"
  using assms
proof (cases rule: tp_step.cases)
  case (test i)
  have "sum_list (map worker_work ((m_workers s)[i := w])) + 1 = sum_list (map worker_work (m_workers s)) + worker_work w" for w
    using sum_update [OF test(2), of worker_work w] test(3) by simp
  from this [of Sleeping] this [of Exited] this [of "Running (hd (m_taskList (tp s)))"]
  show ?thesis using test(1) by (cases "m_taskList (tp s)") (auto simp: worker_test_def work_def)
next
  case (run i task)
  then show ?thesis using sum_update [OF run(2), of worker_work Testing] by (simp add: worker_done_def work_def)
next
  case (notify_one i)
  then show ?thesis using sum_update [OF notify_one(3), of worker_work Testing] by (simp add: work_def)
next
  case notify_all
  then show ?thesis using wake_work [of "m_workers s"] by (simp add: work_def)
qed (simp add: work_def)

text \<open>A pool that can make no step of its own: no task is waiting or running, or all have left.\<close>

lemma stuck_workers:
  assumes "\<forall>t. \<not> tp_step s t" "w \<in> set (m_workers s)"
  shows "(w = Sleeping \<or> w = Exited) \<and> \<not> to_notify_all s \<and> (to_notify s = 0 \<or> Sleeping \<notin> set (m_workers s))"
proof -
  obtain i where i: "i < length (m_workers s)" "m_workers s ! i = w" using assms(2) by (auto simp: in_set_conv_nth)
  then have "w = Sleeping \<or> w = Exited" using assms(1) by (cases w) (auto intro: tp_step.test tp_step.run)
  moreover have "to_notify s = 0 \<or> Sleeping \<notin> set (m_workers s)"
    using assms(1) tp_step.notify_one [of s] by (auto simp: in_set_conv_nth)
  ultimately show ?thesis using assms(1) tp_step.notify_all by blast
qed

lemma stopped_step:
  assumes "tp_step s t" "m_stop (tp s)"
  shows "m_stop (tp t) \<and> begun t = begun s \<and> m_taskList (tp t) = m_taskList (tp s)"
  using assms by (cases rule: tp_step.cases) (auto simp: worker_test_def worker_done_def)

section \<open>Properties\<close>

text \<open>C23: Tasks are begun in the order they were appended, each at most once.  In every reachable
  state the begun tasks followed by the waiting ones are exactly the appended ones, and every
  begun task is either finished or running on exactly one worker.\<close>

theorem tasks_begin_in_order:
  assumes "tp_reach n s"
  shows "begun s @ m_taskList (tp s) = appended s \<and>
    mset (begun s) = mset (finished s) + running (m_workers s)"
  using reach_inv [OF assms] by (simp add: tp_inv_def)

text \<open>C22: No task is forgotten.  Every step of the pool's own threads lowers the work left, so
  between two calls only finitely many can be made, and a pool that has not been shut down and
  can make no step has finished every task that was appended: a wake-up is never lost.\<close>

theorem tasks_all_finish:
  assumes "tp_reach n s" "\<not> m_stop (tp s)"
  shows "(\<forall>t. tp_step s t \<longrightarrow> work t < work s) \<and>
    ((\<forall>t. \<not> tp_step s t) \<longrightarrow> m_taskList (tp s) = [] \<and> begun s = appended s \<and>
       mset (finished s) = mset (appended s))"
proof (intro conjI impI)
  show "\<forall>t. tp_step s t \<longrightarrow> work t < work s" using step_decreases by blast
next
  assume stuck: "\<forall>t. \<not> tp_step s t"
  have inv: "tp_inv n s" using assms(1) by (rule reach_inv)
  then obtain w where "w \<in> set (m_workers s)" by (cases "m_workers s") (auto simp: tp_inv_def)
  moreover have all: "w = Sleeping \<and> to_notify s = 0" if "w \<in> set (m_workers s)" for w
    using stuck_workers [OF stuck that] that inv assms(2) by (auto simp: tp_inv_def)
  moreover have "testing (m_workers s) = 0" using all by (auto simp: testing_def is_testing_def)
  ultimately have empty: "m_taskList (tp s) = []" using inv assms(2) by (fastforce simp: tp_inv_def)
  moreover have "map task_of (m_workers s) = map (\<lambda>_. {#}) (m_workers s)" using all by (intro map_cong [OF refl]) (metis task_of_simps(2))
  then have "running (m_workers s) = {#}" unfolding running_def by (simp only: sum_list_0)
  ultimately show "m_taskList (tp s) = []" "begun s = appended s" "mset (finished s) = mset (appended s)"
    using inv by (auto simp: tp_inv_def)
qed

text \<open>C36: A shutdown ends every worker and drops the tasks that have not begun.  Once the pool is
  stopped no step begins a task or takes it off the list, the stop stays, and a pool that can
  make no step has only workers that have left their loop, so that joining them returns.\<close>

theorem shutdown_drops_tasks:
  assumes "tp_reach n s" "m_stop (tp s)"
  shows "(\<forall>t. tp_step s t \<longrightarrow> work t < work s \<and> m_stop (tp t) \<and> begun t = begun s \<and>
       m_taskList (tp t) = m_taskList (tp s)) \<and>
    ((\<forall>t. \<not> tp_step s t) \<longrightarrow> (\<forall>w \<in> set (m_workers s). w = Exited))"
proof (intro conjI impI ballI)
  show "\<forall>t. tp_step s t \<longrightarrow> work t < work s \<and> m_stop (tp t) \<and> begun t = begun s \<and> m_taskList (tp t) = m_taskList (tp s)"
    using step_decreases stopped_step [OF _ assms(2)] by blast
  show "w = Exited" if "\<forall>t. \<not> tp_step s t" "w \<in> set (m_workers s)" for w
    using stuck_workers [OF that] reach_inv [OF assms(1)] assms(2) that(2) by (auto simp: tp_inv_def)
qed

text \<open>One worker and two tasks, the first of which is running.\<close>

definition small_pool :: "nat threadpool" where
  "small_pool = \<lparr>m_taskList = [], m_stop = False, m_thread_number = 1\<rparr>"

definition busy_pool :: "nat tp_sys" where
  "busy_pool = worker_test 0 (tp_append 11 (tp_append 10 (tp_init small_pool)))"

lemma busy_pool_reach: "tp_reach 1 busy_pool" "\<not> m_stop (tp busy_pool)"
proof -
  have "tp_reach 1 (tp_append 11 (tp_append 10 (tp_init small_pool)))"
    by (intro tp_reach.append tp_reach.start) (simp add: threadpool_new_def small_pool_def)
  then show "tp_reach 1 busy_pool" unfolding busy_pool_def
    by (rule tp_reach.step) (rule tp_step.test, simp_all add: tp_append_def tp_init_def small_pool_def)
  show "\<not> m_stop (tp busy_pool)"
    by (simp add: busy_pool_def worker_test_def tp_append_def tp_init_def small_pool_def Let_def)
qed

theorem tasks_begin_in_order_witness: "begun busy_pool @ m_taskList (tp busy_pool) = [10, 11]"
  using tasks_begin_in_order [OF busy_pool_reach(1)]
  by (simp add: busy_pool_def worker_test_def tp_append_def tp_init_def small_pool_def Let_def)

theorem tasks_all_finish_witness: "work (worker_done 0 10 busy_pool) < work busy_pool"
proof -
  have "tp_step busy_pool (worker_done 0 10 busy_pool)"
    by (rule tp_step.run) (simp_all add: busy_pool_def worker_test_def tp_append_def tp_init_def small_pool_def Let_def)
  then show ?thesis using tasks_all_finish [OF busy_pool_reach] by blast
qed

theorem shutdown_drops_tasks_witness:
  "tp_step (tp_shutdown busy_pool) (worker_done 0 10 (tp_shutdown busy_pool)) \<and>
   m_taskList (tp (worker_done 0 10 (tp_shutdown busy_pool))) = [11]"
proof -
  have "tp_step (tp_shutdown busy_pool) (worker_done 0 10 (tp_shutdown busy_pool))"
    by (rule tp_step.run)
      (simp_all add: tp_shutdown_def busy_pool_def worker_test_def tp_append_def tp_init_def small_pool_def Let_def)
  then show ?thesis
    using shutdown_drops_tasks [OF tp_reach.shutdown [OF busy_pool_reach(1)]]
    by (auto simp: tp_shutdown_def busy_pool_def worker_test_def tp_append_def tp_init_def small_pool_def Let_def)
qed

end
