(* ===== verification/LockFree.thy ===== *)
theory LockFree
  imports Prelude "HOL-Library.Word"
begin

text \<open>
  The lock-free queue of \<open>lockfreequeue.hpp\<close>.  The template has one member function,
  \<open>push\<close>, which any number of threads may run at once; it is modelled as the sequence of
  its atomic accesses, one step each, and a run of the queue is an interleaving of the steps of
  its calls.  Nodes and values live in explicit stores, so that a null or freed pointer is a
  fault when it is followed.

  \<open>push\<close> calls \<open>increase_external_count\<close>, \<open>free_external_counter\<close> and
  \<open>node::release_ref\<close>, which the template does not define.  They are parameters, and
  \<open>ref_counting\<close> names what \<open>push\<close> relies on: the first takes a reference to
  the node \<open>tail\<close> currently points to, the second gives back one of a node's external
  counters, the third one internal reference, and a node is deleted only when no external
  counter is left.
\<close>

section \<open>The data of the template\<close>

record counted_node_ptr =
  external_count :: int
  ptr :: "nat option"

record node_counter =
  internal_count :: "30 word"
  external_counters :: "2 word"

record node =
  nd_data :: "nat option"
  nd_count :: node_counter
  nd_next :: counted_node_ptr

text \<open>
  The constructor of a node stores the counters and the link.  It leaves the atomic pointer
  \<open>data\<close> as it is, so the pointer holds what the memory held: \<open>junk\<close>.
\<close>

definition node_new :: "nat option \<Rightarrow> node" where
  "node_new junk = \<lparr>nd_data = junk,
     nd_count = \<lparr>internal_count = 0, external_counters = 2\<rparr>,
     nd_next = \<lparr>external_count = 0, ptr = None\<rparr>\<rparr>"

record lock_free_queue =
  q_head :: counted_node_ptr
  q_tail :: counted_node_ptr

record ref_ops =
  increase_external_count :: "counted_node_ptr \<Rightarrow> counted_node_ptr \<Rightarrow> counted_node_ptr \<times> counted_node_ptr"
  free_external_counter :: "counted_node_ptr \<Rightarrow> node \<Rightarrow> node option"
  release_ref :: "node \<Rightarrow> node option"

definition ref_counting :: "ref_ops \<Rightarrow> bool" where
  "ref_counting ops \<longleftrightarrow>
     (\<forall>tl ot. ptr (fst (increase_external_count ops tl ot)) = ptr tl
        \<and> ptr (snd (increase_external_count ops tl ot)) = ptr tl)
     \<and> (\<forall>cp n. external_counters (nd_count n) - 1 \<noteq> 0 \<longrightarrow>
        (\<exists>c. free_external_counter ops cp n = Some (n\<lparr>nd_count := c\<rparr>)
           \<and> external_counters c = external_counters (nd_count n) - 1))
     \<and> (\<forall>n. external_counters (nd_count n) \<noteq> 0 \<longrightarrow>
        (\<exists>c. release_ref ops n = Some (n\<lparr>nd_count := c\<rparr>)
           \<and> external_counters c = external_counters (nd_count n)))"

section \<open>The steps of push\<close>

text \<open>
  Where a call of \<open>push\<close> stands: before the access it does next.  Its locals are
  \<open>new_value\<close>, \<open>new_data\<close> (null once released), \<open>new_next\<close> and
  \<open>old_tail\<close>.
\<close>

datatype push_pc = AtLoad | AtIncrease | AtCompareExchange | AtSetNext | AtExchange
  | AtFreeCounter | AtReleaseRef | Returned

record 'a push_frame =
  push_at :: push_pc
  new_value :: 'a
  new_data :: "nat option"
  new_next :: counted_node_ptr
  old_tail :: counted_node_ptr

record 'a queue_sys = lock_free_queue +
  nodes :: "nat \<rightharpoonup> node"
  objs :: "nat \<rightharpoonup> 'a"
  calls :: "nat \<rightharpoonup> 'a push_frame"

definition node_at :: "('a, 'b) queue_sys_scheme \<Rightarrow> counted_node_ptr \<Rightarrow> (nat \<times> node) result" where
  "node_at s cp = (case ptr cp of None \<Rightarrow> Inl OutOfBounds
     | Some a \<Rightarrow> (case nodes s a of None \<Rightarrow> Inl OutOfBounds | Some n \<Rightarrow> Inr (a, n)))"

definition push_enter :: "'a \<Rightarrow> nat \<Rightarrow> nat \<Rightarrow> nat option \<Rightarrow> 'a queue_sys \<Rightarrow> 'a push_frame \<times> 'a queue_sys" where
  "push_enter v d a junk s =
     (\<lparr>push_at = AtLoad, new_value = v, new_data = Some d,
       new_next = \<lparr>external_count = 1, ptr = Some a\<rparr>,
       old_tail = \<lparr>external_count = 0, ptr = None\<rparr>\<rparr>,
      s\<lparr>objs := (objs s)(d \<mapsto> v), nodes := (nodes s)(a \<mapsto> node_new junk)\<rparr>)"

definition push_load :: "'a push_frame \<Rightarrow> 'a queue_sys \<Rightarrow> ('a push_frame \<times> 'a queue_sys) result" where
  "push_load f s = Inr (f\<lparr>push_at := AtIncrease, old_tail := q_tail s\<rparr>, s)"

definition push_increase :: "ref_ops \<Rightarrow> 'a push_frame \<Rightarrow> 'a queue_sys \<Rightarrow> ('a push_frame \<times> 'a queue_sys) result" where
  "push_increase ops f s =
     (let r = increase_external_count ops (q_tail s) (old_tail f)
      in Inr (f\<lparr>push_at := AtCompareExchange, old_tail := snd r\<rparr>, s\<lparr>q_tail := fst r\<rparr>))"

definition push_compare_exchange :: "'a push_frame \<Rightarrow> 'a queue_sys \<Rightarrow> ('a push_frame \<times> 'a queue_sys) result" where
  "push_compare_exchange f s = res_bind (node_at s (old_tail f)) (\<lambda>(a, n).
     if nd_data n = None
     then Inr (f\<lparr>push_at := AtSetNext\<rparr>, s\<lparr>nodes := (nodes s)(a \<mapsto> n\<lparr>nd_data := new_data f\<rparr>)\<rparr>)
     else Inr (f\<lparr>push_at := AtReleaseRef\<rparr>, s))"

definition push_set_next :: "'a push_frame \<Rightarrow> 'a queue_sys \<Rightarrow> ('a push_frame \<times> 'a queue_sys) result" where
  "push_set_next f s = res_bind (node_at s (old_tail f)) (\<lambda>(a, n).
     Inr (f\<lparr>push_at := AtExchange\<rparr>, s\<lparr>nodes := (nodes s)(a \<mapsto> n\<lparr>nd_next := new_next f\<rparr>)\<rparr>))"

definition push_exchange :: "'a push_frame \<Rightarrow> 'a queue_sys \<Rightarrow> ('a push_frame \<times> 'a queue_sys) result" where
  "push_exchange f s =
     Inr (f\<lparr>push_at := AtFreeCounter, old_tail := q_tail s\<rparr>, s\<lparr>q_tail := new_next f\<rparr>)"

definition push_free_counter :: "ref_ops \<Rightarrow> 'a push_frame \<Rightarrow> 'a queue_sys \<Rightarrow> ('a push_frame \<times> 'a queue_sys) result" where
  "push_free_counter ops f s = res_bind (node_at s (old_tail f)) (\<lambda>(a, n).
     Inr (f\<lparr>push_at := Returned, new_data := None\<rparr>,
          s\<lparr>nodes := (nodes s)(a := free_external_counter ops (old_tail f) n)\<rparr>))"

definition push_release_ref :: "ref_ops \<Rightarrow> 'a push_frame \<Rightarrow> 'a queue_sys \<Rightarrow> ('a push_frame \<times> 'a queue_sys) result" where
  "push_release_ref ops f s = res_bind (node_at s (old_tail f)) (\<lambda>(a, n).
     Inr (f\<lparr>push_at := AtIncrease\<rparr>, s\<lparr>nodes := (nodes s)(a := release_ref ops n)\<rparr>))"

definition push_step :: "ref_ops \<Rightarrow> 'a push_frame \<Rightarrow> 'a queue_sys \<Rightarrow> ('a push_frame \<times> 'a queue_sys) result" where
  "push_step ops f s = (case push_at f of
       AtLoad \<Rightarrow> push_load f s
     | AtIncrease \<Rightarrow> push_increase ops f s
     | AtCompareExchange \<Rightarrow> push_compare_exchange f s
     | AtSetNext \<Rightarrow> push_set_next f s
     | AtExchange \<Rightarrow> push_exchange f s
     | AtFreeCounter \<Rightarrow> push_free_counter ops f s
     | AtReleaseRef \<Rightarrow> push_release_ref ops f s
     | Returned \<Rightarrow> Inr (f, s))"

text \<open>
  The steps of a queue on which calls are interleaved.  \<open>t\<close> numbers the calls; \<open>J\<close>
  gives what a fresh cell of memory holds.
\<close>

inductive queue_step :: "ref_ops \<Rightarrow> (nat \<Rightarrow> nat option) \<Rightarrow> nat \<Rightarrow> 'a queue_sys \<Rightarrow> 'a queue_sys \<Rightarrow> bool"
  for ops J t s where
  enter: "calls s t = None \<Longrightarrow> nodes s a = None \<Longrightarrow> objs s d = None \<Longrightarrow>
    push_enter v d a (J a) s = (f, s1) \<Longrightarrow> queue_step ops J t s (s1\<lparr>calls := (calls s1)(t \<mapsto> f)\<rparr>)"
| move: "calls s t = Some f \<Longrightarrow> push_at f \<noteq> Returned \<Longrightarrow> push_step ops f s = Inr (f', s1) \<Longrightarrow>
    queue_step ops J t s (s1\<lparr>calls := (calls s1)(t \<mapsto> f')\<rparr>)"

inductive queue_run :: "ref_ops \<Rightarrow> (nat \<Rightarrow> nat option) \<Rightarrow> 'a queue_sys \<Rightarrow> nat list \<Rightarrow> 'a queue_sys \<Rightarrow> bool"
  for ops J s where
  stay: "queue_run ops J s [] s"
| more: "queue_run ops J s ts s' \<Longrightarrow> queue_step ops J t s' s'' \<Longrightarrow> queue_run ops J s (ts @ [t]) s''"

inductive_cases queue_step_cases: "queue_step ops J t s s'"

text \<open>
  The values in the queue: those of the published nodes from a pointer on.
\<close>

inductive holds :: "('a, 'b) queue_sys_scheme \<Rightarrow> nat option \<Rightarrow> 'a list \<Rightarrow> bool" for s where
  at_null: "holds s None []"
| at_end: "nodes s a = Some n \<Longrightarrow> nd_data n = None \<Longrightarrow> holds s (Some a) []"
| at_node: "nodes s a = Some n \<Longrightarrow> nd_data n = Some d \<Longrightarrow> objs s d = Some v \<Longrightarrow>
    holds s (ptr (nd_next n)) vs \<Longrightarrow> holds s (Some a) (v # vs)"

text \<open>
  A queue whose head and tail point to one empty node, on which no call has begun.  The template
  has no constructor that would set it up.
\<close>

definition queue_ready :: "'a queue_sys \<Rightarrow> bool" where
  "queue_ready s \<longleftrightarrow> (\<exists>a. ptr (q_head s) = Some a \<and> ptr (q_tail s) = Some a
     \<and> nodes s a = Some (node_new None)) \<and> calls s = Map.empty"

text \<open>
  The call whose next access publishes its value, and the calls whose value is published.
\<close>

definition lands :: "'a queue_sys \<Rightarrow> nat \<Rightarrow> bool" where
  "lands s t = (case calls s t of None \<Rightarrow> False
     | Some f \<Rightarrow> push_at f = AtCompareExchange
        \<and> (case node_at s (old_tail f) of Inl e \<Rightarrow> False | Inr (a, n) \<Rightarrow> nd_data n = None))"

definition published :: "'a push_frame \<Rightarrow> bool" where
  "published f \<longleftrightarrow> push_at f \<in> {AtSetNext, AtExchange, AtFreeCounter, Returned}"

definition value_of :: "'a queue_sys \<Rightarrow> nat \<Rightarrow> 'a" where
  "value_of s t = new_value (the (calls s t))"

lemmas push_steps = push_load_def push_increase_def push_compare_exchange_def push_set_next_def
  push_exchange_def push_free_counter_def push_release_ref_def

section \<open>The invariant of concurrent pushes\<close>

text \<open>
  \<open>gone\<close> lists the nodes the tail has left behind with the calls that published in them;
  \<open>l\<close> is the node the tail points to and \<open>w\<close> the call, if any, that has
  published in it and has not moved the tail yet.
\<close>

fun linked :: "(nat \<rightharpoonup> node) \<Rightarrow> nat list \<Rightarrow> bool" where
  "linked N (a # b # as) \<longleftrightarrow> (\<exists>n. N a = Some n \<and> ptr (nd_next n) = Some b) \<and> linked N (b # as)"
| "linked N as \<longleftrightarrow> True"

definition left_node :: "'a queue_sys \<Rightarrow> nat \<Rightarrow> nat \<Rightarrow> bool" where
  "left_node s a t \<longleftrightarrow> (\<exists>n f d. nodes s a = Some n \<and> calls s t = Some f \<and> nd_data n = Some d
     \<and> objs s d = Some (new_value f)
     \<and> (push_at f = Returned \<and> external_counters (nd_count n) = 1
        \<or> push_at f = AtFreeCounter \<and> external_counters (nd_count n) = 2 \<and> ptr (old_tail f) = Some a))"

definition tail_node :: "'a queue_sys \<Rightarrow> nat \<Rightarrow> nat option \<Rightarrow> bool" where
  "tail_node s l w \<longleftrightarrow> (\<exists>n. nodes s l = Some n \<and> external_counters (nd_count n) = 2
     \<and> (case w of None \<Rightarrow> nd_data n = None \<and> ptr (nd_next n) = None
        | Some t \<Rightarrow> \<exists>f d. calls s t = Some f \<and> nd_data n = Some d \<and> objs s d = Some (new_value f)
            \<and> ptr (old_tail f) = Some l
            \<and> (push_at f = AtSetNext \<and> ptr (nd_next n) = None
               \<or> push_at f = AtExchange \<and> ptr (nd_next n) = ptr (new_next f))))"

definition trying :: "nat set \<Rightarrow> 'a push_frame \<Rightarrow> bool" where
  "trying A f \<longleftrightarrow> push_at f \<in> {AtLoad, AtIncrease}
     \<or> push_at f \<in> {AtCompareExchange, AtReleaseRef} \<and> (\<exists>a\<in>A. ptr (old_tail f) = Some a)"

definition open_call :: "'a queue_sys \<Rightarrow> nat set \<Rightarrow> nat option \<Rightarrow> nat \<Rightarrow> 'a push_frame \<Rightarrow> bool" where
  "open_call s A w t f \<longleftrightarrow> (\<exists>b d. ptr (new_next f) = Some b \<and> b \<notin> A \<and> nodes s b = Some (node_new None)
     \<and> new_data f = Some d \<and> objs s d = Some (new_value f)) \<and> (w = Some t \<or> trying A f)"

definition queue_inv :: "'a queue_sys \<Rightarrow> (nat \<times> nat) list \<Rightarrow> nat \<Rightarrow> nat option \<Rightarrow> bool" where
  "queue_inv s gone l w \<longleftrightarrow>
     distinct (map fst gone @ [l]) \<and> distinct (map snd gone) \<and> w \<notin> Some ` snd ` set gone
     \<and> linked (nodes s) (map fst gone @ [l])
     \<and> ptr (q_head s) = Some (hd (map fst gone @ [l])) \<and> ptr (q_tail s) = Some l
     \<and> (\<forall>(a, t)\<in>set gone. left_node s a t) \<and> tail_node s l w
     \<and> (\<forall>t f. calls s t = Some f \<longrightarrow> t \<notin> snd ` set gone \<longrightarrow> open_call s (insert l (fst ` set gone)) w t f)
     \<and> (\<forall>t t' f f'. calls s t = Some f \<longrightarrow> calls s t' = Some f' \<longrightarrow> t \<noteq> t'
          \<longrightarrow> t \<notin> snd ` set gone \<longrightarrow> t' \<notin> snd ` set gone \<longrightarrow> ptr (new_next f) \<noteq> ptr (new_next f'))"

lemma linked_mono:
  assumes "linked N as"
    and "\<And>a n. a \<in> set (butlast as) \<Longrightarrow> N a = Some n \<Longrightarrow> \<exists>m. N' a = Some m \<and> ptr (nd_next m) = ptr (nd_next n)"
  shows "linked N' as"
  using assms
proof (induction N as rule: linked.induct)
  case (1 N a b as)
  from 1(2) obtain n where n: "N a = Some n" "ptr (nd_next n) = Some b" and rest: "linked N (b # as)"
    by auto
  have "linked N' (b # as)"
    using rest 1(3) by (intro 1(1)) auto
  moreover have "\<exists>m. N' a = Some m \<and> ptr (nd_next m) = Some b"
    using 1(3)[of a n] n by auto
  ultimately show ?case by simp
qed auto

lemma linked_snoc:
  "linked N (as @ [l, b]) \<longleftrightarrow> linked N (as @ [l]) \<and> (\<exists>n. N l = Some n \<and> ptr (nd_next n) = Some b)"
  by (induction as rule: induct_list012) auto

lemma queue_invD:
  assumes "queue_inv s gone l w"
  shows "distinct (map fst gone)" "l \<notin> fst ` set gone" "distinct (map snd gone)"
    "\<And>t. w = Some t \<Longrightarrow> t \<notin> snd ` set gone" "linked (nodes s) (map fst gone @ [l])"
    "ptr (q_tail s) = Some l" "ptr (q_head s) = Some (hd (map fst gone @ [l]))"
    "\<And>a t. (a, t) \<in> set gone \<Longrightarrow> left_node s a t" "tail_node s l w"
    "\<And>t f. calls s t = Some f \<Longrightarrow> t \<notin> snd ` set gone \<Longrightarrow> open_call s (insert l (fst ` set gone)) w t f"
    "\<And>t t' f f'. calls s t = Some f \<Longrightarrow> calls s t' = Some f' \<Longrightarrow> t \<noteq> t' \<Longrightarrow> t \<notin> snd ` set gone
       \<Longrightarrow> t' \<notin> snd ` set gone \<Longrightarrow> ptr (new_next f) \<noteq> ptr (new_next f')"
  using assms unfolding queue_inv_def by (auto simp: image_iff)

lemma queue_invI:
  assumes "distinct (map fst gone)" "l \<notin> fst ` set gone" "distinct (map snd gone)"
    "\<And>t. w = Some t \<Longrightarrow> t \<notin> snd ` set gone" "linked (nodes s) (map fst gone @ [l])"
    "ptr (q_tail s) = Some l" "ptr (q_head s) = Some (hd (map fst gone @ [l]))"
    "\<And>a t. (a, t) \<in> set gone \<Longrightarrow> left_node s a t" "tail_node s l w"
    "\<And>t f. calls s t = Some f \<Longrightarrow> t \<notin> snd ` set gone \<Longrightarrow> open_call s (insert l (fst ` set gone)) w t f"
    "\<And>t t' f f'. calls s t = Some f \<Longrightarrow> calls s t' = Some f' \<Longrightarrow> t \<noteq> t' \<Longrightarrow> t \<notin> snd ` set gone
       \<Longrightarrow> t' \<notin> snd ` set gone \<Longrightarrow> ptr (new_next f) \<noteq> ptr (new_next f')"
  shows "queue_inv s gone l w"
  unfolding queue_inv_def
proof (intro conjI ballI allI impI)
  show "w \<notin> Some ` snd ` set gone" using assms(4) by blast
  show "case x of (a, t) \<Rightarrow> left_node s a t" if "x \<in> set gone" for x
    using that assms(8) by (cases x) auto
qed (use assms in \<open>auto simp del: linked.simps\<close>)

text \<open>Every published node is in use: its external counters are not used up.\<close>

lemma chain_node:
  assumes "queue_inv s gone l w" and "a \<in> insert l (fst ` set gone)"
  obtains n where "nodes s a = Some n" "external_counters (nd_count n) \<noteq> 0"
  using assms queue_invD(8,9)[OF assms(1)] by (force simp: left_node_def tail_node_def)

lemma chain_empty:
  assumes "queue_inv s gone l w" and "a \<in> insert l (fst ` set gone)" and "nodes s a = Some n"
  shows "nd_data n = None \<longleftrightarrow> a = l \<and> w = None"
  using assms queue_invD(2,8,9)[OF assms(1)]
  by (cases w) (force simp: left_node_def tail_node_def)+

text \<open>Where a call stands, by what the invariant says of it.\<close>

lemma call_gone:
  assumes "queue_inv s gone l w" and "t \<in> snd ` set gone"
  obtains a n f d where "(a, t) \<in> set gone" "nodes s a = Some n" "calls s t = Some f" "nd_data n = Some d"
    "objs s d = Some (new_value f)" "push_at f = Returned \<and> external_counters (nd_count n) = 1
      \<or> push_at f = AtFreeCounter \<and> external_counters (nd_count n) = 2 \<and> ptr (old_tail f) = Some a"
  using assms queue_invD(8)[OF assms(1)] by (fastforce simp: left_node_def)

lemma call_moving:
  assumes "queue_inv s gone l (Some t)"
  obtains n f d where "nodes s l = Some n" "calls s t = Some f" "nd_data n = Some d"
    "objs s d = Some (new_value f)" "ptr (old_tail f) = Some l"
    "push_at f = AtSetNext \<and> ptr (nd_next n) = None \<or> push_at f = AtExchange \<and> ptr (nd_next n) = ptr (new_next f)"
    "external_counters (nd_count n) = 2"
  using queue_invD(9)[OF assms] by (auto simp: tail_node_def)

lemma call_trying:
  assumes "queue_inv s gone l w" and "calls s t = Some f" and "t \<notin> snd ` set gone" and "w \<noteq> Some t"
  shows "trying (insert l (fst ` set gone)) f"
  using queue_invD(10)[OF assms(1,2,3)] assms(4) by (simp add: open_call_def)

section \<open>Every step keeps the invariant\<close>

text \<open>
  The steps of a call that has not published: they move the call, and at most change reference
  counts.
\<close>

lemma inv_trying:
  assumes inv: "queue_inv s gone l w" and f: "calls s t = Some f" "t \<notin> snd ` set gone" "w \<noteq> Some t"
    and same: "new_value f' = new_value f" "new_data f' = new_data f" "new_next f' = new_next f"
    and f': "trying (insert l (fst ` set gone)) f'"
    and tp: "ptr tp = ptr (q_tail s)"
    and N: "\<And>a n. a \<in> insert l (fst ` set gone) \<Longrightarrow> nodes s a = Some n \<Longrightarrow> \<exists>c. N a = Some (n\<lparr>nd_count := c\<rparr>)
        \<and> external_counters c = external_counters (nd_count n)"
    and N': "\<And>a. a \<notin> insert l (fst ` set gone) \<Longrightarrow> N a = nodes s a"
  shows "queue_inv (s\<lparr>q_tail := tp, nodes := N, calls := (calls s)(t \<mapsto> f')\<rparr>) gone l w"
    (is "queue_inv ?s gone l w")
proof (rule queue_invI)
  note D = queue_invD[OF inv]
  show "linked (nodes ?s) (map fst gone @ [l])"
  proof (rule linked_mono[OF D(5)])
    fix a n assume "a \<in> set (butlast (map fst gone @ [l]))" and n: "nodes s a = Some n"
    then have "a \<in> insert l (fst ` set gone)" by simp
    from N[OF this n] show "\<exists>m. nodes ?s a = Some m \<and> ptr (nd_next m) = ptr (nd_next n)" by auto
  qed
  show "left_node ?s a u" if g: "(a, u) \<in> set gone" for a u
  proof -
    have "u \<noteq> t" using g f(2) by force
    moreover from D(8)[OF g] obtain n where "nodes s a = Some n" by (auto simp: left_node_def)
    moreover have "a \<in> insert l (fst ` set gone)" using g by force
    ultimately show ?thesis using D(8)[OF g] N[of a n] by (auto simp: left_node_def)
  qed
  show "tail_node ?s l w"
  proof -
    from D(9) obtain n where "nodes s l = Some n" by (auto simp: tail_node_def)
    then show ?thesis using D(9) N[of l n] f(3) by (auto simp: tail_node_def split: option.splits)
  qed
  show "open_call ?s (insert l (fst ` set gone)) w u g"
    if "calls ?s u = Some g" "u \<notin> snd ` set gone" for u g
    using that D(10)[of u] D(10)[OF f(1,2)] f' same N'
    by (auto simp: open_call_def split: if_splits)
  show "ptr (new_next g) \<noteq> ptr (new_next g')"
    if "calls ?s u = Some g" "calls ?s u' = Some g'" "u \<noteq> u'" "u \<notin> snd ` set gone" "u' \<notin> snd ` set gone" for u u' g g'
    using that D(11)[of u _ u'] same(3) f(1) by (auto split: if_splits)
qed (use queue_invD[OF inv] tp in auto)

lemma inv_enter:
  assumes inv: "queue_inv s gone l w" and new: "calls s t = None" "nodes s a = None" "objs s d = None"
    and e: "push_enter v d a None s = (f, s1)"
  shows "queue_inv (s1\<lparr>calls := (calls s1)(t \<mapsto> f)\<rparr>) gone l w" (is "queue_inv ?s gone l w")
proof (rule queue_invI)
  note D = queue_invD[OF inv]
  have a: "a \<notin> insert l (fst ` set gone)"
    using chain_node[OF inv] new(2) by (metis option.distinct(1))
  have t: "t \<notin> snd ` set gone" using call_gone[OF inv] new(1) by (metis option.distinct(1))
  have w: "w \<noteq> Some t"
  proof
    assume "w = Some t"
    with inv have "queue_inv s gone l (Some t)" by simp
    then show False by (rule call_moving) (use new(1) in auto)
  qed
  have s: "nodes ?s = (nodes s)(a \<mapsto> node_new None)" "objs ?s = (objs s)(d \<mapsto> v)" "calls ?s = (calls s)(t \<mapsto> f)"
    "q_tail ?s = q_tail s" "q_head ?s = q_head s" and fv: "f = \<lparr>push_at = AtLoad, new_value = v, new_data = Some d,
       new_next = \<lparr>external_count = 1, ptr = Some a\<rparr>, old_tail = \<lparr>external_count = 0, ptr = None\<rparr>\<rparr>"
    using e by (auto simp: push_enter_def)
  show "linked (nodes ?s) (map fst gone @ [l])"
    using D(5) by (rule linked_mono) (use a s(1) in auto)
  show "left_node ?s b u" if g: "(b, u) \<in> set gone" for b u
  proof -
    have "b \<noteq> a" "u \<noteq> t" using g a t by force+
    then show ?thesis using D(8)[OF g] new(3) unfolding left_node_def s
      by (metis fun_upd_other option.distinct(1))
  qed
  show "tail_node ?s l w"
    using D(9) a w new(3) unfolding tail_node_def s by (fastforce split: option.splits)
  show "open_call ?s (insert l (fst ` set gone)) w u g"
    if c: "calls ?s u = Some g" "u \<notin> snd ` set gone" for u g
  proof (cases "u = t")
    case True
    then show ?thesis using c s a fv by (auto simp: open_call_def trying_def)
  next
    case False
    then show ?thesis using c D(10)[of u g] s new by (fastforce simp: open_call_def)
  qed
  show "ptr (new_next g) \<noteq> ptr (new_next g')"
    if c: "calls ?s u = Some g" "calls ?s u' = Some g'" "u \<noteq> u'" "u \<notin> snd ` set gone" "u' \<notin> snd ` set gone" for u u' g g'
  proof -
    have other: "ptr (new_next h) \<noteq> Some a" if "calls s x = Some h" "x \<notin> snd ` set gone" for x h
      using D(10)[OF that] new(2) by (auto simp: open_call_def)
    show ?thesis
      using c D(11)[of u g u' g'] other[of u g] other[of u' g'] fv unfolding s
      by (auto split: if_splits)
  qed
  show "ptr (q_tail ?s) = Some l" "ptr (q_head ?s) = Some (hd (map fst gone @ [l]))"
    using s(4,5) D(6,7) by simp_all
qed (use queue_invD[OF inv] in auto)

text \<open>
  The compare-and-exchange that succeeds: only the tail's node is empty, so the call becomes the
  one that moves the tail.
\<close>

lemma inv_publish:
  assumes inv: "queue_inv s gone l None" and f: "calls s t = Some f" "t \<notin> snd ` set gone"
    and at: "ptr (old_tail f) = Some l" and n: "nodes s l = Some n"
  shows "queue_inv (s\<lparr>nodes := (nodes s)(l \<mapsto> n\<lparr>nd_data := new_data f\<rparr>),
           calls := (calls s)(t \<mapsto> f\<lparr>push_at := AtSetNext\<rparr>)\<rparr>) gone l (Some t)" (is "queue_inv ?s gone l _")
proof (rule queue_invI)
  note D = queue_invD[OF inv]
  show "linked (nodes ?s) (map fst gone @ [l])"
    using D(5) by (rule linked_mono) (use n in auto)
  show "left_node ?s a u" if g: "(a, u) \<in> set gone" for a u
  proof -
    have "a \<noteq> l" "u \<noteq> t" using g f(2) D(2) by force+
    then show ?thesis using D(8)[OF g] by (simp add: left_node_def)
  qed
  show "tail_node ?s l (Some t)"
    using D(9) D(10)[OF f] n at by (auto simp: tail_node_def open_call_def)
  show "open_call ?s (insert l (fst ` set gone)) (Some t) u g"
    if "calls ?s u = Some g" "u \<notin> snd ` set gone" for u g
    using that D(10)[of u] D(10)[OF f] by (auto simp: open_call_def split: if_splits)
  show "ptr (new_next g) \<noteq> ptr (new_next g')"
    if "calls ?s u = Some g" "calls ?s u' = Some g'" "u \<noteq> u'" "u \<notin> snd ` set gone" "u' \<notin> snd ` set gone" for u u' g g'
    using that D(11)[of u _ u'] f(1) by (auto split: if_splits)
qed (use queue_invD[OF inv] f(2) in auto)

lemma inv_set_next:
  assumes inv: "queue_inv s gone l (Some t)" and f: "calls s t = Some f"
    and n: "nodes s l = Some n" and at: "push_at f = AtSetNext"
  shows "queue_inv (s\<lparr>nodes := (nodes s)(l \<mapsto> n\<lparr>nd_next := new_next f\<rparr>),
           calls := (calls s)(t \<mapsto> f\<lparr>push_at := AtExchange\<rparr>)\<rparr>) gone l (Some t)" (is "queue_inv ?s gone l _")
proof (rule queue_invI)
  note D = queue_invD[OF inv]
  have t: "t \<notin> snd ` set gone" using D(4) by simp
  show "linked (nodes ?s) (map fst gone @ [l])"
    using D(5) by (rule linked_mono) (use n D(2) in auto)
  show "left_node ?s a u" if g: "(a, u) \<in> set gone" for a u
  proof -
    have "a \<noteq> l" "u \<noteq> t" using g t D(2) by force+
    then show ?thesis using D(8)[OF g] by (simp add: left_node_def)
  qed
  show "tail_node ?s l (Some t)"
    using D(9) n f at by (auto simp: tail_node_def)
  show "open_call ?s (insert l (fst ` set gone)) (Some t) u g"
    if "calls ?s u = Some g" "u \<notin> snd ` set gone" for u g
    using that D(10)[of u] D(10)[OF f t] by (auto simp: open_call_def split: if_splits)
  show "ptr (new_next g) \<noteq> ptr (new_next g')"
    if "calls ?s u = Some g" "calls ?s u' = Some g'" "u \<noteq> u'" "u \<notin> snd ` set gone" "u' \<notin> snd ` set gone" for u u' g g'
    using that D(11)[of u _ u'] f by (auto split: if_splits)
qed (use queue_invD[OF inv] in auto)

text \<open>The exchange of the tail: the call's own node becomes the empty node at the end.\<close>

lemma inv_exchange:
  assumes inv: "queue_inv s gone l (Some t)" and f: "calls s t = Some f"
    and at: "push_at f = AtExchange" and b: "ptr (new_next f) = Some b"
  shows "queue_inv (s\<lparr>q_tail := new_next f,
           calls := (calls s)(t \<mapsto> f\<lparr>push_at := AtFreeCounter, old_tail := q_tail s\<rparr>)\<rparr>) (gone @ [(l, t)]) b None"
    (is "queue_inv ?s _ b None")
proof (rule queue_invI)
  note D = queue_invD[OF inv]
  have t: "t \<notin> snd ` set gone" using D(4) by simp
  have bn: "b \<notin> insert l (fst ` set gone)" "nodes s b = Some (node_new None)"
    using D(10)[OF f t] b by (auto simp: open_call_def)
  show "linked (nodes ?s) (map fst (gone @ [(l, t)]) @ [b])"
    using D(5,9) f at b by (auto simp: linked_snoc tail_node_def)
  show "left_node ?s a u" if g: "(a, u) \<in> set (gone @ [(l, t)])" for a u
  proof (cases "(a, u) \<in> set gone")
    case True
    then have "u \<noteq> t" using t by force
    then show ?thesis using D(8)[OF True] by (simp add: left_node_def)
  next
    case False
    then have "a = l" "u = t" using g by auto
    then show ?thesis using D(6,9) f at by (auto simp: left_node_def tail_node_def)
  qed
  show "tail_node ?s b None"
    using bn by (simp add: tail_node_def node_new_def)
  show "open_call ?s (insert b (fst ` set (gone @ [(l, t)]))) None u g"
    if c: "calls ?s u = Some g" "u \<notin> snd ` set (gone @ [(l, t)])" for u g
  proof -
    have u: "u \<noteq> t" "calls s u = Some g" "u \<notin> snd ` set gone" using c by auto
    then have "ptr (new_next g) \<noteq> Some b" using D(11)[OF u(2) f u(1,3) t] b by simp
    moreover have "trying (insert b (fst ` set (gone @ [(l, t)]))) g"
      using D(10)[OF u(2,3)] u(1) by (auto simp: open_call_def trying_def)
    ultimately show ?thesis using D(10)[OF u(2,3)] by (auto simp: open_call_def)
  qed
  show "ptr (new_next g) \<noteq> ptr (new_next g')"
    if "calls ?s u = Some g" "calls ?s u' = Some g'" "u \<noteq> u'" "u \<notin> snd ` set (gone @ [(l, t)])"
      "u' \<notin> snd ` set (gone @ [(l, t)])" for u u' g g'
    using that D(11)[of u g u' g'] by (auto split: if_splits)
  show "ptr (q_head ?s) = Some (hd (map fst (gone @ [(l, t)]) @ [b]))"
    using D(7) by (cases gone) auto
  show "distinct (map fst (gone @ [(l, t)]))" "distinct (map snd (gone @ [(l, t)]))"
    "b \<notin> fst ` set (gone @ [(l, t)])" "ptr (q_tail ?s) = Some b"
    using D(1,2,3) t bn b by auto
qed auto

text \<open>The return of one external counter: the node keeps the other one, so it is not deleted.\<close>

lemma inv_free_counter:
  assumes inv: "queue_inv s gone l w" and f: "calls s t = Some f" and g: "(a, t) \<in> set gone"
    and at: "push_at f = AtFreeCounter" and n: "nodes s a = Some n"
    and c: "external_counters c = external_counters (nd_count n) - 1"
  shows "queue_inv (s\<lparr>nodes := (nodes s)(a \<mapsto> n\<lparr>nd_count := c\<rparr>),
           calls := (calls s)(t \<mapsto> f\<lparr>push_at := Returned, new_data := None\<rparr>)\<rparr>) gone l w"
    (is "queue_inv ?s gone l w")
proof (rule queue_invI)
  note D = queue_invD[OF inv]
  have al: "a \<noteq> l" "t \<in> snd ` set gone" using g D(2) by force+
  have wt: "w \<noteq> Some t" using al(2) D(4) by blast
  show "linked (nodes ?s) (map fst gone @ [l])"
    using D(5) by (rule linked_mono) (use n in auto)
  show "left_node ?s b u" if h: "(b, u) \<in> set gone" for b u
  proof (cases "u = t")
    case True
    then have "b = a" using h g D(3) inj_onD[of snd "set gone" "(b, u)" "(a, t)"]
      by (simp add: distinct_map)
    then show ?thesis using True D(8)[OF g] f at n c by (auto simp: left_node_def)
  next
    case False
    then have "b \<noteq> a" using h g D(1) inj_onD[of fst "set gone" "(b, u)" "(a, t)"]
      by (auto simp: distinct_map)
    then show ?thesis using False D(8)[OF h] by (simp add: left_node_def)
  qed
  show "tail_node ?s l w"
    using D(9) al(1) wt by (auto simp: tail_node_def split: option.splits)
  show "open_call ?s (insert l (fst ` set gone)) w u h"
    if u: "calls ?s u = Some h" "u \<notin> snd ` set gone" for u h
  proof -
    have a: "a \<in> insert l (fst ` set gone)" using g by force
    have h: "calls s u = Some h" using u al(2) by (auto split: if_splits)
    from D(10)[OF h u(2)] obtain b d where b: "ptr (new_next h) = Some b" "b \<notin> insert l (fst ` set gone)"
        "nodes s b = Some (node_new None)" "new_data h = Some d" "objs s d = Some (new_value h)"
      and ok: "w = Some u \<or> trying (insert l (fst ` set gone)) h"
      unfolding open_call_def by blast
    have "b \<noteq> a" using a b(2) by metis
    then have "nodes ?s b = Some (node_new None)" "objs ?s d = Some (new_value h)" using b by simp_all
    then show ?thesis unfolding open_call_def using b(1,2,4) ok by blast
  qed
  show "ptr (new_next h) \<noteq> ptr (new_next h')"
    if "calls ?s u = Some h" "calls ?s u' = Some h'" "u \<noteq> u'" "u \<notin> snd ` set gone" "u' \<notin> snd ` set gone" for u u' h h'
    using that D(11)[of u h u' h'] al(2) by (auto split: if_splits)
qed (use queue_invD[OF inv] in auto)

text \<open>
  The calls in the order in which their values were published, and one step of any call.
\<close>

definition landed :: "(nat \<times> nat) list \<Rightarrow> nat option \<Rightarrow> nat list" where
  "landed gone w = map snd gone @ (case w of None \<Rightarrow> [] | Some t \<Rightarrow> [t])"

definition one_step :: "ref_ops \<Rightarrow> 'a queue_sys \<Rightarrow> nat \<Rightarrow> 'a push_frame \<Rightarrow> nat list \<Rightarrow> bool" where
  "one_step ops s t f ord \<longleftrightarrow> (\<exists>f' s1 gone l w. push_step ops f s = Inr (f', s1) \<and> new_value f' = new_value f
     \<and> calls s1 = calls s \<and> queue_inv (s1\<lparr>calls := (calls s1)(t \<mapsto> f')\<rparr>) gone l w
     \<and> landed gone w = ord)"

lemma one_stepI:
  assumes "push_step ops f s = Inr (f', s1)" "new_value f' = new_value f" "calls s1 = calls s"
    and "queue_inv (s1\<lparr>calls := (calls s)(t \<mapsto> f')\<rparr>) gone l w" and "landed gone w = ord"
  shows "one_step ops s t f ord"
  using assms unfolding one_step_def by metis

lemma free_counter_keeps:
  assumes "ref_counting ops" and "external_counters (nd_count n) = 2"
  shows "\<exists>c. free_external_counter ops cp n = Some (n\<lparr>nd_count := c\<rparr>)
    \<and> external_counters c = external_counters (nd_count n) - 1"
proof -
  have "external_counters (nd_count n) - 1 \<noteq> 0" unfolding assms(2) by simp
  then show ?thesis using assms(1) unfolding ref_counting_def by blast
qed

lemma node_atI: "ptr cp = Some a \<Longrightarrow> nodes s a = Some n \<Longrightarrow> node_at s cp = Inr (a, n)"
  by (simp add: node_at_def)

lemma step_gone:
  assumes ops: "ref_counting ops" and inv: "queue_inv s gone l w" and f: "calls s t = Some f" "push_at f \<noteq> Returned"
    and g: "t \<in> snd ` set gone"
  shows "one_step ops s t f (landed gone w)" "\<not> lands s t"
proof -
  obtain a n where a: "(a, t) \<in> set gone" "nodes s a = Some n" "push_at f = AtFreeCounter"
      "external_counters (nd_count n) = 2" "ptr (old_tail f) = Some a"
    using call_gone[OF inv g] f by (metis option.inject)
  from ops obtain c where c: "free_external_counter ops (old_tail f) n = Some (n\<lparr>nd_count := c\<rparr>)"
      "external_counters c = external_counters (nd_count n) - 1"
    using free_counter_keeps[OF ops a(4)] by blast
  have "push_step ops f s = Inr (f\<lparr>push_at := Returned, new_data := None\<rparr>,
      s\<lparr>nodes := (nodes s)(a \<mapsto> n\<lparr>nd_count := c\<rparr>)\<rparr>)"
    using a c(1) by (simp add: push_step_def push_free_counter_def node_atI)
  then show "one_step ops s t f (landed gone w)"
    by (rule one_stepI[where gone = gone and l = l and w = w])
       (use inv_free_counter[OF inv f(1) a(1,3,2) c(2)] in simp_all)
  show "\<not> lands s t" using f a(3) by (simp add: lands_def)
qed

lemma step_moving:
  assumes inv: "queue_inv s gone l (Some t)" and f: "calls s t = Some f"
  shows "one_step ops s t f (landed gone (Some t))" "\<not> lands s t"
proof -
  obtain n where n: "nodes s l = Some n" "ptr (old_tail f) = Some l"
      and at: "push_at f = AtSetNext \<or> push_at f = AtExchange"
    using call_moving[OF inv] f by (metis option.inject)
  obtain b where b: "ptr (new_next f) = Some b"
    using queue_invD(10)[OF inv f] queue_invD(4)[OF inv] by (auto simp: open_call_def)
  from at show "one_step ops s t f (landed gone (Some t))"
  proof
    assume p: "push_at f = AtSetNext"
    then have "push_step ops f s = Inr (f\<lparr>push_at := AtExchange\<rparr>,
        s\<lparr>nodes := (nodes s)(l \<mapsto> n\<lparr>nd_next := new_next f\<rparr>)\<rparr>)"
      using n by (simp add: push_step_def push_set_next_def node_atI)
    then show ?thesis
      by (rule one_stepI[where gone = gone and l = l and w = "Some t"])
         (use inv_set_next[OF inv f n(1) p] in simp_all)
  next
    assume p: "push_at f = AtExchange"
    then have "push_step ops f s = Inr (f\<lparr>push_at := AtFreeCounter, old_tail := q_tail s\<rparr>, s\<lparr>q_tail := new_next f\<rparr>)"
      by (simp add: push_step_def push_exchange_def)
    then show ?thesis
      by (rule one_stepI[where gone = "gone @ [(l, t)]" and l = b and w = None])
         (use inv_exchange[OF inv f p b] in \<open>simp_all add: landed_def\<close>)
  qed
  show "\<not> lands s t" using at f by (auto simp: lands_def)
qed

lemma same_count:
  "nodes s a = Some n \<Longrightarrow> \<exists>c. nodes s a = Some (n\<lparr>nd_count := c\<rparr>) \<and> external_counters c = external_counters (nd_count n)"
  by (intro exI[of _ "nd_count n"]) simp

lemma keep_tail:
  "s\<lparr>q_tail := q_tail s, nodes := N, calls := C\<rparr> = s\<lparr>nodes := N, calls := C\<rparr>"
  "s\<lparr>nodes := nodes s, calls := C\<rparr> = s\<lparr>calls := C\<rparr>"
  "s\<lparr>q_tail := p, nodes := nodes s, calls := C\<rparr> = s\<lparr>q_tail := p, calls := C\<rparr>"
  by simp_all

lemma step_load:
  assumes inv: "queue_inv s gone l w" and f: "calls s t = Some f" and t: "t \<notin> snd ` set gone" "w \<noteq> Some t"
    and at: "push_at f = AtLoad"
  shows "one_step ops s t f (landed gone w)"
proof -
  have st: "push_step ops f s = Inr (f\<lparr>push_at := AtIncrease, old_tail := q_tail s\<rparr>, s)"
    using at by (simp add: push_step_def push_load_def)
  show ?thesis
    using inv_trying[OF inv f t, of "f\<lparr>push_at := AtIncrease, old_tail := q_tail s\<rparr>" "q_tail s" "nodes s"] same_count[of s]
    by (intro one_stepI[OF st, where gone = gone and l = l and w = w]) (auto simp: trying_def keep_tail)
qed

lemma step_increase:
  assumes ops: "ref_counting ops" and inv: "queue_inv s gone l w" and f: "calls s t = Some f"
    and t: "t \<notin> snd ` set gone" "w \<noteq> Some t" and at: "push_at f = AtIncrease"
  shows "one_step ops s t f (landed gone w)"
proof -
  define r where "r = increase_external_count ops (q_tail s) (old_tail f)"
  have r: "ptr (fst r) = ptr (q_tail s)" "ptr (snd r) = ptr (q_tail s)"
    using ops unfolding ref_counting_def r_def by blast+
  have st: "push_step ops f s = Inr (f\<lparr>push_at := AtCompareExchange, old_tail := snd r\<rparr>, s\<lparr>q_tail := fst r\<rparr>)"
    using at by (simp add: push_step_def push_increase_def r_def Let_def)
  show ?thesis
    using inv_trying[OF inv f t, of "f\<lparr>push_at := AtCompareExchange, old_tail := snd r\<rparr>" "fst r" "nodes s"]
      same_count[of s] r queue_invD(6)[OF inv]
    by (intro one_stepI[OF st, where gone = gone and l = l and w = w]) (auto simp: trying_def keep_tail)
qed

lemma step_compare_exchange:
  assumes inv: "queue_inv s gone l w" and f: "calls s t = Some f" and t: "t \<notin> snd ` set gone" "w \<noteq> Some t"
    and at: "push_at f = AtCompareExchange" and a: "a \<in> insert l (fst ` set gone)" "ptr (old_tail f) = Some a"
  shows "one_step ops s t f (landed gone w @ (if lands s t then [t] else []))" (is "one_step ops s t f ?ord")
proof -
  obtain n where n: "nodes s a = Some n" using chain_node[OF inv a(1)] by blast
  have lands: "lands s t \<longleftrightarrow> a = l \<and> w = None"
    using f at a n chain_empty[OF inv a(1) n] by (simp add: lands_def node_atI)
  show ?thesis
  proof (cases "lands s t")
    case True
    then have l: "a = l" "w = None" using lands by auto
    have inv': "queue_inv s gone l None" using inv l by simp
    have st: "push_step ops f s = Inr (f\<lparr>push_at := AtSetNext\<rparr>, s\<lparr>nodes := (nodes s)(l \<mapsto> n\<lparr>nd_data := new_data f\<rparr>)\<rparr>)"
      using at a n l chain_empty[OF inv a(1) n] by (simp add: push_step_def push_compare_exchange_def node_atI)
    show ?thesis
      by (rule one_stepI[OF st, where gone = gone and l = l and w = "Some t"])
         (use inv_publish[OF inv' f t(1)] a n l True in \<open>simp_all add: landed_def\<close>)
  next
    case False
    then have st: "push_step ops f s = Inr (f\<lparr>push_at := AtReleaseRef\<rparr>, s)" and ord: "?ord = landed gone w"
      using at a n lands chain_empty[OF inv a(1) n]
      by (auto simp: push_step_def push_compare_exchange_def node_atI)
    show ?thesis unfolding ord
      using inv_trying[OF inv f t, of "f\<lparr>push_at := AtReleaseRef\<rparr>" "q_tail s" "nodes s"] same_count[of s] a
      by (intro one_stepI[OF st, where gone = gone and l = l and w = w]) (auto simp: trying_def keep_tail)
  qed
qed

lemma step_release_ref:
  assumes ops: "ref_counting ops" and inv: "queue_inv s gone l w" and f: "calls s t = Some f"
    and t: "t \<notin> snd ` set gone" "w \<noteq> Some t"
    and at: "push_at f = AtReleaseRef" and a: "a \<in> insert l (fst ` set gone)" "ptr (old_tail f) = Some a"
  shows "one_step ops s t f (landed gone w)"
proof -
  obtain n where n: "nodes s a = Some n" "external_counters (nd_count n) \<noteq> 0"
    using chain_node[OF inv a(1)] by blast
  from ops n(2) obtain c where c: "release_ref ops n = Some (n\<lparr>nd_count := c\<rparr>)"
      "external_counters c = external_counters (nd_count n)"
    unfolding ref_counting_def by blast
  have st: "push_step ops f s = Inr (f\<lparr>push_at := AtIncrease\<rparr>, s\<lparr>nodes := (nodes s)(a \<mapsto> n\<lparr>nd_count := c\<rparr>)\<rparr>)"
    using at a n c by (simp add: push_step_def push_release_ref_def node_atI)
  have "queue_inv (s\<lparr>q_tail := q_tail s, nodes := (nodes s)(a \<mapsto> n\<lparr>nd_count := c\<rparr>),
      calls := (calls s)(t \<mapsto> f\<lparr>push_at := AtIncrease\<rparr>)\<rparr>) gone l w"
  proof (rule inv_trying[OF inv f t])
    fix b m assume "nodes s b = Some m"
    then show "\<exists>c'. ((nodes s)(a \<mapsto> n\<lparr>nd_count := c\<rparr>)) b = Some (m\<lparr>nd_count := c'\<rparr>)
        \<and> external_counters c' = external_counters (nd_count m)"
      using same_count[of s b m] n(1) c(2) by (cases "b = a") auto
  qed (use a(1) in \<open>auto simp: trying_def\<close>)
  then show ?thesis
    by (intro one_stepI[OF st, where gone = gone and l = l and w = w]) simp_all
qed

lemma step_trying:
  assumes ops: "ref_counting ops" and inv: "queue_inv s gone l w" and f: "calls s t = Some f"
    and t: "t \<notin> snd ` set gone" "w \<noteq> Some t"
  shows "one_step ops s t f (landed gone w @ (if lands s t then [t] else []))"
proof -
  have no: "\<not> lands s t" if "push_at f \<noteq> AtCompareExchange" using that f by (simp add: lands_def)
  from call_trying[OF inv f t] consider "push_at f = AtLoad" | "push_at f = AtIncrease"
    | a where "push_at f = AtCompareExchange" "a \<in> insert l (fst ` set gone)" "ptr (old_tail f) = Some a"
    | a where "push_at f = AtReleaseRef" "a \<in> insert l (fst ` set gone)" "ptr (old_tail f) = Some a"
    unfolding trying_def by blast
  then show ?thesis
  proof cases
    case 1
    then show ?thesis using no step_load[OF inv f t 1] by simp
  next
    case 2
    then show ?thesis using no step_increase[OF ops inv f t 2] by simp
  next
    case 3
    then show ?thesis by (rule step_compare_exchange[OF inv f t])
  next
    case 4
    then show ?thesis using no step_release_ref[OF ops inv f t 4] by simp
  qed
qed

lemma step_any:
  assumes "ref_counting ops" and "queue_inv s gone l w" and "calls s t = Some f" and "push_at f \<noteq> Returned"
  shows "one_step ops s t f (landed gone w @ (if lands s t then [t] else []))"
proof (cases "t \<in> snd ` set gone")
  case True
  then show ?thesis using step_gone[OF assms] by simp
next
  case False
  then show ?thesis
    using step_trying[OF assms(1-3)] step_moving[of s gone l t f] assms(2,3) by (cases "w = Some t") auto
qed

section \<open>What the queue holds\<close>

inductive_cases holds_SomeE: "holds s (Some a) us"

lemma holds_unique: "holds s p vs \<Longrightarrow> holds s p us \<Longrightarrow> us = vs"
proof (induction arbitrary: us rule: holds.induct)
  case at_null
  then show ?case by (cases rule: holds.cases) auto
next
  case (at_end a n)
  then show ?case by (auto elim: holds_SomeE)
next
  case (at_node a n d v vs)
  from at_node(6) show ?case
  proof (rule holds_SomeE)
    fix m d' v' us'
    assume us: "us = v' # us'" "nodes s a = Some m" "nd_data m = Some d'" "objs s d' = Some v'"
      "holds s (ptr (nd_next m)) us'"
    then have "holds s (ptr (nd_next n)) us'" using at_node(1) by simp
    from at_node(5)[OF this] show "us = v # vs" using us at_node(1-3) by simp
  qed (use at_node(1,2) in simp)
qed

lemma holds_gone:
  assumes "linked (nodes s) (map fst gone @ [l])" and "\<forall>(a, t)\<in>set gone. left_node s a t"
    and "holds s (Some l) vs"
  shows "holds s (Some (hd (map fst gone @ [l]))) (map (value_of s \<circ> snd) gone @ vs)"
  using assms
proof (induction gone)
  case (Cons x gone)
  obtain a t where x: "x = (a, t)" by (cases x)
  from Cons.prems(2) x obtain n f d where n: "nodes s a = Some n" "calls s t = Some f" "nd_data n = Some d"
      "objs s d = Some (new_value f)"
    by (auto simp: left_node_def)
  have "linked (nodes s) (a # map fst gone @ [l])" using Cons.prems(1) x by simp
  then have lk: "linked (nodes s) (map fst gone @ [l])" and
    nx: "ptr (nd_next n) = Some (hd (map fst gone @ [l]))"
    using n(1) by (cases gone; simp)+
  have "holds s (Some (hd (map fst gone @ [l]))) (map (value_of s \<circ> snd) gone @ vs)"
    using Cons.IH lk Cons.prems(2,3) by (simp add: comp_def)
  then have "holds s (Some a) (new_value f # map (value_of s \<circ> snd) gone @ vs)"
    using n nx by (intro at_node[OF n(1,3,4)]) simp
  moreover have "value_of s t = new_value f" using n(2) by (simp add: value_of_def)
  ultimately show ?case using x by (simp add: comp_def)
qed simp

lemma holds_landed:
  assumes inv: "queue_inv s gone l w"
  shows "holds s (ptr (q_head s)) (map (value_of s) (landed gone w))"
proof -
  note D = queue_invD[OF inv]
  have "holds s (Some l) (case w of None \<Rightarrow> [] | Some t \<Rightarrow> [value_of s t])"
  proof (cases w)
    case None
    then show ?thesis using D(9) by (auto simp: tail_node_def intro: at_end)
  next
    case (Some t)
    with inv have inv': "queue_inv s gone l (Some t)" by simp
    from inv' obtain n f d where n: "nodes s l = Some n" "calls s t = Some f" "nd_data n = Some d"
        "objs s d = Some (new_value f)"
      and at: "ptr (nd_next n) = None \<or> ptr (nd_next n) = ptr (new_next f)"
      by (rule call_moving) auto
    have "t \<notin> snd ` set gone" using queue_invD(4)[OF inv'] by simp
    then obtain b where "ptr (new_next f) = Some b" "nodes s b = Some (node_new None)"
      using D(10)[OF n(2)] by (auto simp: open_call_def)
    then have "holds s (ptr (nd_next n)) []"
      using at at_null at_end[of s b "node_new None"] by (auto simp: node_new_def)
    then show ?thesis using Some n at_node[OF n(1,3,4)] by (simp add: value_of_def)
  qed
  moreover have "\<forall>(a, t)\<in>set gone. left_node s a t" using D(8) by auto
  ultimately show ?thesis
    using holds_gone[OF D(5)] D(7) by (fastforce simp: landed_def split: option.splits)
qed

lemma landed_published:
  assumes inv: "queue_inv s gone l w"
  shows "distinct (landed gone w)" "set (landed gone w) = {t. \<exists>f. calls s t = Some f \<and> published f}"
proof -
  note D = queue_invD[OF inv]
  show "distinct (landed gone w)" using D(3,4) by (auto simp: landed_def split: option.splits)
  show "set (landed gone w) = {t. \<exists>f. calls s t = Some f \<and> published f}" (is "?L = ?R")
  proof (intro equalityI subsetI)
    fix t assume "t \<in> ?L"
    then consider "t \<in> snd ` set gone" | "w = Some t" by (auto simp: landed_def split: option.splits)
    then show "t \<in> ?R"
    proof cases
      case 1
      from inv this show ?thesis by (rule call_gone) (auto simp: published_def)
    next
      case 2
      with inv have "queue_inv s gone l (Some t)" by simp
      then show ?thesis by (rule call_moving) (auto simp: published_def)
    qed
  next
    fix t assume "t \<in> ?R"
    then obtain f where f: "calls s t = Some f" "published f" by auto
    then have "t \<in> snd ` set gone \<or> w = Some t"
      using call_trying[OF inv f(1)] unfolding trying_def published_def by force
    then show "t \<in> ?L" by (auto simp: landed_def)
  qed
qed

text \<open>One step of the interleaving.\<close>

lemma queue_step_inv:
  assumes ops: "ref_counting ops" and J: "\<forall>a. J a = None" and inv: "queue_inv s gone l w"
    and st: "queue_step ops J t s s'"
  obtains gone' l' w' where "queue_inv s' gone' l' w'"
    and "landed gone' w' = landed gone w @ (if lands s t then [t] else [])"
    and "\<And>u f. calls s u = Some f \<Longrightarrow> \<exists>f'. calls s' u = Some f' \<and> new_value f' = new_value f"
    and "\<And>u. u \<noteq> t \<Longrightarrow> calls s' u = calls s u"
  using st
proof (cases rule: queue_step.cases)
  case (enter a d v f s1)
  have "calls s1 = calls s" using enter(5) by (auto simp: push_enter_def)
  moreover have "queue_inv s' gone l w"
    using inv_enter[OF inv enter(2,3,4)] enter(1,5) J by simp
  moreover have "\<not> lands s t" using enter(2) by (simp add: lands_def)
  moreover have "\<exists>g'. calls s' u = Some g' \<and> new_value g' = new_value g" if "calls s u = Some g" for u g
    using that enter(1,2) \<open>calls s1 = calls s\<close> by auto
  ultimately show ?thesis using that[of gone l w] enter(1) by auto
next
  case (move f f' s1)
  from step_any[OF ops inv move(2,3)] move(4) obtain gone' l' w' where
    *: "new_value f' = new_value f" "calls s1 = calls s" "queue_inv s' gone' l' w'"
      "landed gone' w' = landed gone w @ (if lands s t then [t] else [])"
    unfolding one_step_def move(1) by auto
  have "\<exists>g'. calls s' u = Some g' \<and> new_value g' = new_value g" if "calls s u = Some g" for u g
    using that move(1,2) *(1,2) by auto
  then show ?thesis using that[OF *(3,4)] move(1) *(2) by auto
qed

lemma ready_inv:
  assumes "queue_ready s"
  obtains l where "queue_inv s [] l None"
proof -
  from assms obtain l where l: "ptr (q_head s) = Some l" "ptr (q_tail s) = Some l"
      "nodes s l = Some (node_new None)" "calls s = Map.empty"
    by (auto simp: queue_ready_def)
  have "queue_inv s [] l None"
    by (rule queue_invI) (use l in \<open>simp_all add: tail_node_def node_new_def\<close>)
  then show ?thesis by (rule that)
qed

lemma queue_run_inv:
  assumes "ref_counting ops" and "\<forall>a. J a = None" and "queue_ready s0" and "queue_run ops J s0 ts s"
  shows "\<exists>gone l w. queue_inv s gone l w"
  using assms(4)
proof (induction rule: queue_run.induct)
  case stay
  then show ?case using ready_inv[OF assms(3)] by blast
next
  case (more ts s' t s'')
  from more(3) obtain gone l w where "queue_inv s' gone l w" by blast
  from queue_step_inv[OF assms(1,2) this more(2)] show ?case by metis
qed

lemma queue_step_exists:
  assumes "ref_counting ops" and "queue_inv s gone l w" and "calls s t = Some f" and "push_at f \<noteq> Returned"
  shows "\<exists>s'. queue_step ops J t s s'"
  using step_any[OF assms] assms(3,4) unfolding one_step_def by (metis queue_step.move)

lemma queue_step_holds:
  assumes ops: "ref_counting ops" and J: "\<forall>a. J a = None" and inv: "queue_inv s gone l w"
    and st: "queue_step ops J t s s'"
  shows "holds s' (ptr (q_head s')) (map (value_of s) (landed gone w) @ (if lands s t then [value_of s t] else []))"
proof -
  obtain gone' l' w' where inv': "queue_inv s' gone' l' w'"
    and ord: "landed gone' w' = landed gone w @ (if lands s t then [t] else [])"
    and val: "\<And>u f. calls s u = Some f \<Longrightarrow> \<exists>f'. calls s' u = Some f' \<and> new_value f' = new_value f"
    using queue_step_inv[OF ops J inv st] by metis
  have same: "value_of s' u = value_of s u" if "calls s u \<noteq> None" for u
    using val[of u] that by (auto simp: value_of_def)
  have "map (value_of s') (landed gone w) = map (value_of s) (landed gone w)"
    using landed_published(2)[OF inv] same by (intro map_cong refl) auto
  moreover have "value_of s' t = value_of s t" if "lands s t"
    using that same[of t] by (auto simp: lands_def split: option.splits)
  ultimately have "map (value_of s') (landed gone' w')
      = map (value_of s) (landed gone w) @ (if lands s t then [value_of s t] else [])"
    unfolding ord map_append by simp
  then show ?thesis using holds_landed[OF inv'] by simp
qed

section \<open>Calls that wait for another, and calls that run alone\<close>

lemma gone_call:
  assumes "queue_inv s gone l w" and "t \<in> snd ` set gone" and "calls s t = Some f"
  shows "push_at f = Returned \<or> push_at f = AtFreeCounter"
  using assms(1,2) by (rule call_gone) (use assms(3) in auto)

lemma moving_call:
  assumes inv: "queue_inv s gone l w" and f: "calls s t = Some f" "push_at f \<in> {AtSetNext, AtExchange}"
  shows "w = Some t"
proof (rule ccontr)
  assume w: "w \<noteq> Some t"
  have "t \<notin> snd ` set gone" using gone_call[OF inv _ f(1)] f(2) by fastforce
  then show False using call_trying[OF inv f(1) _ w] f(2) by (auto simp: trying_def)
qed

lemma stalled_step:
  assumes ops: "ref_counting ops" and J: "\<forall>a. J a = None" and inv: "queue_inv s gone l (Some v)"
    and st: "queue_step ops J t s s'" and t: "t \<noteq> v"
  shows "\<not> lands s t" "\<exists>gone'. queue_inv s' gone' l (Some v)
    \<and> landed gone' (Some v) = landed gone (Some v)" "calls s' v = calls s v"
proof -
  show nl: "\<not> lands s t"
  proof
    assume "lands s t"
    then obtain f a n where f: "calls s t = Some f" "push_at f = AtCompareExchange"
        "ptr (old_tail f) = Some a" "nodes s a = Some n" "nd_data n = None"
      by (auto simp: lands_def node_at_def split: option.splits)
    have "t \<notin> snd ` set gone" using gone_call[OF inv _ f(1)] f(2) by fastforce
    from call_trying[OF inv f(1) this] t have "a \<in> insert l (fst ` set gone)"
      using f(2,3) by (auto simp: trying_def)
    from chain_empty[OF inv this f(4)] f(5) show False by simp
  qed
  obtain gone' l' w' where inv': "queue_inv s' gone' l' w'"
    and ord: "landed gone' w' = landed gone (Some v)" and fr: "calls s' v = calls s v"
    by (rule queue_step_inv[OF ops J inv st]) (use nl t in simp)
  from inv obtain f where f: "calls s v = Some f" "push_at f \<in> {AtSetNext, AtExchange}" "ptr (old_tail f) = Some l"
    by (rule call_moving) auto
  then have w': "w' = Some v" using moving_call[OF inv'] fr by simp
  with inv' have "queue_inv s' gone' l' (Some v)" by simp
  moreover from this f fr have "l' = l" by (elim call_moving) auto
  ultimately show "\<exists>gone'. queue_inv s' gone' l (Some v) \<and> landed gone' (Some v) = landed gone (Some v)"
    "calls s' v = calls s v" using ord w' fr by auto
qed

lemma stalled_run:
  assumes ops: "ref_counting ops" and J: "\<forall>a. J a = None" and inv: "queue_inv s gone l (Some v)"
    and run: "queue_run ops J s us s'" and us: "v \<notin> set us"
  shows "\<exists>gone'. queue_inv s' gone' l (Some v) \<and> landed gone' (Some v) = landed gone (Some v)
    \<and> map (value_of s') (landed gone (Some v)) = map (value_of s) (landed gone (Some v))"
  using run us
proof (induction rule: queue_run.induct)
  case stay
  then show ?case using inv by blast
next
  case (more us s' t s'')
  from more(3,4) obtain gone' where g: "queue_inv s' gone' l (Some v)" "landed gone' (Some v) = landed gone (Some v)"
      "map (value_of s') (landed gone (Some v)) = map (value_of s) (landed gone (Some v))" by auto
  have t: "t \<noteq> v" using more(4) by simp
  note S = stalled_step[OF ops J g(1) more(2) t]
  obtain h where h: "queue_inv s'' h l (Some v)" "landed h (Some v) = landed gone' (Some v)" using S(2) by blast
  have "map (value_of s'') (landed h (Some v)) = map (value_of s') (landed gone' (Some v))"
    using holds_unique[OF holds_landed[OF h(1)] queue_step_holds[OF ops J g(1) more(2)]] S(1) by simp
  then show ?case using h g by auto
qed

text \<open>A call that runs alone, and a bound on the accesses it has left.\<close>

fun push_alone :: "ref_ops \<Rightarrow> nat \<Rightarrow> nat \<Rightarrow> 'a queue_sys \<Rightarrow> 'a queue_sys result" where
  "push_alone ops 0 t s = Inr s"
| "push_alone ops (Suc k) t s = (case calls s t of None \<Rightarrow> Inr s
     | Some f \<Rightarrow> if push_at f = Returned then Inr s
        else res_bind (push_step ops f s) (\<lambda>(f', s1). push_alone ops k t (s1\<lparr>calls := (calls s1)(t \<mapsto> f')\<rparr>)))"

definition push_left :: "'a queue_sys \<Rightarrow> 'a push_frame \<Rightarrow> nat" where
  "push_left s f = (case push_at f of Returned \<Rightarrow> 0 | AtFreeCounter \<Rightarrow> 1 | AtExchange \<Rightarrow> 2 | AtSetNext \<Rightarrow> 3
     | AtCompareExchange \<Rightarrow> (if ptr (old_tail f) = ptr (q_tail s) then 4 else 7)
     | AtIncrease \<Rightarrow> 5 | AtLoad \<Rightarrow> 6 | AtReleaseRef \<Rightarrow> 6)"

definition no_other_moving :: "'a queue_sys \<Rightarrow> nat \<Rightarrow> bool" where
  "no_other_moving s t \<longleftrightarrow> (\<forall>u f. u \<noteq> t \<longrightarrow> calls s u = Some f \<longrightarrow> push_at f \<notin> {AtSetNext, AtExchange})"

lemma moving_only:
  assumes inv: "queue_inv s gone l w" and q: "no_other_moving s t"
  shows "w = None \<or> w = Some t"
proof (cases w)
  case (Some u)
  with inv have "queue_inv s gone l (Some u)" by simp
  then obtain f where "calls s u = Some f" "push_at f \<in> {AtSetNext, AtExchange}" by (rule call_moving) auto
  with q Some show ?thesis by (auto simp: no_other_moving_def)
qed simp

lemma tail_is_empty:
  assumes inv: "queue_inv s gone l w" and q: "no_other_moving s t"
    and f: "calls s t = Some f" "push_at f = AtCompareExchange" and n: "nodes s l = Some n"
  shows "nd_data n = None"
proof -
  have "w \<noteq> Some t"
  proof
    assume "w = Some t"
    with inv have "queue_inv s gone l (Some t)" by simp
    then show False by (rule call_moving) (use f in auto)
  qed
  then show ?thesis using moving_only[OF inv q] chain_empty[OF inv _ n] by simp
qed

lemma push_left_decreases:
  assumes ops: "ref_counting ops" and inv: "queue_inv s gone l w" and q: "no_other_moving s t"
    and f: "calls s t = Some f" "push_at f \<noteq> Returned" and st: "push_step ops f s = Inr (f', s1)"
  shows "push_left s1 f' < push_left s f"
proof (cases "push_at f")
  case AtCompareExchange
  from st AtCompareExchange obtain a n where a: "node_at s (old_tail f) = Inr (a, n)"
      "(f', s1) = (if nd_data n = None then (f\<lparr>push_at := AtSetNext\<rparr>, s\<lparr>nodes := (nodes s)(a \<mapsto> n\<lparr>nd_data := new_data f\<rparr>)\<rparr>)
         else (f\<lparr>push_at := AtReleaseRef\<rparr>, s))"
    by (auto simp: push_step_def push_compare_exchange_def res_bind_def split: sum.splits if_splits)
  then have p: "ptr (old_tail f) = Some a" "nodes s a = Some n"
    by (auto simp: node_at_def split: option.splits)
  show ?thesis
  proof (cases "nd_data n = None")
    case True
    then show ?thesis using a(2) AtCompareExchange by (auto simp: push_left_def)
  next
    case False
    then have "a \<noteq> l" using tail_is_empty[OF inv q f(1) AtCompareExchange] p(2) by auto
    then show ?thesis using False a(2) AtCompareExchange p(1) queue_invD(6)[OF inv] by (auto simp: push_left_def)
  qed
next
  case AtIncrease
  have "ptr (fst (increase_external_count ops (q_tail s) (old_tail f))) = ptr (q_tail s)"
    "ptr (snd (increase_external_count ops (q_tail s) (old_tail f))) = ptr (q_tail s)"
    using ops unfolding ref_counting_def by blast+
  then show ?thesis using st AtIncrease
    by (auto simp: push_step_def push_increase_def push_left_def Let_def)
qed (use st f in \<open>auto simp: push_step_def push_steps push_left_def res_bind_def split: sum.splits\<close>)

lemma alone_returns:
  assumes ops: "ref_counting ops" and inv: "queue_inv s gone l w" and q: "no_other_moving s t"
    and f: "calls s t = Some f" and k: "push_left s f \<le> k"
  shows "\<exists>s' f' gone' l' w'. push_alone ops k t s = Inr s' \<and> calls s' t = Some f' \<and> push_at f' = Returned
    \<and> new_value f' = new_value f \<and> queue_inv s' gone' l' w'"
  using inv q f k
proof (induction k arbitrary: s f gone l w)
  case 0
  then have "push_at f = Returned" by (simp add: push_left_def split: push_pc.splits if_splits)
  then show ?case using 0 by auto
next
  case (Suc k)
  show ?case
  proof (cases "push_at f = Returned")
    case True
    then show ?thesis using Suc.prems by auto
  next
    case False
    from step_any[OF ops Suc.prems(1,3) False] obtain f' s1 gone' l' w' where
      st: "push_step ops f s = Inr (f', s1)" "new_value f' = new_value f" "calls s1 = calls s"
        "queue_inv (s1\<lparr>calls := (calls s1)(t \<mapsto> f')\<rparr>) gone' l' w'"
      unfolding one_step_def by blast
    let ?s = "s1\<lparr>calls := (calls s1)(t \<mapsto> f')\<rparr>"
    have "push_left ?s f' = push_left s1 f'" by (simp add: push_left_def)
    then have "push_left ?s f' \<le> k"
      using push_left_decreases[OF ops Suc.prems(1,2,3) False st(1)] Suc.prems(4) by simp
    moreover have "no_other_moving ?s t" using Suc.prems(2) st(3) by (simp add: no_other_moving_def)
    ultimately have "\<exists>s' g gone' l' w'. push_alone ops k t ?s = Inr s' \<and> calls s' t = Some g \<and> push_at g = Returned
        \<and> new_value g = new_value f' \<and> queue_inv s' gone' l' w'"
      by (intro Suc.IH[OF st(4)]) simp_all
    then show ?thesis using False Suc.prems(3) st(1,2) by simp
  qed
qed

lemma push_left_le: "push_left s f \<le> 7"
  by (simp add: push_left_def split: push_pc.split)

section \<open>Properties of the queue\<close>




text \<open>The template has no constructor that sets \<open>tail\<close>.  On a queue in zeroed storage the
  first \<open>push\<close> follows the null pointer at its compare-and-exchange.\<close>

theorem push_unset_tail:
  assumes "ref_counting ops" and "ptr (q_tail s) = None" and "calls s t = Some f" and "push_at f = AtLoad"
  shows "push_alone ops 3 t s = Inl OutOfBounds"
proof -
  have "ptr (snd (increase_external_count ops (q_tail s) (q_tail s))) = None"
    using assms(1,2) unfolding ref_counting_def by simp
  then show ?thesis
    using assms(3,4)
    by (simp add: numeral_3_eq_3 push_step_def push_load_def push_increase_def push_compare_exchange_def
        node_at_def Let_def)
qed

text \<open>A queue on which two calls are interleaved, with counting operations that meet the contract.\<close>

definition sample_ops :: ref_ops where
  "sample_ops = \<lparr>increase_external_count = (\<lambda>cp ot. (cp\<lparr>external_count := external_count cp + 1\<rparr>,
       cp\<lparr>external_count := external_count cp + 1\<rparr>)),
     free_external_counter = (\<lambda>cp n. let c = nd_count n;
         c' = c\<lparr>internal_count := internal_count c + word_of_int (external_count cp - 2),
           external_counters := external_counters c - 1\<rparr>
       in if external_counters c' = 0 \<and> internal_count c' = 0 then None else Some (n\<lparr>nd_count := c'\<rparr>)),
     release_ref = (\<lambda>n. let c = nd_count n; c' = c\<lparr>internal_count := internal_count c - 1\<rparr>
       in if external_counters c' = 0 \<and> internal_count c' = 0 then None else Some (n\<lparr>nd_count := c'\<rparr>))\<rparr>"

lemma sample_ops_counting: "ref_counting sample_ops"
  unfolding ref_counting_def sample_ops_def
  by (simp add: Let_def) (intro conjI allI impI exI, rule refl, simp, rule refl, simp)

fun schedule :: "ref_ops \<Rightarrow> nat list \<Rightarrow> 'a queue_sys \<Rightarrow> 'a queue_sys result" where
  "schedule ops [] s = Inr s"
| "schedule ops (t # ts) s = (case calls s t of None \<Rightarrow> Inl AssertFailure
     | Some f \<Rightarrow> if push_at f = Returned then Inl AssertFailure
        else res_bind (push_step ops f s) (\<lambda>(f', s1). schedule ops ts (s1\<lparr>calls := (calls s1)(t \<mapsto> f')\<rparr>)))"

lemma queue_run_trans:
  assumes "queue_run ops J s' us s''" and "queue_run ops J s ts s'"
  shows "queue_run ops J s (ts @ us) s''"
  using assms by (induction rule: queue_run.induct) (auto intro: queue_run.more simp flip: append_assoc)

lemma schedule_run: "schedule ops ts s = Inr s' \<Longrightarrow> queue_run ops J s ts s'"
proof (induction ts arbitrary: s)
  case (Cons t ts)
  then obtain f f' s1 where f: "calls s t = Some f" "push_at f \<noteq> Returned" "push_step ops f s = Inr (f', s1)"
      and rest: "schedule ops ts (s1\<lparr>calls := (calls s1)(t \<mapsto> f')\<rparr>) = Inr s'"
    by (auto split: option.splits if_splits simp: res_bind_eq_Inr)
  have "queue_run ops J s ([] @ [t]) (s1\<lparr>calls := (calls s1)(t \<mapsto> f')\<rparr>)"
    by (rule queue_run.more[OF queue_run.stay queue_step.move[OF f]])
  from queue_run_trans[OF Cons.IH[OF rest] this] show ?case by simp
qed (simp add: queue_run.stay)

definition sample_start :: "int queue_sys" where
  "sample_start = \<lparr>q_head = \<lparr>external_count = 1, ptr = Some 0\<rparr>, q_tail = \<lparr>external_count = 1, ptr = Some 0\<rparr>,
     nodes = [0 \<mapsto> node_new None], objs = Map.empty, calls = Map.empty\<rparr>"

definition enter_call :: "nat \<Rightarrow> 'a \<Rightarrow> nat \<Rightarrow> nat \<Rightarrow> 'a queue_sys \<Rightarrow> 'a queue_sys" where
  "enter_call t v d a s = (let (f, s1) = push_enter v d a None s in s1\<lparr>calls := (calls s1)(t \<mapsto> f)\<rparr>)"

lemma enter_call_step:
  assumes "calls s t = None" and "nodes s a = None" and "objs s d = None"
  shows "queue_step ops (\<lambda>a. None) t s (enter_call t v d a s)"
proof -
  obtain f s1 where e: "push_enter v d a None s = (f, s1)" by fastforce
  from queue_step.enter[OF assms, of v "\<lambda>a. None"] e show ?thesis by (simp add: enter_call_def)
qed

definition sample_called :: "int queue_sys" where
  "sample_called = enter_call 1 20 1 2 (enter_call 0 10 0 1 sample_start)"

definition sample_stalled :: "int queue_sys" where
  "sample_stalled = projr (schedule sample_ops [0, 1, 0, 1, 0] sample_called)"

definition sample_retried :: "int queue_sys" where
  "sample_retried = projr (schedule sample_ops [1, 1, 1, 1] sample_stalled)"

lemmas sample_defs = sample_start_def sample_called_def sample_ops_def enter_call_def push_enter_def push_step_def push_steps
  node_at_def node_new_def Let_def

lemma sample_ready: "queue_ready sample_start"
  by (simp add: queue_ready_def sample_start_def)

lemma sample_called_run: "queue_run ops (\<lambda>a. None) sample_start [0, 1] sample_called"
proof -
  have 1: "queue_step ops (\<lambda>a. None) 0 sample_start (enter_call 0 10 0 1 sample_start)"
    by (rule enter_call_step) (simp_all add: sample_start_def)
  have 2: "queue_step ops (\<lambda>a. None) 1 (enter_call 0 10 0 1 sample_start) sample_called"
    unfolding sample_called_def
    by (rule enter_call_step) (simp_all add: sample_start_def enter_call_def push_enter_def)
  have "queue_run ops (\<lambda>a. None) sample_start (([] @ [0]) @ [1]) sample_called"
    by (rule queue_run.more[OF queue_run.more[OF queue_run.stay 1] 2])
  then show ?thesis by simp
qed

lemma sample_stalled_eq: "schedule sample_ops [0, 1, 0, 1, 0] sample_called = Inr sample_stalled"
  unfolding sample_stalled_def by (simp add: sample_defs)

lemma sample_retried_eq: "schedule sample_ops [1, 1, 1, 1] sample_stalled = Inr sample_retried"
  unfolding sample_retried_def sample_stalled_def by (simp add: sample_defs)

lemma sample_stalled_run: "queue_run sample_ops (\<lambda>a. None) sample_start ([0, 1] @ [0, 1, 0, 1, 0]) sample_stalled"
  by (rule queue_run_trans[OF schedule_run[OF sample_stalled_eq] sample_called_run])

lemma sample_stalled_calls:
  "\<exists>f. calls sample_stalled 0 = Some f \<and> push_at f = AtSetNext"
  "\<exists>f. calls sample_stalled 1 = Some f \<and> push_at f = AtCompareExchange"
  unfolding sample_stalled_def by (simp_all add: sample_defs)




theorem push_unset_tail_witness:
  "push_alone sample_ops 3 0 (enter_call 0 (5::int) 0 1 \<lparr>q_head = \<lparr>external_count = 0, ptr = None\<rparr>,
     q_tail = \<lparr>external_count = 0, ptr = None\<rparr>, nodes = Map.empty, objs = Map.empty, calls = Map.empty\<rparr>)
   = Inl OutOfBounds"
  by (rule push_unset_tail[OF sample_ops_counting]) (simp_all add: enter_call_def push_enter_def, simp)

end
