(* ===== verification/Spec2Isabelle.thy ===== *)
theory Spec2Isabelle
  imports ClientStreams ResponseFiles ThreadPools LockFree
begin

text \<open>
  \<^bold>\<open>Verification of MyMuduo, a multi-reactor TCP library with an HTTP server on top.\<close>

  \<^bold>\<open>The program.\<close>  A base event loop accepts connections and gives each to one of a pool of event
  loops, one per thread.  A loop waits in epoll, hands events to channels, and runs the functors
  other threads have queued for it, which it is woken for through an eventfd.  A connection owns
  a descriptor, a channel of its loop, an input and an output buffer, and a request parser; the
  HTTP server answers the requests the parser completes and closes idle connections by timers of
  the base loop.  Log statements compose a line in a fixed buffer and hand it to a back-end
  thread that writes files.  A general thread pool and a queue for concurrent producers stand
  beside these.

  \<^bold>\<open>Theories, in the order they build on each other.\<close>
  \<^item> \<open>Prelude\<close>: faults, the result type and its sequencing, \<open>errno\<close>, character arrays.
  \<^item> \<open>NetBuffer\<close> (\<open>Net/buffer.h\<close>, \<open>Net/buffer.cpp\<close>): \<open>Buffer\<close> as a vector with two indices.
    \<open>append_queue\<close>, \<open>byte_queue\<close> and \<open>growing_queue\<close> are the contracts its clients use; the
    buffer is a queue of bytes wherever an append does not compact, and what a compaction leaves
    is stated separately.
  \<^item> \<open>HttpRequests\<close>, \<open>HttpParser\<close>, \<open>HttpResponses\<close> (\<open>Http/httprequest.*\<close>,
    \<open>Http/httprequestparser.*\<close>, \<open>Http/httpresponse.*\<close>, \<open>Http/httpstate.h\<close>): the request line and
    header parsers, the parser's state machine and its loop, which refines a fold over the
    CRLF-terminated lines, and the serialised response.
  \<^item> \<open>Channels\<close> (\<open>Net/channel.*\<close>, \<open>Net/epoller.*\<close>): channels by address, the map from descriptors
    to channels, and the \<open>epoll_ctl\<close> calls made; the invariant says that the kernel's interest
    list, the map and the channels agree.  The locale \<open>poller\<close> is the contract of the reactor.
  \<^item> \<open>EventLoops\<close> (\<open>Net/eventloop.*\<close>): the operations of a loop, one round of it, and the loop
    thread with its callers as a step relation over lock sections and system calls, for which
    no queued functor is ever forgotten.
  \<^item> \<open>LoopPools\<close> (\<open>Net/loopthreadpool.*\<close>): starting the pool as a step relation, and round robin.
  \<^item> \<open>Timestamps\<close>, \<open>Timers\<close> (\<open>Timer/*\<close>): clock readings, the conversion of seconds in double
    precision, the ordered timer set (contract \<open>expiry_queue\<close>) and its timerfd.
  \<^item> \<open>TcpConnections\<close> (\<open>Net/tcpconnection.*\<close>): every operation of a connection, in a world of the
    connection, its loop, and what the kernel has taken from it.
  \<^item> \<open>TcpServers\<close> (\<open>Net/acceptor.*\<close>, \<open>Net/tcpserver.*\<close>, \<open>Net/address.h\<close>): all loops, all connection
    objects and the server; operations of a connection act on its view of this world.
  \<^item> \<open>HttpServers\<close> (\<open>Http/httpserver.*\<close> and \<open>resCallback\<close> of \<open>main.cpp\<close>): the callbacks that serve
    requests and watch for idle connections.
  \<^item> \<open>HttpRuns\<close>: the server while it runs, all loops and connections in one world: every channel
    callback and every functor bound to the code it runs, the drain of a queue, one round of a
    loop, and the way of a request from \<open>accept\<close> to the bytes the client reads.
  \<^item> \<open>ConnEffects\<close>, \<open>NetSystems\<close>, \<open>ConnSteps\<close>, \<open>NetSteps\<close>, \<open>NetRuns\<close>: all loops at once.  The state is
    the world of \<open>HttpRuns\<close> and where each loop's thread is in \<open>loop()\<close>; a step (\<open>do_action\<close>) is one
    return of \<open>epoll_wait\<close>, one callback, one functor, the swap of the queue, the release of a
    connection object by its last shared pointer, or a client that connects.  \<open>ConnEffects\<close> says
    what the operations of one connection change in the world, \<open>NetSystems\<close> holds the system, its
    invariant \<open>net_inv\<close> and the lemmas on what a step leaves alone, \<open>ConnSteps\<close> and \<open>NetSteps\<close> show
    that every step that can happen succeeds and keeps the invariant, and \<open>NetRuns\<close> that the steps
    of a loop that runs alone are exactly the round of \<open>HttpRuns\<close>.
  \<^item> \<open>LogStreams\<close>, \<open>Loggers\<close>, \<open>LogFiles\<close>, \<open>AsyncLogs\<close> (\<open>Logging/*\<close>): the fixed buffer (contract
    \<open>bounded_log\<close>) and integer formatting, one log line, the rolling file, and front and back
    end of the asynchronous logger as a step relation over the locked sections.
  \<^item> \<open>ResponseFiles\<close> (\<open>Http/httpresponsefile.h\<close>): the page and the icon, byte for byte, and what a
    client reads back for them.
  \<^item> \<open>ThreadPools\<close> (\<open>threadpool.hpp\<close>): workers, callers and shutdown as a step relation.
  \<^item> \<open>LockFree\<close> (\<open>lockfreequeue.hpp\<close>): \<open>push\<close> as a sequence of atomic accesses and the interleavings
    of any number of calls.  The reference counting functions that \<open>push\<close> calls and the template
    does not define are parameters, with the contract \<open>ref_counting\<close>; taking a reference is one
    step.  A fresh node's \<open>data\<close>, which the constructor leaves alone, is a parameter, too.
  \<^item> \<open>Programs\<close> (\<open>main.cpp\<close>): how the parts are put together and started.
  \<^item> \<open>ServerRuns\<close>: what holds in every state the program reaches after its start, in every
    interleaving of its threads.
  \<^item> \<open>ClientStreams\<close>: the bytes written to and waiting for each client, through every step of the
    system, and the whole conversation with a client: the concatenation of the answers to it.  Its lemmas are about operations that succeed; that they do is \<open>ServerRuns\<close>.

  \<^bold>\<open>Conventions.\<close>  Classes are records, enumerations datatypes; pointers to channels, loops and
  connection objects are numbers looked up in maps, so that an access to a freed object is a
  fault; pointers into arrays are indices.  An operation that can assert, abort, throw or touch
  memory out of range returns a \<open>result\<close>, whose left side is the fault.  Results of system calls,
  clock readings and addresses of new objects are arguments, and so are the functions of the C
  library whose text is not ours (\<open>strerror\<close>, \<open>%.12g\<close>, \<open>%p\<close>).  The log level is \<open>INFO\<close>, as
  \<open>main\<close> sets it, so \<open>LOG_DEBUG\<close> statements have no effect.  \<open>int\<close> members are
  unbounded integers; the counters that can reach their bounds in a long run, the connection
  number and the round-robin index, are bounded by proved invariants, event masks are 32-bit
  words, and the comparison of an \<open>int\<close> with a \<open>size_t\<close> is reduced modulo \<open>2 ^ 64\<close>.

  \<^bold>\<open>What is shown.\<close>  Safety: the started program never faults, in any interleaving of callbacks and
  functors, as long as the kernel and the allocator keep the contract stated in \<open>NetSystems\<close>
  (\<open>reports_ok\<close>, \<open>results_ok\<close>, \<open>held_by\<close>); no pointer dangles, no channel that epoll or the channel map
  refers to is ever freed, the connections of the server refine an abstract life cycle of five
  stages, no client gets a byte that is not an answer to what it has sent itself, and the
  asynchronous logger never dereferences a null buffer.
  Function: the output of a connection is the byte stream sent, requests are answered with what
  the response callback made of what the client wrote, timers run when due and in order, log
  lines reach the file in order.  Liveness and termination: queued functors run, every round of a loop ends, the pool starts,
  queued tasks finish, a push that runs alone returns; the recursive functions terminate by proof and need no fuel, since the
  loops that do not end by themselves, those of the threads, are step relations; the one bounded
  run, \<open>push_alone\<close>, is shown to need seven steps.  Concurrent pushes linearise.  Several theorems
  state what the code does where it differs from its evident intent.

  \<^bold>\<open>Granularity.\<close>  In the system of all loops a callback or a functor is one step.  What two threads
  do to the same connection inside a step, its unsynchronised \<open>m_state\<close> read by \<open>shutDown\<close> of the
  base loop while its own loop closes it, is below this granularity; the queue of a loop is studied
  at the level of its lock sections in \<open>EventLoops\<close>.  An idle timer is not counted as holding its
  connection, so that the results hold whether it keeps a shared pointer, as \<open>std::bind\<close> makes it,
  or a weak one, as its parameter says.

  \<^bold>\<open>Not modelled.\<close>  \<open>Net/callback.h\<close> (type names only), \<open>testMuduo.cpp\<close> (a program for another
  library), the generated files of \<open>build\<close> and the vendored load generator of \<open>test\<close>.
\<close>

end
